(* ===== verification/Prelude.thy ===== *)
theory Prelude
  imports Main "HOL-Library.Word" "HOL-Library.Multiset"
begin

unbundle bit_operations_syntax

text \<open>
  Shared vocabulary of the development: the machine integers of the C sources, the fact
  collections the component proofs feed to the simplifier, and generic lemmas on lists,
  folds and multisets.
\<close>

type_synonym u8 = "8 word"
type_synonym u16 = "16 word"
type_synonym u32 = "32 word"
type_synonym u64 = "64 word"

text \<open>
  \<open>ledger\<close>: how an operation changes the accounting of packet buffers;
  \<open>frame\<close>: which parts of a state an operation leaves alone.
\<close>

named_theorems ledger
named_theorems frame

subsection \<open>Lists\<close>

lemma find_Some_iff_first:
  assumes "distinct (map f [0..<n])" and "j < n"
  shows "find (\<lambda>i. f i = f j) [0..<n] = Some j"
proof -
  have inj: "f i \<noteq> f j" if "i < j" for i
    using assms that by (metis atLeastLessThan_iff distinct_map inj_on_contraD le0
        nat_neq_iff order.strict_trans set_upt)
  show ?thesis
    unfolding find_Some_iff using assms(2) inj
    by (intro exI[of _ j]) auto
qed

lemma nth_list_update_cond:
  "xs[i := v] ! j = (if i = j \<and> j < length xs then v else xs ! j)"
  by (cases "i < length xs") (auto simp: nth_list_update list_update_beyond)

lemma map_nth_take: "n \<le> length xs \<Longrightarrow> map ((!) xs) [0..<n] = take n xs"
  by (simp add: list_eq_iff_nth_eq)

lemma map_upt_prefix: "xs @ ys = map f [0..<k] \<Longrightarrow> xs = map f [0..<length xs]"
  by (metis append_eq_conv_conj length_append length_map length_upt diff_zero le_add1 take_map take_upt add_0)

lemma fold_last_match:
  "fold (\<lambda>i r. if P i then g i else r) xs z =
     (if \<exists>i\<in>set xs. P i then g (last (filter P xs)) else z)"
  by (induction xs arbitrary: z) (auto simp: filter_empty_conv)

lemma fold_unique_match:
  assumes "j \<in> set xs" and "P j" and "\<And>i. i \<in> set xs \<Longrightarrow> P i \<Longrightarrow> i = j"
  shows "fold (\<lambda>i r. if P i then g i else r) xs z = g j"
proof -
  have "filter P xs \<noteq> []" using assms(1,2) by (auto simp: filter_empty_conv)
  then have "last (filter P xs) \<in> set (filter P xs)" by (rule last_in_set)
  then have "last (filter P xs) = j" using assms(3) by auto
  then show ?thesis using assms(1,2) by (auto simp: fold_last_match)
qed

lemma mset_take_drop [simp]: "mset (take n xs) + mset (drop n xs) = mset xs"
  by (metis append_take_drop_id mset_append)

lemma mset_take_drop_add [simp]: "x + mset (take n xs) + mset (drop n xs) = x + mset xs"
  by (simp add: union_assoc)

lemma mset_drop_take [simp]: "mset (drop n xs) + mset (take n xs) = mset xs"
  by (metis mset_take_drop add.commute)

lemma fold_invariant:
  assumes "\<And>x s. x \<in> set xs \<Longrightarrow> I s \<Longrightarrow> I (f x s)" and "I s"
  shows "I (fold f xs s)"
  using assms by (induction xs arbitrary: s) auto

text \<open>A step that leaves \<open>g\<close> alone leaves it alone over a whole fold.\<close>

lemma fold_frame:
  assumes "\<And>x s. g (f x s) = g s"
  shows "g (fold f xs s) = g s"
  using assms by (induction xs arbitrary: s) auto

text \<open>Updating each address of a distinct list once.\<close>

lemma fold_upd_distinct:
  assumes "distinct xs"
  shows "fold (\<lambda>x f. f(x := g (f x))) xs f y = (if y \<in> set xs then g (f y) else f y)"
  using assms by (induction xs arbitrary: f) auto

end
