(* ===== verification/FeatureArc.thy ===== *)
theory FeatureArc
  imports Prelude
begin

text \<open>
  The feature arc of \<open>feature_arc/sample/main.c\<close>: a static array of named nodes, each
  with the name of its successor, and an arc that holds a start node, an end node and an
  ordered list of features that can be switched on and off. \<open>feature_arc_rebuild\<close> rewires
  the successors so that the enabled features form a chain from start to end, and
  \<open>dump_pipeline\<close> walks the chain.

  The arrays are lists of the declared size, next to the counters the code keeps. A C
  string pointer is a \<open>string option\<close> (\<open>None\<close> is \<open>NULL\<close>). A write past the end of an
  array and a \<open>strcmp\<close> on \<open>NULL\<close> are undefined in C; they are the values of type
  \<open>fault\<close>. \<open>dump_pipeline\<close> follows successors without a bound, so it is a partial
  function: \<open>None\<close> when it never returns.
\<close>

definition MAX_FEATURES :: nat where "MAX_FEATURES = 8"
definition MAX_NODES :: nat where "MAX_NODES = 16"

datatype fault = OutOfBounds | NullDeref

record arc_node =
  nname :: "string option"
  nnext :: "string option"

record fa_state =
  nodes :: "arc_node list"
  node_count :: nat
  arc_start :: "string option"
  arc_end :: "string option"
  features :: "string option list"
  enabled :: "int list"
  count :: nat

text \<open>Static storage: every pointer \<open>NULL\<close>, every counter 0.\<close>

definition fa_init :: fa_state where
  "fa_init = \<lparr> nodes = replicate MAX_NODES \<lparr>nname = None, nnext = None\<rparr>, node_count = 0,
     arc_start = None, arc_end = None, features = replicate MAX_FEATURES None,
     enabled = replicate MAX_FEATURES 0, count = 0 \<rparr>"

subsection \<open>Operations\<close>

definition add_node :: "string \<Rightarrow> fa_state \<Rightarrow> fault + fa_state" where
  "add_node name s =
     (if node_count s < length (nodes s)
      then Inr (s\<lparr>nodes := (nodes s)[node_count s := \<lparr>nname = Some name, nnext = None\<rparr>],
                  node_count := node_count s + 1\<rparr>)
      else Inl OutOfBounds)"

text \<open>The loop returns at the first node of that name.\<close>

definition set_next :: "string option \<Rightarrow> string option \<Rightarrow> fa_state \<Rightarrow> fa_state" where
  "set_next from to s =
     (case find (\<lambda>i. nname (nodes s ! i) = from) [0..<node_count s] of
        None \<Rightarrow> s
      | Some i \<Rightarrow> s\<lparr>nodes := (nodes s)[i := (nodes s ! i)\<lparr>nnext := to\<rparr>]\<rparr>)"

definition feature_arc_init :: "string \<Rightarrow> string \<Rightarrow> fa_state \<Rightarrow> fa_state" where
  "feature_arc_init start end' s = s\<lparr>arc_start := Some start, arc_end := Some end', count := 0\<rparr>"

definition feature_register :: "string \<Rightarrow> fa_state \<Rightarrow> fault + fa_state" where
  "feature_register name s =
     (if count s < length (features s)
      then Inr (s\<lparr>features := (features s)[count s := Some name],
                  enabled := (enabled s)[count s := 0], count := count s + 1\<rparr>)
      else Inl OutOfBounds)"

definition set_enabled :: "int \<Rightarrow> string \<Rightarrow> fa_state \<Rightarrow> fa_state" where
  "set_enabled v name s =
     fold (\<lambda>i s. if features s ! i = Some name then s\<lparr>enabled := (enabled s)[i := v]\<rparr> else s)
       [0..<count s] s"

definition feature_enable :: "string \<Rightarrow> fa_state \<Rightarrow> fa_state" where
  "feature_enable name s = set_enabled 1 name s"

definition feature_disable :: "string \<Rightarrow> fa_state \<Rightarrow> fa_state" where
  "feature_disable name s = set_enabled 0 name s"

fun rebuild_loop :: "nat list \<Rightarrow> string option \<Rightarrow> fa_state \<Rightarrow> string option \<times> fa_state" where
  "rebuild_loop [] prev s = (prev, s)"
| "rebuild_loop (i # is) prev s =
     (if enabled s ! i \<noteq> 0
      then rebuild_loop is (features s ! i) (set_next prev (features s ! i) s)
      else rebuild_loop is prev s)"

definition feature_arc_rebuild :: "fa_state \<Rightarrow> fault + fa_state" where
  "feature_arc_rebuild s =
     (if arc_start s = None \<and> 0 < node_count s then Inl NullDeref
      else case rebuild_loop [0..<count s] (arc_start s) s of
             (prev, s') \<Rightarrow> Inr (set_next prev (arc_end s') s'))"

text \<open>The inner loop of \<open>dump_pipeline\<close> has no \<open>break\<close>: the last node of that name wins.\<close>

definition next_of :: "fa_state \<Rightarrow> string \<Rightarrow> string option" where
  "next_of s cur =
     fold (\<lambda>i nx. if nname (nodes s ! i) = Some cur then nnext (nodes s ! i) else nx)
       [0..<node_count s] None"

partial_function (option) dump_from :: "fa_state \<Rightarrow> string \<Rightarrow> string list option" where
  "dump_from s cur =
     (case next_of s cur of
        None \<Rightarrow> Some [cur]
      | Some nx \<Rightarrow> Option.bind (dump_from s nx) (\<lambda>out. Some (cur # out)))"

declare dump_from.simps [code]

text \<open>The printed names, in order; nothing is printed when the arc has no start.\<close>

definition dump_pipeline :: "fa_state \<Rightarrow> string list option" where
  "dump_pipeline s = (case arc_start s of None \<Rightarrow> Some [] | Some cur \<Rightarrow> dump_from s cur)"

definition sum_bind :: "'e + 'a \<Rightarrow> ('a \<Rightarrow> 'e + 'b) \<Rightarrow> 'e + 'b" where
  "sum_bind r f = (case r of Inl e \<Rightarrow> Inl e | Inr x \<Rightarrow> f x)"

text \<open>
  The demonstration in \<open>main\<close>: five nodes, three features, five rebuilds, each followed by
  a dump. The result is the list of dumped pipelines.
\<close>

definition fa_setup :: "fault + fa_state" where
  "fa_setup =
     sum_bind (add_node ''L3'' fa_init) (\<lambda>s.
     sum_bind (add_node ''Firewall'' s) (\<lambda>s.
     sum_bind (add_node ''NAT'' s) (\<lambda>s.
     sum_bind (add_node ''QoS'' s) (\<lambda>s.
     sum_bind (add_node ''L4'' s) (\<lambda>s.
     sum_bind (feature_register ''Firewall'' (feature_arc_init ''L3'' ''L4'' s)) (\<lambda>s.
     sum_bind (feature_register ''NAT'' s) (\<lambda>s.
     feature_register ''QoS'' s)))))))"

definition rebuild_and_dump :: "fa_state \<Rightarrow> fault + fa_state \<times> string list option" where
  "rebuild_and_dump s = sum_bind (feature_arc_rebuild s) (\<lambda>s'. Inr (s', dump_pipeline s'))"

definition fa_main :: "fault + string list option list" where
  "fa_main =
     sum_bind fa_setup (\<lambda>s.
     sum_bind (rebuild_and_dump s) (\<lambda>(s, p1).
     sum_bind (rebuild_and_dump (feature_enable ''Firewall'' s)) (\<lambda>(s, p2).
     sum_bind (rebuild_and_dump (feature_enable ''NAT'' s)) (\<lambda>(s, p3).
     sum_bind (rebuild_and_dump (feature_enable ''QoS''
        (feature_disable ''NAT'' (feature_disable ''Firewall'' s)))) (\<lambda>(s, p4).
     sum_bind (rebuild_and_dump (feature_enable ''NAT'' (feature_enable ''Firewall'' s)))
        (\<lambda>(s, p5). Inr [p1, p2, p3, p4, p5]))))))"

subsection \<open>Well-formedness and what an arc promises\<close>

definition node_names :: "fa_state \<Rightarrow> string option list" where
  "node_names s = map (\<lambda>i. nname (nodes s ! i)) [0..<node_count s]"

definition fa_wf :: "fa_state \<Rightarrow> bool" where
  "fa_wf s \<longleftrightarrow> length (nodes s) = MAX_NODES \<and> node_count s \<le> MAX_NODES \<and>
     length (features s) = MAX_FEATURES \<and> length (enabled s) = MAX_FEATURES \<and>
     count s \<le> MAX_FEATURES \<and> None \<notin> set (node_names s) \<and>
     None \<notin> set (take (count s) (features s))"

text \<open>The chain the arc should produce: start, the enabled features in order, end.\<close>

definition enabled_features :: "fa_state \<Rightarrow> string list" where
  "enabled_features s =
     map (\<lambda>i. the (features s ! i)) (filter (\<lambda>i. enabled s ! i \<noteq> 0) [0..<count s])"

text \<open>
  The arc is ready to be rebuilt: its start, features and end are distinct nodes, and the
  end node has no successor.
\<close>

definition arc_ready :: "fa_state \<Rightarrow> bool" where
  "arc_ready s \<longleftrightarrow> fa_wf s \<and> distinct (node_names s) \<and>
     arc_start s \<noteq> None \<and> arc_end s \<noteq> None \<and>
     distinct (arc_start s # take (count s) (features s) @ [arc_end s]) \<and>
     set (arc_start s # take (count s) (features s) @ [arc_end s]) \<subseteq> set (node_names s) \<and>
     next_of s (the (arc_end s)) = None"

subsection \<open>Lookups and single updates\<close>

lemma next_of_nth:
  assumes "distinct (node_names s)" and "i < node_count s" and "nname (nodes s ! i) = Some x"
  shows "next_of s x = nnext (nodes s ! i)"
  unfolding next_of_def
proof (rule fold_unique_match)
  show "i \<in> set [0..<node_count s]" using assms(2) by simp
  show "nname (nodes s ! i) = Some x" by fact
  show "k = i" if "k \<in> set [0..<node_count s]" and "nname (nodes s ! k) = Some x" for k
    using assms that by (auto simp: node_names_def distinct_map inj_on_def)
qed

lemma next_of_absent: "Some x \<notin> set (node_names s) \<Longrightarrow> next_of s x = None"
  by (auto simp: next_of_def fold_last_match node_names_def image_iff)

lemma set_next_frame [simp]:
  "node_count (set_next f t s) = node_count s" "features (set_next f t s) = features s"
  "enabled (set_next f t s) = enabled s" "count (set_next f t s) = count s"
  "arc_start (set_next f t s) = arc_start s" "arc_end (set_next f t s) = arc_end s"
  "length (nodes (set_next f t s)) = length (nodes s)"
  by (auto simp: set_next_def split: option.splits)

lemma node_names_set_next [simp]: "node_names (set_next f t s) = node_names s"
  by (auto simp: set_next_def node_names_def nth_list_update_cond split: option.splits)

lemma set_next_hit:
  assumes "distinct (node_names s)" and "i < node_count s" and "nname (nodes s ! i) = Some x"
  shows "set_next (Some x) t s = s\<lparr>nodes := (nodes s)[i := (nodes s ! i)\<lparr>nnext := t\<rparr>]\<rparr>"
  using find_Some_iff_first[of "\<lambda>i. nname (nodes s ! i)" "node_count s" i] assms
  by (simp add: set_next_def node_names_def)

lemma next_of_set_next:
  assumes d: "distinct (node_names s)" and x: "Some x \<in> set (node_names s)"
    and len: "node_count s \<le> length (nodes s)"
  shows "next_of (set_next (Some x) t s) y = (if y = x then t else next_of s y)"
proof -
  let ?s = "set_next (Some x) t s"
  from x obtain i where i: "i < node_count s" "nname (nodes s ! i) = Some x"
    by (auto simp: node_names_def)
  note hit = set_next_hit[OF d i]
  show ?thesis
  proof (cases "Some y \<in> set (node_names s)")
    case True
    then obtain j where j: "j < node_count s" "nname (nodes s ! j) = Some y"
      by (auto simp: node_names_def)
    have "nname (nodes ?s ! j) = Some y"
      using i j len by (simp add: hit nth_list_update)
    then have "next_of ?s y = nnext (nodes ?s ! j)"
      using d j by (intro next_of_nth) simp_all
    also have "\<dots> = (if j = i then t else nnext (nodes s ! j))"
      using i j len by (simp add: hit nth_list_update)
    also have "\<dots> = (if y = x then t else next_of s y)"
      using next_of_nth[OF d j] next_of_nth[OF d i] i j d
      by (auto simp: node_names_def distinct_map inj_on_def)
    finally show ?thesis .
  next
    case False
    then show ?thesis using x by (auto simp: next_of_absent)
  qed
qed

subsection \<open>Chains\<close>

text \<open>Every name of the list has the following one as its successor; the last has none.\<close>

fun chained :: "fa_state \<Rightarrow> string list \<Rightarrow> bool" where
  "chained s [] = True"
| "chained s [x] = (next_of s x = None)"
| "chained s (x # y # zs) = (next_of s x = Some y \<and> chained s (y # zs))"

lemma dump_chained: "chained s (x # xs) \<Longrightarrow> dump_from s x = Some (x # xs)"
  by (induction xs arbitrary: x) (simp_all add: dump_from.simps)

text \<open>Linking a list of names from a first one, as the loop of \<open>feature_arc_rebuild\<close> does.\<close>

fun link :: "string option \<Rightarrow> string option list \<Rightarrow> fa_state \<Rightarrow> fa_state" where
  "link prev [] s = s"
| "link prev (n # ns) s = link n ns (set_next prev n s)"

lemma rebuild_loop_link:
  "rebuild_loop is prev s =
     (let ns = map (\<lambda>i. features s ! i) (filter (\<lambda>i. enabled s ! i \<noteq> 0) is)
      in (last (prev # ns), link prev ns s))"
  by (induction "is" arbitrary: prev s) (auto simp: Let_def)

lemma link_snoc: "set_next (last (prev # ns)) e (link prev ns s) = link prev (ns @ [e]) s"
  by (induction ns arbitrary: prev s) auto

lemma link_frame [simp]:
  "node_count (link p ns s) = node_count s" "features (link p ns s) = features s"
  "enabled (link p ns s) = enabled s" "count (link p ns s) = count s"
  "arc_start (link p ns s) = arc_start s" "arc_end (link p ns s) = arc_end s"
  "length (nodes (link p ns s)) = length (nodes s)" "node_names (link p ns s) = node_names s"
  by (induction ns arbitrary: p s) auto

lemma next_of_link_other:
  assumes "distinct (node_names s)" and "node_count s \<le> length (nodes s)"
    and "Some ` set (p # ns) \<subseteq> set (node_names s)" and "y \<notin> set (butlast (p # ns))"
  shows "next_of (link (Some p) (map Some ns) s) y = next_of s y"
  using assms
proof (induction ns arbitrary: p s)
  case (Cons n ns)
  then have "next_of (link (Some n) (map Some ns) (set_next (Some p) (Some n) s)) y
             = next_of (set_next (Some p) (Some n) s) y"
    by (intro Cons.IH) auto
  also have "\<dots> = next_of s y"
    using Cons.prems by (subst next_of_set_next) auto
  finally show ?case by simp
qed simp

lemma chained_link:
  assumes "distinct (node_names s)" and "node_count s \<le> length (nodes s)"
    and "Some ` set (p # ns) \<subseteq> set (node_names s)" and "distinct (p # ns)"
    and "next_of s (last (p # ns)) = None"
  shows "chained (link (Some p) (map Some ns) s) (p # ns)"
  using assms
proof (induction ns arbitrary: p s)
  case (Cons n ns)
  let ?s = "set_next (Some p) (Some n) s"
  have "next_of ?s (last (n # ns)) = None"
    using Cons.prems by (subst next_of_set_next) auto
  then have "chained (link (Some n) (map Some ns) ?s) (n # ns)"
    using Cons.prems by (intro Cons.IH) auto
  moreover have "next_of (link (Some n) (map Some ns) ?s) p = Some n"
  proof -
    have "next_of (link (Some n) (map Some ns) ?s) p = next_of ?s p"
      using Cons.prems by (intro next_of_link_other) (auto dest: in_set_butlastD)
    also have "\<dots> = Some n" using Cons.prems by (subst next_of_set_next) auto
    finally show ?thesis .
  qed
  ultimately show ?case by simp
qed simp

subsection \<open>Rebuilding\<close>

lemma enabled_names_Some:
  assumes "fa_wf s"
  shows "map (\<lambda>i. features s ! i) (filter (\<lambda>i. enabled s ! i \<noteq> 0) [0..<count s])
         = map Some (enabled_features s)"
proof -
  have "features s ! i \<noteq> None" if "i < count s" for i
    using assms that by (auto simp: fa_wf_def in_set_conv_nth)
  then show ?thesis by (auto simp: enabled_features_def)
qed

lemma arc_ready_names:
  assumes "arc_ready s"
  obtains a b where "arc_start s = Some a" "arc_end s = Some b"
    "distinct (a # enabled_features s @ [b])"
    "Some ` set (a # enabled_features s @ [b]) \<subseteq> set (node_names s)" "next_of s b = None"
    "distinct (node_names s)" "node_count s \<le> length (nodes s)"
proof -
  from assms obtain a b where ab: "arc_start s = Some a" "arc_end s = Some b"
    by (auto simp: arc_ready_def)
  let ?fs = "filter (\<lambda>i. enabled s ! i \<noteq> 0) [0..<count s]"
  from assms have wf: "fa_wf s" by (simp add: arc_ready_def)
  note some = enabled_names_Some[OF wf, symmetric]
  have tk: "take (count s) (features s) = map ((!) (features s)) [0..<count s]"
    using wf by (simp add: map_nth_take fa_wf_def)
  have sub: "Some ` set (enabled_features s) \<subseteq> set (take (count s) (features s))"
    using arg_cong[OF some, of set] unfolding tk by auto
  have "distinct (map Some (enabled_features s))"
    unfolding some using assms by (auto simp: arc_ready_def tk intro: distinct_map_filter)
  then have "distinct (a # enabled_features s @ [b])"
    using assms sub ab by (auto simp: arc_ready_def distinct_map)
  moreover have "Some ` set (a # enabled_features s @ [b]) \<subseteq> set (node_names s)"
    using assms sub ab by (auto simp: arc_ready_def)
  ultimately show thesis
    using that[OF ab] assms ab by (auto simp: arc_ready_def fa_wf_def)
qed

lemma rebuild_link:
  assumes "arc_ready s" and "arc_start s = Some a" and "arc_end s = Some b"
  shows "feature_arc_rebuild s = Inr (link (Some a) (map Some (enabled_features s @ [b])) s)"
proof -
  from assms(1) have wf: "fa_wf s" by (simp add: arc_ready_def)
  show ?thesis
    using link_snoc[of "Some a" "map Some (enabled_features s)" "Some b" s] assms(2,3)
    by (simp add: feature_arc_rebuild_def rebuild_loop_link enabled_names_Some[OF wf] Let_def)
qed

lemma enabled_features_link [simp]: "enabled_features (link p ns s) = enabled_features s"
  by (simp add: enabled_features_def)

lemma arc_ready_link:
  assumes "arc_ready s" and "arc_start s = Some a" and "arc_end s = Some b"
  shows "arc_ready (link (Some a) (map Some (enabled_features s @ [b])) s)"
proof -
  from assms have *: "distinct (node_names s)" "node_count s \<le> length (nodes s)"
    "Some ` set (a # enabled_features s @ [b]) \<subseteq> set (node_names s)"
    "b \<notin> set (butlast (a # enabled_features s @ [b]))"
    by (auto elim!: arc_ready_names simp: butlast_append)
  have "next_of (link (Some a) (map Some (enabled_features s @ [b])) s) b = next_of s b"
    using * by (rule next_of_link_other)
  then show ?thesis using assms by (simp add: arc_ready_def fa_wf_def)
qed

lemma rebuild_ready:
  assumes "arc_ready s"
  shows "\<exists>s'. feature_arc_rebuild s = Inr s' \<and> arc_ready s' \<and>
           enabled_features s' = enabled_features s \<and> features s' = features s \<and>
           enabled s' = enabled s \<and> count s' = count s \<and>
           arc_start s' = arc_start s \<and> arc_end s' = arc_end s \<and>
           dump_pipeline s' = Some (the (arc_start s) # enabled_features s @ [the (arc_end s)])"
proof -
  from assms obtain a b where ab: "arc_start s = Some a" "arc_end s = Some b"
    "distinct (a # enabled_features s @ [b])"
    "Some ` set (a # enabled_features s @ [b]) \<subseteq> set (node_names s)" "next_of s b = None"
    "distinct (node_names s)" "node_count s \<le> length (nodes s)"
    by (rule arc_ready_names)
  let ?s = "link (Some a) (map Some (enabled_features s @ [b])) s"
  have "chained ?s (a # enabled_features s @ [b])"
    using ab by (intro chained_link) auto
  then have "dump_from ?s a = Some (a # enabled_features s @ [b])"
    by (rule dump_chained)
  then show ?thesis
    using rebuild_link[OF assms ab(1,2)] arc_ready_link[OF assms ab(1,2)] ab(1,2)
    by (simp add: dump_pipeline_def)
qed

subsection \<open>Switching features\<close>

lemma set_enabled_frame [simp]:
  "nodes (set_enabled v n s) = nodes s" "node_count (set_enabled v n s) = node_count s"
  "features (set_enabled v n s) = features s" "count (set_enabled v n s) = count s"
  "arc_start (set_enabled v n s) = arc_start s" "arc_end (set_enabled v n s) = arc_end s"
  "length (enabled (set_enabled v n s)) = length (enabled s)"
  unfolding set_enabled_def by (rule fold_frame, simp)+

lemma set_enabled_fold:
  "enabled (fold (\<lambda>i s. if features s ! i = Some n then s\<lparr>enabled := (enabled s)[i := v]\<rparr> else s) is s) ! j
   = (if j \<in> set is \<and> features s ! j = Some n \<and> j < length (enabled s) then v else enabled s ! j)"
  by (induction "is" arbitrary: s) (auto simp: nth_list_update_cond)

lemma set_enabled_nth:
  "enabled (set_enabled v n s) ! j =
     (if j < count s \<and> features s ! j = Some n \<and> j < length (enabled s) then v else enabled s ! j)"
  by (simp add: set_enabled_def set_enabled_fold)

lemma node_names_set_enabled [simp]: "node_names (set_enabled v n s) = node_names s"
  by (simp add: node_names_def)

lemma next_of_set_enabled [simp]: "next_of (set_enabled v n s) x = next_of s x"
  by (simp add: next_of_def cong: if_cong)

lemma arc_ready_set_enabled [simp]: "arc_ready (set_enabled v n s) = arc_ready s"
  by (simp add: arc_ready_def fa_wf_def)

text \<open>
  The abstract state of an arc is the set of features that are on; switching is insertion
  and removal, and the chain is the registered features, filtered by that set.
\<close>

definition registered :: "fa_state \<Rightarrow> string list" where
  "registered s = map the (take (count s) (features s))"

definition on_set :: "fa_state \<Rightarrow> string set" where
  "on_set s =
     the ` (set (map ((!) (features s)) (filter (\<lambda>i. enabled s ! i \<noteq> 0) [0..<count s])) - {None})"

lemma in_on_set:
  "n \<in> on_set s \<longleftrightarrow> (\<exists>i<count s. features s ! i = Some n \<and> enabled s ! i \<noteq> 0)"
  unfolding on_set_def by force

datatype fa_op = Enable string | Disable string | Rebuild

fun fa_step :: "fa_op \<Rightarrow> fa_state \<Rightarrow> fault + fa_state" where
  "fa_step (Enable n) s = Inr (feature_enable n s)"
| "fa_step (Disable n) s = Inr (feature_disable n s)"
| "fa_step Rebuild s = feature_arc_rebuild s"

fun fa_run :: "fa_op list \<Rightarrow> fa_state \<Rightarrow> fault + fa_state" where
  "fa_run [] s = Inr s"
| "fa_run (x # xs) s = sum_bind (fa_step x s) (fa_run xs)"

fun abs_step :: "string list \<Rightarrow> fa_op \<Rightarrow> string set \<Rightarrow> string set" where
  "abs_step regs (Enable n) A = (if n \<in> set regs then insert n A else A)"
| "abs_step regs (Disable n) A = A - {n}"
| "abs_step regs Rebuild A = A"

lemma registered_nth:
  assumes "fa_wf s" and "i < count s"
  shows "features s ! i = Some (registered s ! i)" and "registered s ! i \<in> set (registered s)"
proof -
  have "features s ! i \<in> set (take (count s) (features s))"
    using assms by (auto simp: fa_wf_def in_set_conv_nth)
  then have "features s ! i \<noteq> None" using assms(1) by (metis fa_wf_def)
  then show "features s ! i = Some (registered s ! i)"
    using assms by (auto simp: registered_def fa_wf_def)
  show "registered s ! i \<in> set (registered s)"
    using assms by (intro nth_mem) (simp add: registered_def fa_wf_def)
qed

lemma in_registered:
  assumes "fa_wf s"
  shows "n \<in> set (registered s) \<longleftrightarrow> (\<exists>i<count s. features s ! i = Some n)"
proof
  assume "n \<in> set (registered s)"
  then obtain i where "i < length (registered s)" "registered s ! i = n"
    by (auto simp: in_set_conv_nth)
  moreover have "length (registered s) = count s"
    using assms by (simp add: registered_def fa_wf_def)
  ultimately show "\<exists>i<count s. features s ! i = Some n"
    using registered_nth(1)[OF assms] by auto
next
  assume "\<exists>i<count s. features s ! i = Some n"
  then obtain i where i: "i < count s" "features s ! i = Some n" by blast
  with registered_nth(1)[OF assms i(1)] registered_nth(2)[OF assms i(1)]
  show "n \<in> set (registered s)" by simp
qed

lemma enabled_features_filter:
  assumes wf: "fa_wf s" and d: "distinct (take (count s) (features s))"
  shows "enabled_features s = filter (\<lambda>n. n \<in> on_set s) (registered s)"
proof -
  have tk: "take (count s) (features s) = map ((!) (features s)) [0..<count s]"
    using wf by (simp add: map_nth_take fa_wf_def)
  have iff: "the (features s ! i) \<in> on_set s \<longleftrightarrow> enabled s ! i \<noteq> 0" if "i < count s" for i
  proof -
    from registered_nth(1)[OF wf that] have f: "features s ! i = Some (the (features s ! i))" by simp
    have "j = i" if "j < count s" "features s ! j = Some (the (features s ! i))" for j
      using d f that \<open>i < count s\<close> unfolding tk distinct_map inj_on_def by auto
    then show ?thesis using f that by (auto simp: in_on_set)
  qed
  have "filter (\<lambda>i. enabled s ! i \<noteq> 0) [0..<count s]
        = filter (\<lambda>i. the (features s ! i) \<in> on_set s) [0..<count s]"
    by (rule filter_cong) (simp_all add: iff)
  then show ?thesis
    by (simp add: enabled_features_def registered_def tk filter_map comp_def)
qed

lemma on_set_set_enabled:
  assumes "fa_wf s"
  shows "on_set (set_enabled v n s) =
    (if v = 0 then on_set s - {n} else if n \<in> set (registered s) then insert n (on_set s) else on_set s)"
proof -
  let ?t = "set_enabled v n s"
  have on: "m \<in> on_set t \<longleftrightarrow> (\<exists>i<count t. features t ! i = Some m \<and> enabled t ! i \<noteq> 0)" for m t
    by (rule in_on_set)
  have nth: "enabled ?t ! i = (if features s ! i = Some n then v else enabled s ! i)"
    if "i < count s" for i
  proof -
    have "i < length (enabled s)" using assms that by (simp add: fa_wf_def)
    then show ?thesis using that by (simp add: set_enabled_nth)
  qed
  have t: "features ?t = features s" "count ?t = count s" by simp_all
  have hit: "n \<in> on_set ?t \<longleftrightarrow> v \<noteq> 0 \<and> n \<in> set (registered s)"
    unfolding on t in_registered[OF assms] using nth by metis
  have other: "m \<in> on_set ?t \<longleftrightarrow> m \<in> on_set s" if "m \<noteq> n" for m
    unfolding on t using nth that by (metis option.inject)
  have sub: "n \<in> on_set s \<Longrightarrow> n \<in> set (registered s)"
    unfolding on in_registered[OF assms] by metis
  show ?thesis
  proof (rule set_eqI)
    fix m
    show "m \<in> on_set ?t \<longleftrightarrow> m \<in> (if v = 0 then on_set s - {n}
            else if n \<in> set (registered s) then insert n (on_set s) else on_set s)"
      using hit other[of m] sub by (cases "m = n") auto
  qed
qed

lemma fa_step_refines:
  assumes "arc_ready s"
  shows "\<exists>s'. fa_step x s = Inr s' \<and> arc_ready s' \<and> registered s' = registered s \<and>
           arc_start s' = arc_start s \<and> arc_end s' = arc_end s \<and>
           on_set s' = abs_step (registered s) x (on_set s)"
proof -
  from assms have wf: "fa_wf s" by (simp add: arc_ready_def)
  have regs: "registered (set_enabled v n s) = registered s" for v n
    by (simp add: registered_def)
  show ?thesis
  proof (cases x)
    case Rebuild
    from rebuild_ready[OF assms] show ?thesis
      unfolding Rebuild fa_step.simps abs_step.simps on_set_def registered_def by fastforce
  qed (use assms wf in \<open>simp_all add: feature_enable_def feature_disable_def
         on_set_set_enabled regs\<close>)
qed

lemma fa_run_refines:
  assumes "arc_ready s"
  shows "\<exists>s'. fa_run xs s = Inr s' \<and> arc_ready s' \<and> registered s' = registered s \<and>
           arc_start s' = arc_start s \<and> arc_end s' = arc_end s \<and>
           on_set s' = fold (abs_step (registered s)) xs (on_set s)"
  using assms
proof (induction xs arbitrary: s)
  case (Cons x xs)
  from fa_step_refines[OF Cons.prems, of x] obtain s1 where
    s1: "fa_step x s = Inr s1" "arc_ready s1" "registered s1 = registered s"
      "arc_start s1 = arc_start s" "arc_end s1 = arc_end s"
      "on_set s1 = abs_step (registered s) x (on_set s)" by blast
  from Cons.IH[OF s1(2)] show ?case using s1 by (simp add: sum_bind_def)
qed simp

text \<open>
  C2. Whatever sequence of enabling, disabling and rebuilding an arc that is ready goes
  through, the program faults nowhere, and a final rebuild leaves a chain that
  \<open>dump_pipeline\<close> walks in finitely many steps: the start node, then exactly the features
  that the abstract set of switched-on features holds, in registration order, then the end
  node.
\<close>

theorem feature_arc_chain:
  assumes "arc_ready s"
  shows "\<exists>s'. fa_run (xs @ [Rebuild]) s = Inr s' \<and>
           dump_pipeline s' = Some (the (arc_start s) #
             filter (\<lambda>n. n \<in> fold (abs_step (registered s)) xs (on_set s)) (registered s) @
             [the (arc_end s)])"
proof -
  from fa_run_refines[OF assms, of xs] obtain s1 where
    s1: "fa_run xs s = Inr s1" "arc_ready s1" "registered s1 = registered s"
      "arc_start s1 = arc_start s" "arc_end s1 = arc_end s"
      "on_set s1 = fold (abs_step (registered s)) xs (on_set s)" by blast
  have ef: "enabled_features s1 = filter (\<lambda>n. n \<in> on_set s1) (registered s1)"
    using s1(2) by (intro enabled_features_filter) (auto simp: arc_ready_def)
  have "fa_run (xs @ ys) s = sum_bind (fa_run xs s) (fa_run ys)" for ys
    by (induction xs arbitrary: s) (auto simp: sum_bind_def split: sum.splits)
  then show ?thesis
    using rebuild_ready[OF s1(2)] ef s1 by (auto simp: sum_bind_def)
qed

definition fa_demo :: fa_state where
  "fa_demo = (case fa_setup of Inr s \<Rightarrow> s | Inl _ \<Rightarrow> fa_init)"

lemma fa_demo_ready: "arc_ready fa_demo"
  by code_simp

theorem feature_arc_chain_witness:
  "arc_ready fa_demo \<and>
   (\<exists>s'. fa_run ([Enable ''QoS'', Enable ''Firewall'', Disable ''QoS'', Enable ''NAT''] @ [Rebuild])
           fa_demo = Inr s' \<and>
         dump_pipeline s' = Some [''L3'', ''Firewall'', ''NAT'', ''L4''])"
proof -
  have "registered fa_demo = [''Firewall'', ''NAT'', ''QoS'']" "on_set fa_demo = {}"
    "arc_start fa_demo = Some ''L3''" "arc_end fa_demo = Some ''L4''"
    by code_simp+
  then show ?thesis
    using feature_arc_chain[OF fa_demo_ready,
        of "[Enable ''QoS'', Enable ''Firewall'', Disable ''QoS'', Enable ''NAT'']"] fa_demo_ready
    by simp
qed

text \<open>
  The demonstration program prints the five pipelines its comments announce: nothing
  enabled, firewall only, firewall and NAT, QoS only, and all three in registration order.
\<close>

theorem fa_main_pipelines:
  "fa_main = Inr
     [Some [''L3'', ''L4''],
      Some [''L3'', ''Firewall'', ''L4''],
      Some [''L3'', ''Firewall'', ''NAT'', ''L4''],
      Some [''L3'', ''QoS'', ''L4''],
      Some [''L3'', ''Firewall'', ''NAT'', ''QoS'', ''L4'']]"
  by code_simp

end
