(* ===== verification/Headers.thy ===== *)
theory Headers
  imports Prelude
begin

text \<open>
  Packet memory and header layouts. The bytes of a packet buffer, from the start of its
  data on, are a function from offsets to bytes: the data room behind a buffer is longer
  than any header the programs read, so a read past the packet's length returns whatever
  the buffer holds there, it does not fault.

  The programs run on a little-endian host (x86-64): a multi-byte field is loaded and
  stored with the byte at the lowest address least significant. The conversions of
  \<open>rte_byteorder.h\<close> are not under src/; they are the argument \<open>bo\<close> of the definitions,
  with their documented behaviour on such a host as the locale \<open>byteorder_ok\<close>.
\<close>

type_synonym buffer = "nat \<Rightarrow> u8"

definition le16 :: "u8 \<Rightarrow> u8 \<Rightarrow> u16" where
  "le16 b0 b1 = ucast b0 OR push_bit 8 (ucast b1)"

definition le32 :: "u8 \<Rightarrow> u8 \<Rightarrow> u8 \<Rightarrow> u8 \<Rightarrow> u32" where
  "le32 b0 b1 b2 b3 =
     ucast b0 OR push_bit 8 (ucast b1) OR push_bit 16 (ucast b2) OR push_bit 24 (ucast b3)"

definition be16 :: "u8 \<Rightarrow> u8 \<Rightarrow> u16" where "be16 b0 b1 = le16 b1 b0"
definition be32 :: "u8 \<Rightarrow> u8 \<Rightarrow> u8 \<Rightarrow> u8 \<Rightarrow> u32" where "be32 b0 b1 b2 b3 = le32 b3 b2 b1 b0"

definition load16 :: "buffer \<Rightarrow> nat \<Rightarrow> u16" where
  "load16 b i = le16 (b i) (b (i + 1))"

definition load32 :: "buffer \<Rightarrow> nat \<Rightarrow> u32" where
  "load32 b i = le32 (b i) (b (i + 1)) (b (i + 2)) (b (i + 3))"

definition store8 :: "nat \<Rightarrow> u8 \<Rightarrow> buffer \<Rightarrow> buffer" where
  "store8 i v b = b(i := v)"

definition store16 :: "nat \<Rightarrow> u16 \<Rightarrow> buffer \<Rightarrow> buffer" where
  "store16 i v b = b(i := ucast v, i + 1 := ucast (drop_bit 8 v))"

definition store32 :: "nat \<Rightarrow> u32 \<Rightarrow> buffer \<Rightarrow> buffer" where
  "store32 i v b = b(i := ucast v, i + 1 := ucast (drop_bit 8 v),
     i + 2 := ucast (drop_bit 16 v), i + 3 := ucast (drop_bit 24 v))"

definition bswap16 :: "u16 \<Rightarrow> u16" where
  "bswap16 v = be16 (ucast v) (ucast (drop_bit 8 v))"

definition bswap32 :: "u32 \<Rightarrow> u32" where
  "bswap32 v = be32 (ucast v) (ucast (drop_bit 8 v)) (ucast (drop_bit 16 v)) (ucast (drop_bit 24 v))"

text \<open>A buffer that starts with given bytes, for concrete packets.\<close>

definition buffer_of :: "u8 list \<Rightarrow> buffer" where
  "buffer_of bs = (\<lambda>i. if i < length bs then bs ! i else 0)"

named_theorems bytes

lemma bit_u8_less: "bit (w :: u8) n \<Longrightarrow> n < 8"
  using bit_imp_le_length[of w n] by simp

lemma le16_split [bytes]: "le16 (ucast v) (ucast (drop_bit 8 v)) = v"
  by (rule bit_word_eqI) (auto simp: le16_def bit_simps)

lemma le32_split [bytes]:
  "le32 (ucast v) (ucast (drop_bit 8 v)) (ucast (drop_bit 16 v)) (ucast (drop_bit 24 v)) = v"
proof (rule bit_word_eqI)
  fix n
  assume "n < LENGTH(32)"
  then show "bit (le32 (ucast v) (ucast (drop_bit 8 v)) (ucast (drop_bit 16 v))
               (ucast (drop_bit 24 v))) n \<longleftrightarrow> bit v n"
    by (cases "n < 8"; cases "n < 16"; cases "n < 24"; auto simp: le32_def bit_simps)
qed

lemma le16_bytes [bytes]: "ucast (le16 a b) = a" "ucast (drop_bit 8 (le16 a b)) = b"
  by (rule bit_word_eqI; auto simp: le16_def bit_simps dest: bit_u8_less)+

lemma le32_bytes [bytes]:
  "ucast (le32 a b c d) = a" "ucast (drop_bit 8 (le32 a b c d)) = b"
  "ucast (drop_bit 16 (le32 a b c d)) = c" "ucast (drop_bit 24 (le32 a b c d)) = d"
  by (rule bit_word_eqI; auto simp: le32_def bit_simps dest: bit_u8_less)+

lemma le16_inject: "le16 a b = le16 c d \<longleftrightarrow> a = c \<and> b = d"
  by (metis le16_bytes)

lemma le32_inject: "le32 a b c d = le32 a' b' c' d' \<longleftrightarrow> a = a' \<and> b = b' \<and> c = c' \<and> d = d'"
  by (metis le32_bytes)

lemma bswap16_le [bytes]: "bswap16 (le16 a b) = be16 a b"
  by (simp add: bswap16_def bytes)

lemma bswap32_le [bytes]: "bswap32 (le32 a b c d) = be32 a b c d"
  by (simp add: bswap32_def bytes)

lemma bswap16_be [bytes]: "bswap16 (be16 a b) = le16 a b"
  by (simp add: be16_def bswap16_le)

lemma bswap32_be [bytes]: "bswap32 (be32 a b c d) = le32 a b c d"
  by (simp add: be32_def bswap32_le)

lemma bswap16_bswap16 [simp]: "bswap16 (bswap16 v) = v"
  by (metis bswap16_be bswap16_le le16_split)

lemma bswap32_bswap32 [simp]: "bswap32 (bswap32 v) = v"
  by (metis bswap32_be bswap32_le le32_split)

lemma load16_store16 [simp]: "load16 (store16 i v b) i = v"
  by (simp add: load16_def store16_def bytes)

lemma load32_store32 [simp]: "load32 (store32 i v b) i = v"
  by (simp add: load32_def store32_def bytes)

text \<open>A store outside the bytes a load reads does not change it.\<close>

lemma store16_nth: "store16 i v b j = (if j = i + 1 then ucast (drop_bit 8 v) else if j = i then ucast v else b j)"
  by (simp add: store16_def)

lemma store32_other: "j < i \<or> i + 4 \<le> j \<Longrightarrow> store32 i v b j = b j"
  by (auto simp: store32_def)

lemma store16_other: "j < i \<or> i + 2 \<le> j \<Longrightarrow> store16 i v b j = b j"
  by (auto simp: store16_def)

lemma store8_other: "j \<noteq> i \<Longrightarrow> store8 i v b j = b j"
  by (simp add: store8_def)

lemma store8_same [simp]: "store8 i v b i = v"
  by (simp add: store8_def)

lemma load16_cong: "b i = c i \<Longrightarrow> b (i + 1) = c (i + 1) \<Longrightarrow> load16 b i = load16 c i"
  by (simp add: load16_def)

lemma load32_cong: "(\<And>k. k < 4 \<Longrightarrow> b (i + k) = c (i + k)) \<Longrightarrow> load32 b i = load32 c i"
proof -
  assume eq: "\<And>k. k < 4 \<Longrightarrow> b (i + k) = c (i + k)"
  show ?thesis using eq[of 0] eq[of 1] eq[of 2] eq[of 3] by (simp add: load32_def)
qed

subsection \<open>The byte-order conversions the programs call\<close>

record byteorder =
  cpu_to_be_16 :: "u16 \<Rightarrow> u16"
  be_to_cpu_16 :: "u16 \<Rightarrow> u16"
  cpu_to_be_32 :: "u32 \<Rightarrow> u32"
  be_to_cpu_32 :: "u32 \<Rightarrow> u32"

text \<open>On a little-endian host each conversion reverses the bytes of its argument.\<close>

locale byteorder_ok =
  fixes bo :: byteorder
  assumes cpu_to_be_16: "cpu_to_be_16 bo v = bswap16 v"
    and be_to_cpu_16: "be_to_cpu_16 bo v = bswap16 v"
    and cpu_to_be_32: "cpu_to_be_32 bo x = bswap32 x"
    and be_to_cpu_32: "be_to_cpu_32 bo x = bswap32 x"
begin

lemma be_to_cpu_16_load [simp]: "be_to_cpu_16 bo (load16 b i) = be16 (b i) (b (i + 1))"
  by (simp add: be_to_cpu_16 load16_def bswap16_le)

lemma be_to_cpu_32_load [simp]:
  "be_to_cpu_32 bo (load32 b i) = be32 (b i) (b (i + 1)) (b (i + 2)) (b (i + 3))"
  by (simp add: be_to_cpu_32 load32_def bswap32_le)

lemma roundtrip_16 [simp]: "be_to_cpu_16 bo (cpu_to_be_16 bo v) = v"
  by (simp add: be_to_cpu_16 cpu_to_be_16)

lemma roundtrip_32 [simp]: "be_to_cpu_32 bo (cpu_to_be_32 bo x) = x"
  by (simp add: be_to_cpu_32 cpu_to_be_32)

lemma cpu_to_be_32_eq_iff [simp]: "cpu_to_be_32 bo x = cpu_to_be_32 bo y \<longleftrightarrow> x = y"
  by (metis roundtrip_32)

text \<open>Comparing a raw field with a converted constant compares the value on the wire.\<close>

lemma load16_eq_cpu_to_be: "load16 b i = cpu_to_be_16 bo v \<longleftrightarrow> be16 (b i) (b (i + 1)) = v"
  by (metis be_to_cpu_16_load roundtrip_16 bswap16_bswap16 cpu_to_be_16 be_to_cpu_16)

lemma load32_eq_cpu_to_be:
  "load32 b i = cpu_to_be_32 bo x \<longleftrightarrow> be32 (b i) (b (i + 1)) (b (i + 2)) (b (i + 3)) = x"
  by (metis be_to_cpu_32_load roundtrip_32 bswap32_bswap32 cpu_to_be_32 be_to_cpu_32)

end

text \<open>An implementation with the documented behaviour, for concrete runs.\<close>

definition le_host :: byteorder where
  "le_host = \<lparr>cpu_to_be_16 = bswap16, be_to_cpu_16 = bswap16,
              cpu_to_be_32 = bswap32, be_to_cpu_32 = bswap32\<rparr>"

interpretation le_host: byteorder_ok le_host
  by unfold_locales (simp_all add: le_host_def)

subsection \<open>Constants and offsets of the headers\<close>

definition RTE_ETHER_TYPE_IPV4 :: u16 where "RTE_ETHER_TYPE_IPV4 = 0x0800"
definition RTE_ETHER_TYPE_IPV6 :: u16 where "RTE_ETHER_TYPE_IPV6 = 0x86DD"
definition RTE_ETHER_TYPE_VLAN :: u16 where "RTE_ETHER_TYPE_VLAN = 0x8100"
definition IPPROTO_ICMP :: u8 where "IPPROTO_ICMP = 1"
definition IPPROTO_TCP :: u8 where "IPPROTO_TCP = 6"
definition IPPROTO_UDP :: u8 where "IPPROTO_UDP = 17"

lemmas ether_consts = RTE_ETHER_TYPE_IPV4_def RTE_ETHER_TYPE_IPV6_def RTE_ETHER_TYPE_VLAN_def
lemmas proto_consts = IPPROTO_ICMP_def IPPROTO_TCP_def IPPROTO_UDP_def

text \<open>
  Ethernet: destination 0..5, source 6..11, type 12..13, 14 bytes; VLAN tag: TCI 0..1,
  inner type 2..3, 4 bytes; IPv4: version and header length 0, total length 2..3,
  time-to-live 8, protocol 9, checksum 10..11, source 12..15, destination 16..19, 20 bytes;
  UDP: ports 0..1 and 2..3, length 4..5, checksum 6..7, 8 bytes; TCP: ports 0..1 and 2..3,
  sequence 4..7, acknowledgement 8..11, data offset 12, flags 13, 20 bytes; ICMP: type 0,
  code 1, 8 bytes; IPv6: next header 6, source 8..23, destination 24..39, 40 bytes.
\<close>

definition ETH_LEN :: nat where "ETH_LEN = 14"
definition VLAN_LEN :: nat where "VLAN_LEN = 4"
definition IPV4_LEN :: nat where "IPV4_LEN = 20"
definition IPV6_LEN :: nat where "IPV6_LEN = 40"
definition UDP_LEN :: nat where "UDP_LEN = 8"
definition TCP_LEN :: nat where "TCP_LEN = 20"
definition ICMP_LEN :: nat where "ICMP_LEN = 8"

lemmas header_lens = ETH_LEN_def VLAN_LEN_def IPV4_LEN_def IPV6_LEN_def UDP_LEN_def
  TCP_LEN_def ICMP_LEN_def

definition ether_type :: "buffer \<Rightarrow> u16" where "ether_type b = load16 b 12"

text \<open>\<open>RTE_IPV4(a,b,c,d)\<close> of the DPDK headers: the address as a host-order number.\<close>

definition ipv4_of :: "u8 \<Rightarrow> u8 \<Rightarrow> u8 \<Rightarrow> u8 \<Rightarrow> u32" where
  "ipv4_of a b c d = be32 a b c d"

text \<open>\<open>(version_ihl & 0x0F) * 4\<close>: the length of an IPv4 header in bytes.\<close>

definition ihl_bytes :: "u8 \<Rightarrow> nat" where
  "ihl_bytes v = unat (v AND 0x0F) * 4"

lemma ihl_bytes_le: "ihl_bytes v \<le> 60"
proof -
  have "v AND 0x0F \<le> 0x0F" by (rule word_and_le1)
  then show ?thesis by (simp add: ihl_bytes_def word_le_nat_alt)
qed

end
