(* ===== verification/Ethdev.thy ===== *)
theory Ethdev
  imports Headers
begin

text \<open>
  The state every packet program shares: the Ethernet device, the packet buffers (mbufs) by
  address, and a ledger of what became of them. The device is the DPDK driver, not under
  src/: \<open>rte_eth_rx_burst\<close> and \<open>rte_eth_tx_burst\<close> are the fields of the argument \<open>nd\<close>,
  over a device state the model does not look into, and what their documentation promises
  is the locale \<open>ethdev_ok\<close>.
\<close>

type_synonym mbuf = nat

record packet =
  bytes :: buffer
  data_len :: nat
  pkt_len :: nat

text \<open>
  Arguments: port, queue, then the burst size (receive) or the buffers offered (transmit).
  A transmit returns how many of the offered buffers the driver took, from the front.
\<close>

record 'n ethdev =
  rx_burst :: "nat \<Rightarrow> nat \<Rightarrow> nat \<Rightarrow> 'n \<Rightarrow> (mbuf \<times> packet) list \<times> 'n"
  tx_burst :: "nat \<Rightarrow> nat \<Rightarrow> (mbuf \<times> packet) list \<Rightarrow> 'n \<Rightarrow> nat \<times> 'n"

text \<open>
  \<open>got\<close>: the buffers received so far; \<open>sent\<close>: port, queue, buffer and contents of each
  transmission the driver accepted; \<open>freed\<close>: the buffers given to \<open>rte_pktmbuf_free\<close>.
\<close>

record 'n world =
  nic :: 'n
  mem :: "mbuf \<Rightarrow> packet"
  got :: "mbuf list"
  sent :: "(nat \<times> nat \<times> mbuf \<times> packet) list"
  freed :: "mbuf list"

definition eth_rx ::
    "'n ethdev \<Rightarrow> nat \<Rightarrow> nat \<Rightarrow> nat \<Rightarrow> ('n, 'z) world_scheme \<Rightarrow> mbuf list \<times> ('n, 'z) world_scheme" where
  "eth_rx nd port q n w =
     (case rx_burst nd port q n (nic w) of (ps, s) \<Rightarrow>
        (map fst ps,
         w\<lparr>nic := s, mem := fold (\<lambda>(m, p) f. f(m := p)) ps (mem w), got := got w @ map fst ps\<rparr>))"

definition eth_tx ::
    "'n ethdev \<Rightarrow> nat \<Rightarrow> nat \<Rightarrow> mbuf list \<Rightarrow> ('n, 'z) world_scheme \<Rightarrow> nat \<times> ('n, 'z) world_scheme" where
  "eth_tx nd port q ms w =
     (case tx_burst nd port q (map (\<lambda>m. (m, mem w m)) ms) (nic w) of (k, s) \<Rightarrow>
        (k, w\<lparr>nic := s, sent := sent w @ map (\<lambda>m. (port, q, m, mem w m)) (take k ms)\<rparr>))"

definition pktmbuf_free :: "mbuf \<Rightarrow> ('n, 'z) world_scheme \<Rightarrow> ('n, 'z) world_scheme" where
  "pktmbuf_free m w = w\<lparr>freed := freed w @ [m]\<rparr>"

definition free_all :: "mbuf list \<Rightarrow> ('n, 'z) world_scheme \<Rightarrow> ('n, 'z) world_scheme" where
  "free_all ms w = fold pktmbuf_free ms w"

text \<open>In-place rewriting of a buffer's bytes.\<close>

definition modify :: "mbuf \<Rightarrow> (buffer \<Rightarrow> buffer) \<Rightarrow> ('n, 'z) world_scheme \<Rightarrow> ('n, 'z) world_scheme" where
  "modify m f w = w\<lparr>mem := (mem w)(m := (mem w m)\<lparr>bytes := f (bytes (mem w m))\<rparr>)\<rparr>"

text \<open>What a receive stores is what it reads back, the addresses being distinct.\<close>

lemma stored_other: "x \<notin> set xs \<Longrightarrow> fold (\<lambda>(m, p) f. f(m := p)) (zip xs ys) g x = g x"
  by (induction xs arbitrary: ys g) (auto simp: zip_Cons1 split: list.split)

lemma stored_read:
  "distinct xs \<Longrightarrow> length xs = length ys \<Longrightarrow> map (fold (\<lambda>(m, p) f. f(m := p)) (zip xs ys) g) xs = ys"
proof (induction xs arbitrary: ys g)
  case (Cons x xs)
  then show ?case by (cases ys) (simp_all add: stored_other del: fun_upd_apply, simp)
qed simp

subsection \<open>The ledger\<close>

definition sent_bufs :: "('n, 'z) world_scheme \<Rightarrow> mbuf list" where
  "sent_bufs w = map (\<lambda>(p, q, m, c). m) (sent w)"

definition disposed :: "('n, 'z) world_scheme \<Rightarrow> mbuf multiset" where
  "disposed w = mset (sent_bufs w) + mset (freed w)"

text \<open>
  \<open>accounted\<close>: no buffer was transmitted or freed without having been received, or more
  often than it was received. \<open>balanced\<close>: moreover none is left behind.
\<close>

definition accounted :: "('n, 'z) world_scheme \<Rightarrow> bool" where
  "accounted w \<longleftrightarrow> disposed w \<subseteq># mset (got w)"

definition balanced :: "('n, 'z) world_scheme \<Rightarrow> bool" where
  "balanced w \<longleftrightarrow> disposed w = mset (got w)"

definition outstanding :: "('n, 'z) world_scheme \<Rightarrow> mbuf multiset" where
  "outstanding w = mset (got w) - disposed w"

lemma balanced_iff: "balanced w \<longleftrightarrow> accounted w \<and> outstanding w = {#}"
  by (auto simp: balanced_def accounted_def outstanding_def Diff_eq_empty_iff_mset
      intro: subset_mset.antisym)

lemma free_all_frame [frame]:
  "nic (free_all ms w) = nic w" "mem (free_all ms w) = mem w" "got (free_all ms w) = got w"
  "sent (free_all ms w) = sent w" "freed (free_all ms w) = freed w @ ms"
  by (induction ms arbitrary: w) (simp_all add: free_all_def pktmbuf_free_def)

lemma pktmbuf_free_frame [frame]:
  "nic (pktmbuf_free m w) = nic w" "mem (pktmbuf_free m w) = mem w" "got (pktmbuf_free m w) = got w"
  "sent (pktmbuf_free m w) = sent w" "freed (pktmbuf_free m w) = freed w @ [m]"
  by (simp_all add: pktmbuf_free_def)

lemma free_all_ledger [ledger]: "disposed (free_all ms w) = disposed w + mset ms"
  by (simp add: disposed_def sent_bufs_def frame)

lemma pktmbuf_free_ledger [ledger]: "disposed (pktmbuf_free m w) = add_mset m (disposed w)"
  by (simp add: disposed_def sent_bufs_def frame)

lemma eth_tx_frame [frame]:
  "got (snd (eth_tx nd p q ms w)) = got w" "mem (snd (eth_tx nd p q ms w)) = mem w"
  "freed (snd (eth_tx nd p q ms w)) = freed w"
  by (simp_all add: eth_tx_def split: prod.split)

lemma eth_tx_sent:
  "sent (snd (eth_tx nd p q ms w)) =
     sent w @ map (\<lambda>m. (p, q, m, mem w m)) (take (fst (eth_tx nd p q ms w)) ms)"
  by (simp add: eth_tx_def split: prod.split)

lemma eth_tx_ledger [ledger]:
  "disposed (snd (eth_tx nd p q ms w)) = disposed w + mset (take (fst (eth_tx nd p q ms w)) ms)"
  by (simp add: disposed_def sent_bufs_def eth_tx_sent frame comp_def)

lemma eth_rx_frame [frame]:
  "sent (snd (eth_rx nd p q n w)) = sent w" "freed (snd (eth_rx nd p q n w)) = freed w"
  "got (snd (eth_rx nd p q n w)) = got w @ fst (eth_rx nd p q n w)"
  by (simp_all add: eth_rx_def split: prod.split)

lemma eth_rx_ledger [ledger]: "disposed (snd (eth_rx nd p q n w)) = disposed w"
  by (simp add: disposed_def sent_bufs_def frame)

lemma modify_frame [frame]:
  "nic (modify m f w) = nic w" "got (modify m f w) = got w" "sent (modify m f w) = sent w"
  "freed (modify m f w) = freed w"
  by (simp_all add: modify_def)

lemma modify_ledger [ledger]: "disposed (modify m f w) = disposed w"
  by (simp add: disposed_def sent_bufs_def frame)

lemma fold_modify_frame [frame]:
  "nic (fold (\<lambda>m. modify m f) ms w) = nic w" "got (fold (\<lambda>m. modify m f) ms w) = got w"
  "sent (fold (\<lambda>m. modify m f) ms w) = sent w" "freed (fold (\<lambda>m. modify m f) ms w) = freed w"
  by (rule fold_frame, simp add: frame)+

lemma fold_modify_ledger [ledger]: "disposed (fold (\<lambda>m. modify m f) ms w) = disposed w"
  by (rule fold_frame) (simp add: ledger)

text \<open>Rewriting each buffer of a list without repetitions rewrites each exactly once.\<close>

lemma fold_modify_mem:
  assumes "distinct ms"
  shows "mem (fold (\<lambda>m. modify m f) ms w) m =
           (if m \<in> set ms then (mem w m)\<lparr>bytes := f (bytes (mem w m))\<rparr> else mem w m)"
  using assms by (induction ms arbitrary: w) (auto simp: modify_def)

subsection \<open>What the driver promises\<close>

text \<open>
  A receive returns at most the number of buffers asked for, each at an address of its own;
  a transmit takes at most what it was offered.
\<close>

locale ethdev_ok =
  fixes nd :: "'n ethdev"
  assumes rx_len: "length (fst (rx_burst nd p q n s)) \<le> n"
    and rx_distinct: "distinct (map fst (fst (rx_burst nd p q n s)))"
    and tx_len: "fst (tx_burst nd p q ms s) \<le> length ms"
begin

lemma eth_rx_length: "length (fst (eth_rx nd p q n w)) \<le> n"
  using rx_len[of p q n "nic w"] by (simp add: eth_rx_def case_prod_beta)

lemma eth_rx_distinct: "distinct (fst (eth_rx nd p q n w))"
  using rx_distinct[of p q n "nic w"] by (simp add: eth_rx_def case_prod_beta)

lemma eth_tx_le: "fst (eth_tx nd p q ms w) \<le> length ms"
  using tx_len[of p q "map (\<lambda>m. (m, mem w m)) ms" "nic w"]
  by (simp add: eth_tx_def case_prod_beta)

end

text \<open>
  A driver for concrete runs: it delivers scripted bursts at fresh addresses and takes at
  most a scripted number of buffers at each transmit (all of them when the script is over).
\<close>

record script =
  next_addr :: nat
  bursts :: "packet list list"
  tx_caps :: "nat list"

definition script_dev :: "script ethdev" where
  "script_dev =
     \<lparr>rx_burst = (\<lambda>port q n s. (case bursts s of [] \<Rightarrow> ([], s)
        | ps # pss \<Rightarrow> (let ps' = take n ps in
            (zip [next_addr s..<next_addr s + length ps'] ps',
             s\<lparr>next_addr := next_addr s + length ps', bursts := pss\<rparr>)))),
      tx_burst = (\<lambda>port q ms s. (case tx_caps s of [] \<Rightarrow> (length ms, s)
        | c # cs \<Rightarrow> (min c (length ms), s\<lparr>tx_caps := cs\<rparr>)))\<rparr>"

interpretation script_dev: ethdev_ok script_dev
  by unfold_locales (simp_all add: script_dev_def Let_def split: list.split)

text \<open>What the scripted driver does, for evaluating runs call by call.\<close>

named_theorems scripted

lemma script_rx [scripted]:
  "fst (eth_rx script_dev p q n w) = (case bursts (nic w) of [] \<Rightarrow> []
     | ps # pss \<Rightarrow> [next_addr (nic w)..<next_addr (nic w) + min (length ps) n])"
  "nic (snd (eth_rx script_dev p q n w)) = (case bursts (nic w) of [] \<Rightarrow> nic w
     | ps # pss \<Rightarrow> (nic w)\<lparr>next_addr := next_addr (nic w) + min (length ps) n, bursts := pss\<rparr>)"
  by (simp_all add: eth_rx_def script_dev_def Let_def split: list.split)

lemma script_tx [scripted]:
  "fst (eth_tx script_dev p q ms w) =
     (case tx_caps (nic w) of [] \<Rightarrow> length ms | c # cs \<Rightarrow> min c (length ms))"
  "nic (snd (eth_tx script_dev p q ms w)) =
     (case tx_caps (nic w) of [] \<Rightarrow> nic w | c # cs \<Rightarrow> (nic w)\<lparr>tx_caps := cs\<rparr>)"
  by (simp_all add: eth_tx_def script_dev_def split: list.split)

lemma upt_less [scripted]: "(i::nat) < j \<Longrightarrow> [i..<j] = i # [Suc i..<j]"
  by (rule upt_conv_Cons)

definition start_world :: "'n \<Rightarrow> 'n world" where
  "start_world s = \<lparr>nic = s, mem = (\<lambda>_. \<lparr>bytes = (\<lambda>_. 0), data_len = 0, pkt_len = 0\<rparr>),
     got = [], sent = [], freed = []\<rparr>"

lemma start_world_sel [simp]:
  "nic (start_world s) = s" "got (start_world s) = []" "sent (start_world s) = []"
  "freed (start_world s) = []"
  by (simp_all add: start_world_def)

lemma balanced_start [simp]: "balanced (start_world s)" "accounted (start_world s)"
  by (simp_all add: balanced_def accounted_def disposed_def sent_bufs_def start_world_def)

subsection \<open>Receive loops\<close>

text \<open>
  The body of a \<open>while (1)\<close> loop, as a function on states, and the buffers one pass of it
  leaves neither transmitted nor freed.
\<close>

locale packet_loop =
  fixes iter :: "('n, 'z) world_scheme \<Rightarrow> ('n, 'z) world_scheme"
    and lost :: "('n, 'z) world_scheme \<Rightarrow> mbuf multiset"
  assumes pass: "disposed (iter w) + lost w + mset (got w) = disposed w + mset (got (iter w))"
begin

lemma accounted_iter:
  assumes "accounted w"
  shows "accounted (iter w)" and "outstanding (iter w) = outstanding w + lost w"
proof -
  from assms obtain d where d: "mset (got w) = disposed w + d"
    by (auto simp: accounted_def subset_mset.le_iff_add)
  then have "disposed w + (disposed (iter w) + (d + lost w)) = disposed w + mset (got (iter w))"
    using pass[of w] by (simp add: ac_simps)
  then have "mset (got (iter w)) = disposed (iter w) + (d + lost w)" by simp
  then show "accounted (iter w)" "outstanding (iter w) = outstanding w + lost w"
    using d by (simp_all add: accounted_def outstanding_def)
qed

lemma accounted_run: "accounted w \<Longrightarrow> accounted ((iter ^^ k) w)"
  by (induction k) (auto intro: accounted_iter)

lemma outstanding_run:
  "accounted w \<Longrightarrow> outstanding ((iter ^^ k) w) = outstanding w + (\<Sum>i<k. lost ((iter ^^ i) w))"
  by (induction k) (auto simp: accounted_iter(2) accounted_run)

end

text \<open>A loop that loses nothing, whatever the driver does.\<close>

locale leak_free_loop = packet_loop iter "\<lambda>_. {#}"
  for iter :: "('n, 'z) world_scheme \<Rightarrow> ('n, 'z) world_scheme"
begin

lemma balanced_run: "balanced w \<Longrightarrow> balanced ((iter ^^ k) w)"
  by (simp add: balanced_iff accounted_run outstanding_run)

end

text \<open>A per-packet handler that disposes of exactly the buffer it is given.\<close>

locale consuming_handler =
  fixes h :: "mbuf \<Rightarrow> ('n, 'z) world_scheme \<Rightarrow> ('n, 'z) world_scheme"
  assumes consumes: "disposed (h m w) = add_mset m (disposed w)"
    and got_h: "got (h m w) = got w"
begin

lemma consumes_all: "disposed (fold h ms w) = disposed w + mset ms"
  by (induction ms arbitrary: w) (simp_all add: consumes)

lemma got_all: "got (fold h ms w) = got w"
  by (rule fold_frame) (rule got_h)

end

end
