(* ===== verification/EchoApps.thy ===== *)
theory EchoApps
  imports Ethdev
begin

text \<open>
  The receive loops that send packets back or drop them: \<open>ports/begin/dpdk_tun_echo.c\<close>,
  \<open>ports/packet_parsing/rx_tx.c\<close>, \<open>ports/port_mempool/rx_tx.c\<close>,
  \<open>tranmit_packet/swap_addr/main.c\<close>, \<open>inter_process_comm/virtu_vhost_ipc/backend.c\<close>,
  \<open>meter_dpdk/main.c\<close>, the two \<open>rss_dpdk\<close> programs and \<open>rxtx_callbacks/sample/simple.c\<close>.
  Each definition is one pass of the program's \<open>while (1)\<close>. Console output is left out.
\<close>

definition BURST_SIZE :: nat where "BURST_SIZE = 32"

text \<open>
  The idiom of the echo programs: offer a burst to the driver and free what it did not take
  (\<open>for (i = nb_tx; i < nb_rx; i++) rte_pktmbuf_free(bufs[i])\<close>).
\<close>

definition tx_or_free :: "'n ethdev \<Rightarrow> nat \<Rightarrow> nat \<Rightarrow> mbuf list \<Rightarrow> ('n, 'z) world_scheme \<Rightarrow> ('n, 'z) world_scheme" where
  "tx_or_free nd port q ms w =
     (case eth_tx nd port q ms w of (k, w') \<Rightarrow>
        if k < length ms then free_all (drop k ms) w' else w')"

lemma tx_or_free_ledger [ledger]: "disposed (tx_or_free nd p q ms w) = disposed w + mset ms"
proof -
  let ?k = "fst (eth_tx nd p q ms w)"
  have "disposed (tx_or_free nd p q ms w) =
      disposed w + mset (take ?k ms) + (if ?k < length ms then mset (drop ?k ms) else {#})"
    by (simp add: tx_or_free_def case_prod_beta ledger)
  then show ?thesis
    by (cases "?k < length ms") (simp_all add: union_assoc)
qed

lemma tx_or_free_frame [frame]:
  "got (tx_or_free nd p q ms w) = got w" "mem (tx_or_free nd p q ms w) = mem w"
  by (simp_all add: tx_or_free_def case_prod_beta frame)

subsection \<open>Echo\<close>

definition tun_echo_pass :: "'n ethdev \<Rightarrow> ('n, 'z) world_scheme \<Rightarrow> ('n, 'z) world_scheme" where
  "tun_echo_pass nd w =
     (case eth_rx nd 0 0 BURST_SIZE w of (bufs, w) \<Rightarrow>
        if bufs = [] then w else tx_or_free nd 0 0 bufs w)"

definition run_rx_tx_pass :: "'n ethdev \<Rightarrow> nat \<Rightarrow> ('n, 'z) world_scheme \<Rightarrow> ('n, 'z) world_scheme" where
  "run_rx_tx_pass nd port_id w =
     (case eth_rx nd port_id 0 BURST_SIZE w of (bufs, w) \<Rightarrow>
        if bufs = [] then w else tx_or_free nd port_id 0 bufs w)"

text \<open>The loop of \<open>port_mempool\<close> differs from it in what it prints only.\<close>

definition mempool_rx_tx_pass :: "'n ethdev \<Rightarrow> nat \<Rightarrow> ('n, 'z) world_scheme \<Rightarrow> ('n, 'z) world_scheme" where
  "mempool_rx_tx_pass nd port_id w =
     (case eth_rx nd port_id 0 BURST_SIZE w of (bufs, w) \<Rightarrow>
        if bufs = [] then w else tx_or_free nd port_id 0 bufs w)"

text \<open>The vhost backend echoes without looking at how many buffers the driver took.\<close>

definition vhost_backend_pass :: "'n ethdev \<Rightarrow> ('n, 'z) world_scheme \<Rightarrow> ('n, 'z) world_scheme" where
  "vhost_backend_pass nd w =
     (case eth_rx nd 0 0 32 w of (pkts, w) \<Rightarrow>
        if pkts \<noteq> [] then snd (eth_tx nd 0 0 pkts w) else w)"

definition vhost_lost :: "'n ethdev \<Rightarrow> ('n, 'z) world_scheme \<Rightarrow> mbuf multiset" where
  "vhost_lost nd w =
     (case eth_rx nd 0 0 32 w of (pkts, w) \<Rightarrow>
        if pkts \<noteq> [] then mset (drop (fst (eth_tx nd 0 0 pkts w)) pkts) else {#})"

interpretation tun_echo: leak_free_loop "tun_echo_pass nd"
  by unfold_locales (simp add: tun_echo_pass_def case_prod_beta ledger frame ac_simps)

interpretation rx_tx: leak_free_loop "run_rx_tx_pass nd port"
  by unfold_locales (simp add: run_rx_tx_pass_def case_prod_beta ledger frame ac_simps)

interpretation mempool_rx_tx: leak_free_loop "mempool_rx_tx_pass nd port"
  by unfold_locales (simp add: mempool_rx_tx_pass_def case_prod_beta ledger frame ac_simps)

interpretation vhost: packet_loop "vhost_backend_pass nd" "vhost_lost nd"
  by unfold_locales
    (simp add: vhost_backend_pass_def vhost_lost_def case_prod_beta ledger frame)

subsection \<open>Drop\<close>

definition meter_rx_pass :: "'n ethdev \<Rightarrow> ('n, 'z) world_scheme \<Rightarrow> ('n, 'z) world_scheme" where
  "meter_rx_pass nd w =
     (case eth_rx nd 0 0 BURST_SIZE w of (bufs, w) \<Rightarrow>
        if bufs = [] then w else free_all bufs w)"

definition rss_lcore_rx_pass :: "'n ethdev \<Rightarrow> nat \<Rightarrow> ('n, 'z) world_scheme \<Rightarrow> ('n, 'z) world_scheme" where
  "rss_lcore_rx_pass nd queue_id w =
     (case eth_rx nd 0 queue_id BURST_SIZE w of (bufs, w) \<Rightarrow>
        if bufs = [] then w else free_all bufs w)"

definition af_lcore_rx_pass :: "'n ethdev \<Rightarrow> nat \<Rightarrow> ('n, 'z) world_scheme \<Rightarrow> ('n, 'z) world_scheme" where
  "af_lcore_rx_pass nd queue_id w =
     (case eth_rx nd 0 queue_id BURST_SIZE w of (bufs, w) \<Rightarrow>
        if bufs = [] then w else free_all bufs w)"

interpretation meter_rx: leak_free_loop "meter_rx_pass nd"
  by unfold_locales (simp add: meter_rx_pass_def case_prod_beta ledger frame ac_simps)

interpretation rss_rx: leak_free_loop "rss_lcore_rx_pass nd q"
  by unfold_locales (simp add: rss_lcore_rx_pass_def case_prod_beta ledger frame ac_simps)

interpretation af_rx: leak_free_loop "af_lcore_rx_pass nd q"
  by unfold_locales (simp add: af_lcore_rx_pass_def case_prod_beta ledger frame ac_simps)

subsection \<open>Counting in a receive callback\<close>

text \<open>
  \<open>rxtx_callbacks\<close> installs a callback that the driver calls on every burst it returns,
  with the counter as user data. The 64-bit counter lives beside the device state.
\<close>

record 'n cb_world = "'n world" +
  rx_count :: u64

definition my_rx_callback :: "mbuf list \<Rightarrow> u64 \<Rightarrow> nat \<times> u64" where
  "my_rx_callback pkts counter = (length pkts, counter + of_nat (length pkts))"

definition callback_pass :: "'n ethdev \<Rightarrow> 'n cb_world \<Rightarrow> 'n cb_world" where
  "callback_pass nd w =
     (case eth_rx nd 0 0 32 w of (pkts, w) \<Rightarrow>
        case my_rx_callback pkts (rx_count w) of (nb, c) \<Rightarrow>
          if 0 < nb then free_all (take nb pkts) (w\<lparr>rx_count := c\<rparr>) else w\<lparr>rx_count := c\<rparr>)"

lemma rx_count_frame [frame]:
  "rx_count (free_all ms w) = rx_count w" "rx_count (snd (eth_rx nd p q n w)) = rx_count w"
  "got (w\<lparr>rx_count := c\<rparr>) = got w" "disposed (w\<lparr>rx_count := c\<rparr>) = disposed w"
  unfolding free_all_def
  by (rule fold_frame) (simp_all add: pktmbuf_free_def eth_rx_def case_prod_beta disposed_def sent_bufs_def)

interpretation callback: leak_free_loop "callback_pass nd"
  by unfold_locales
    (simp add: callback_pass_def my_rx_callback_def case_prod_beta ledger frame ac_simps)

lemma callback_pass_count:
  assumes "rx_count w = of_nat (length (got w))"
  shows "rx_count (callback_pass nd w) = of_nat (length (got (callback_pass nd w)))"
  using assms by (simp add: callback_pass_def my_rx_callback_def case_prod_beta frame)

text \<open>
  After any number of passes of the callback program, whatever the driver delivers, the
  counter the callback keeps is the number of packets received, modulo the 64-bit
  wrap-around, and every received packet has been freed exactly once.
\<close>

theorem callback_counts_and_frees:
  assumes "balanced w" and "rx_count w = of_nat (length (got w))"
  shows "rx_count ((callback_pass nd ^^ k) w) = of_nat (length (got ((callback_pass nd ^^ k) w))) \<and>
         balanced ((callback_pass nd ^^ k) w)"
proof
  show "rx_count ((callback_pass nd ^^ k) w) = of_nat (length (got ((callback_pass nd ^^ k) w)))"
    using assms(2) by (induction k) (auto intro: callback_pass_count)
  show "balanced ((callback_pass nd ^^ k) w)"
    using assms(1) by (rule callback.balanced_run)
qed

definition demo_packet :: packet where
  "demo_packet = \<lparr>bytes = (\<lambda>i. of_nat i), data_len = 60, pkt_len = 60\<rparr>"

definition demo_script :: script where
  "demo_script = \<lparr>next_addr = 100, bursts = [[demo_packet, demo_packet], [], [demo_packet]],
     tx_caps = [1]\<rparr>"

definition demo_cb_world :: "script cb_world" where
  "demo_cb_world = world.extend (start_world demo_script) \<lparr>rx_count = 0\<rparr>"

theorem callback_counts_and_frees_witness:
  "balanced demo_cb_world \<and> rx_count demo_cb_world = of_nat (length (got demo_cb_world)) \<and>
   rx_count ((callback_pass script_dev ^^ 3) demo_cb_world) = 3 \<and>
   balanced ((callback_pass script_dev ^^ 3) demo_cb_world)"
proof -
  have b: "balanced demo_cb_world" and c: "rx_count demo_cb_world = of_nat (length (got demo_cb_world))"
    by (simp_all add: demo_cb_world_def start_world_def world.defs balanced_def disposed_def sent_bufs_def)
  have "length (got ((callback_pass script_dev ^^ 3) demo_cb_world)) = 3"
    by (simp add: numeral_3_eq_3 callback_pass_def my_rx_callback_def eth_rx_def
        demo_cb_world_def start_world_def world.defs demo_script_def script_dev_def frame)
  then show ?thesis
    using callback_counts_and_frees[OF b c, where nd = script_dev and k = 3] b c by simp
qed

subsection \<open>Swapping addresses\<close>

text \<open>
  The three copies of \<open>swap_addr\<close>: source to a temporary, destination to source, temporary
  to destination; bytes 0..5 are the destination, 6..11 the source address.
\<close>

definition swap_macs :: "buffer \<Rightarrow> buffer" where
  "swap_macs b =
     (let temp = map (\<lambda>k. b (6 + k)) [0..<6];
          b1 = fold (\<lambda>k c. store8 (6 + k) (b k) c) [0..<6] b
      in fold (\<lambda>k c. store8 k (temp ! k) c) [0..<6] b1)"

definition swap_handler :: "'n ethdev \<Rightarrow> mbuf \<Rightarrow> ('n, 'z) world_scheme \<Rightarrow> ('n, 'z) world_scheme" where
  "swap_handler nd m w =
     (case eth_tx nd 0 0 [m] (modify m swap_macs w) of (nb_tx, w) \<Rightarrow>
        if nb_tx = 0 then pktmbuf_free m w else w)"

definition swap_addr_pass :: "'n ethdev \<Rightarrow> ('n, 'z) world_scheme \<Rightarrow> ('n, 'z) world_scheme" where
  "swap_addr_pass nd w =
     (case eth_rx nd 0 0 BURST_SIZE w of (bufs, w) \<Rightarrow>
        if bufs = [] then w else fold (swap_handler nd) bufs w)"

lemma upt6: "[0..<6] = [0, 1, 2, 3, 4, 5::nat]"
  by (simp add: upt_rec)

lemma swap_macs_nth:
  "swap_macs b i = (if i < 6 then b (i + 6) else if i < 12 then b (i - 6) else b i)"
proof -
  have "i = 0 \<or> i = 1 \<or> i = 2 \<or> i = 3 \<or> i = 4 \<or> i = 5 \<or> i = 6 \<or> i = 7 \<or> i = 8 \<or>
        i = 9 \<or> i = 10 \<or> i = 11 \<or> 12 \<le> i" by arith
  then show ?thesis
    by (elim disjE) (simp_all add: swap_macs_def store8_def Let_def upt6)
qed

lemma swap_macs_involutive: "swap_macs (swap_macs b) = b"
  by (rule ext) (auto simp: swap_macs_nth)

interpretation swap: consuming_handler "swap_handler nd"
proof unfold_locales
  fix m w
  show "disposed (swap_handler nd m w) = add_mset m (disposed w)"
    by (cases "fst (eth_tx nd 0 0 [m] (modify m swap_macs w))")
      (simp_all add: swap_handler_def case_prod_beta ledger)
  show "got (swap_handler nd m w) = got w"
    by (simp add: swap_handler_def case_prod_beta frame)
qed

interpretation swap_addr: leak_free_loop "swap_addr_pass nd"
  by unfold_locales
    (simp add: swap_addr_pass_def case_prod_beta ledger frame ac_simps swap.consumes_all swap.got_all)

abbreviation swapped :: "packet \<Rightarrow> packet" where
  "swapped p \<equiv> p\<lparr>bytes := swap_macs (bytes p)\<rparr>"

lemma swap_handler_mem:
  "mem (swap_handler nd m w) = (mem w)(m := swapped (mem w m))"
  by (simp add: swap_handler_def case_prod_beta frame modify_def)

lemma swap_handler_outcome:
  "(sent (swap_handler nd m w) = sent w @ [(0, 0, m, swapped (mem w m))] \<and>
      freed (swap_handler nd m w) = freed w) \<or>
   (sent (swap_handler nd m w) = sent w \<and> freed (swap_handler nd m w) = freed w @ [m])"
  by (cases "fst (eth_tx nd 0 0 [m] (modify m swap_macs w))")
    (simp_all add: swap_handler_def case_prod_beta frame eth_tx_sent, simp add: modify_def)

lemma swap_fold_outcome:
  assumes "distinct ms"
  shows "\<exists>P. sent (fold (swap_handler nd) ms w) =
             sent w @ map (\<lambda>m. (0, 0, m, swapped (mem w m))) (filter P ms) \<and>
           freed (fold (swap_handler nd) ms w) = freed w @ filter (\<lambda>m. \<not> P m) ms"
  using assms
proof (induction ms arbitrary: w)
  case (Cons m ms)
  let ?w = "swap_handler nd m w"
  from Cons obtain P where P:
    "sent (fold (swap_handler nd) ms ?w) =
       sent ?w @ map (\<lambda>m. (0, 0, m, swapped (mem ?w m))) (filter P ms)"
    "freed (fold (swap_handler nd) ms ?w) = freed ?w @ filter (\<lambda>m. \<not> P m) ms" by auto
  have same: "map (\<lambda>m. (0, 0, m, swapped (mem ?w m))) (filter P ms) =
      map (\<lambda>m. (0, 0, m, swapped (mem w m))) (filter P ms)"
    using Cons.prems by (intro map_cong) (auto simp: swap_handler_mem)
  have keep: "filter (P(m := b)) ms = filter P ms"
    "filter (\<lambda>x. \<not> (P(m := b)) x) ms = filter (\<lambda>x. \<not> P x) ms" for b
    using Cons.prems by (auto intro!: filter_cong split: if_splits)
  from swap_handler_outcome[of nd m w] show ?case
  proof
    assume "sent ?w = sent w @ [(0, 0, m, swapped (mem w m))] \<and> freed ?w = freed w"
    then show ?thesis
      by (intro exI[of _ "P(m := True)"])
        (simp only: fold.simps comp_apply P same filter.simps keep fun_upd_same, simp)
  next
    assume "sent ?w = sent w \<and> freed ?w = freed w @ [m]"
    then show ?thesis
      by (intro exI[of _ "P(m := False)"])
        (simp only: fold.simps comp_apply P same filter.simps keep fun_upd_same, simp)
  qed
qed simp

text \<open>
  C24. One pass of \<open>swap_addr\<close>, over any driver that keeps its documented promises: every
  received packet is either transmitted once on port 0, in the order received, with exactly
  its source and destination addresses exchanged, or freed; nothing else is sent or freed.
\<close>

theorem swap_addr_pass_outcome:
  assumes "ethdev_ok nd"
  shows "\<exists>P. let (bufs, w1) = eth_rx nd 0 0 BURST_SIZE w in
           sent (swap_addr_pass nd w) =
             sent w @ map (\<lambda>m. (0, 0, m, (mem w1 m)\<lparr>bytes := \<lambda>i.
                 if i < 6 then bytes (mem w1 m) (i + 6)
                 else if i < 12 then bytes (mem w1 m) (i - 6) else bytes (mem w1 m) i\<rparr>))
               (filter P bufs) \<and>
           freed (swap_addr_pass nd w) = freed w @ filter (\<lambda>m. \<not> P m) bufs"
proof -
  let ?r = "eth_rx nd 0 0 BURST_SIZE w"
  have "swap_macs b = (\<lambda>i. if i < 6 then b (i + 6) else if i < 12 then b (i - 6) else b i)" for b
    by (rule ext) (rule swap_macs_nth)
  then show ?thesis
    using swap_fold_outcome[OF ethdev_ok.eth_rx_distinct[OF assms], of nd 0 0 BURST_SIZE w "snd ?r"]
    by (cases "fst ?r = []") (simp_all add: swap_addr_pass_def case_prod_beta frame)
qed

theorem swap_addr_pass_outcome_witness:
  "ethdev_ok script_dev \<and>
   fst (eth_rx script_dev 0 0 BURST_SIZE (start_world demo_script)) = [100, 101] \<and>
   (\<exists>P. let (bufs, w1) = eth_rx script_dev 0 0 BURST_SIZE (start_world demo_script) in
      sent (swap_addr_pass script_dev (start_world demo_script)) =
        sent (start_world demo_script) @ map (\<lambda>m. (0, 0, m, (mem w1 m)\<lparr>bytes := \<lambda>i.
            if i < 6 then bytes (mem w1 m) (i + 6)
            else if i < 12 then bytes (mem w1 m) (i - 6) else bytes (mem w1 m) i\<rparr>))
          (filter P bufs) \<and>
      freed (swap_addr_pass script_dev (start_world demo_script)) =
        freed (start_world demo_script) @ filter (\<lambda>m. \<not> P m) bufs)"
proof (intro conjI)
  show ok: "ethdev_ok script_dev" by (rule script_dev.ethdev_ok_axioms)
  show "fst (eth_rx script_dev 0 0 BURST_SIZE (start_world demo_script)) = [100, 101]"
    by (simp add: scripted demo_script_def BURST_SIZE_def)
qed (rule swap_addr_pass_outcome[OF script_dev.ethdev_ok_axioms])

text \<open>
  The echo loops that free what the driver does not take, and the loops that free
  every packet, neither leak nor free twice: started with a balanced ledger, each has
  transmitted or freed every received packet exactly once after any number of passes,
  however many packets the driver delivers and accepts.
\<close>

theorem echo_and_drop_loops_balanced:
  assumes "balanced w"
  shows "balanced ((tun_echo_pass nd ^^ k) w) \<and>
         balanced ((run_rx_tx_pass nd port ^^ k) w) \<and>
         balanced ((mempool_rx_tx_pass nd port ^^ k) w) \<and>
         balanced ((swap_addr_pass nd ^^ k) w) \<and>
         balanced ((meter_rx_pass nd ^^ k) w) \<and>
         balanced ((rss_lcore_rx_pass nd q ^^ k) w) \<and>
         balanced ((af_lcore_rx_pass nd q ^^ k) w)"
  using assms
  by (simp add: tun_echo.balanced_run rx_tx.balanced_run mempool_rx_tx.balanced_run
      swap_addr.balanced_run meter_rx.balanced_run rss_rx.balanced_run af_rx.balanced_run)

theorem echo_and_drop_loops_balanced_witness:
  "balanced (start_world demo_script) \<and>
   got ((tun_echo_pass script_dev ^^ 3) (start_world demo_script)) = [100, 101, 102] \<and>
   balanced ((tun_echo_pass script_dev ^^ 3) (start_world demo_script))"
proof -
  have "got ((tun_echo_pass script_dev ^^ 3) (start_world demo_script)) = [100, 101, 102]"
    by (simp add: numeral_3_eq_3 tun_echo_pass_def tx_or_free_def case_prod_beta scripted
        demo_script_def BURST_SIZE_def frame)
  then show ?thesis
    using echo_and_drop_loops_balanced[OF balanced_start(1), where k = 3 and nd = script_dev] by simp
qed

text \<open>
  The vhost backend never transmits a buffer it did not receive, or twice, but it drops
  on the floor exactly the part of each burst that the driver did not take: after \<open>k\<close>
  passes those buffers, and no others, are outstanding.
\<close>

theorem vhost_backend_leaks_unsent:
  assumes "accounted w"
  shows "accounted ((vhost_backend_pass nd ^^ k) w) \<and>
         outstanding ((vhost_backend_pass nd ^^ k) w) =
           outstanding w + (\<Sum>i<k. vhost_lost nd ((vhost_backend_pass nd ^^ i) w))"
  using assms vhost.accounted_run vhost.outstanding_run by blast

theorem vhost_backend_leaks_unsent_witness:
  "accounted (start_world demo_script) \<and>
   outstanding ((vhost_backend_pass script_dev ^^ 1) (start_world demo_script)) = {#101#}"
proof -
  have "vhost_lost script_dev (start_world demo_script) = {#101#}"
    by (simp add: vhost_lost_def case_prod_beta scripted demo_script_def)
  moreover have "outstanding (start_world demo_script) = {#}"
    using balanced_iff balanced_start(1) by metis
  ultimately show ?thesis
    using vhost_backend_leaks_unsent[OF balanced_start(2), where k = 1 and nd = script_dev] by simp
qed

end
