(* ===== verification/StaticNat.thy ===== *)
theory StaticNat
  imports Ethdev
begin

text \<open>
  The static NAT of \<open>NAT/static_nat/main.c\<close>: the rewriting of one packet
  (\<open>simulate_nat\<close>) and the polling loop around it. \<open>rte_ipv4_cksum\<close> is not under src/; it
  is the argument \<open>cksum\<close>, from the bytes of a header to the value to store in its checksum
  field, and its documented contract is the locale \<open>ipv4_cksum_ok\<close>.
\<close>

definition PRIVATE_IP :: u32 where "PRIVATE_IP = ipv4_of 172 22 116 70"
definition PUBLIC_IP :: u32 where "PUBLIC_IP = ipv4_of 203 0 113 10"

subsection \<open>Header checksums\<close>

text \<open>
  The 16-bit words of an IPv4 header, as many as its length field says, added up. A header
  is valid when the one's complement sum of all its words is \<open>0xFFFF\<close>, that is when the sum
  is a positive multiple of 65535.
\<close>

definition hdr_sum :: "buffer \<Rightarrow> nat" where
  "hdr_sum h = (\<Sum>i<ihl_bytes (h 0) div 2. unat (load16 h (2 * i)))"

definition hdr_valid :: "buffer \<Rightarrow> bool" where
  "hdr_valid h \<longleftrightarrow> hdr_sum h mod 65535 = 0 \<and> 0 < hdr_sum h"

text \<open>
  What the library promises: stored into a header of at least the minimal length whose
  checksum field is 0, its result makes the header valid; it reads the header only.
\<close>

locale ipv4_cksum_ok =
  fixes cksum :: "buffer \<Rightarrow> u16"
  assumes cksum_valid: "20 \<le> ihl_bytes (h 0) \<Longrightarrow> load16 h 10 = 0 \<Longrightarrow> hdr_valid (store16 10 (cksum h) h)"

text \<open>A checksum function with that contract.\<close>

definition ref_cksum :: "buffer \<Rightarrow> u16" where
  "ref_cksum h = of_nat (65535 - hdr_sum h mod 65535)"

lemma hdr_sum_store_cksum:
  assumes "20 \<le> ihl_bytes (h 0)" and "load16 h 10 = 0"
  shows "hdr_sum (store16 10 v h) = hdr_sum h + unat v"
proof -
  let ?n = "ihl_bytes (h 0) div 2"
  have h0: "store16 10 v h 0 = h 0" by (simp add: store16_def)
  have "load16 (store16 10 v h) (2 * i) = (if i = 5 then v else load16 h (2 * i))" for i
  proof (cases "i = 5")
    case False
    then have "2 * i < 10 \<and> 2 * i + 1 < 10 \<or> 12 \<le> 2 * i" by arith
    then have "store16 10 v h (2 * i) = h (2 * i)" "store16 10 v h (2 * i + 1) = h (2 * i + 1)"
      by (auto intro: store16_other)
    with False show ?thesis by (simp add: load16_def)
  qed simp
  then have "hdr_sum (store16 10 v h) =
      (\<Sum>i<?n. (if i = 5 then unat v else unat (load16 h (2 * i))))"
    unfolding hdr_sum_def h0 by (intro sum.cong) auto
  also have "\<dots> = unat v + (\<Sum>i\<in>{..<?n} - {5}. unat (load16 h (2 * i)))"
    using assms(1) by (subst sum.remove[of _ 5]) (auto intro: sum.cong)
  also have "(\<Sum>i\<in>{..<?n} - {5}. unat (load16 h (2 * i))) = hdr_sum h"
    unfolding hdr_sum_def using assms by (subst (2) sum.remove[of _ 5]) auto
  finally show ?thesis by simp
qed

interpretation ref_cksum: ipv4_cksum_ok ref_cksum
proof unfold_locales
  fix h :: buffer
  assume "20 \<le> ihl_bytes (h 0)" and "load16 h 10 = 0"
  then have eq: "hdr_sum (store16 10 (ref_cksum h) h) = hdr_sum h + unat (ref_cksum h)"
    by (rule hdr_sum_store_cksum)
  have "unat (ref_cksum h) = 65535 - hdr_sum h mod 65535"
    unfolding ref_cksum_def unat_of_nat by (rule mod_less) simp
  moreover have "hdr_sum h mod 65535 < 65535" by simp
  moreover have "(hdr_sum h + (65535 - hdr_sum h mod 65535)) mod 65535 = 0"
    by (metis add.commute le_add_diff_inverse2 mod_add_left_eq mod_less_divisor mod_self
        nat_less_le zero_less_numeral)
  ultimately show "hdr_valid (store16 10 (ref_cksum h) h)"
    unfolding hdr_valid_def eq by auto
qed

subsection \<open>One packet\<close>

text \<open>
  \<open>simulate_nat\<close>: the header fields are read and written in place in network byte order,
  as the code does; the outbound rewriting comes first and the inbound test reads the
  packet after it.
\<close>

definition simulate_nat :: "byteorder \<Rightarrow> (buffer \<Rightarrow> u16) \<Rightarrow> buffer \<Rightarrow> buffer" where
  "simulate_nat bo cksum b =
     (if ether_type b \<noteq> cpu_to_be_16 bo RTE_ETHER_TYPE_IPV4 then b
      else
        let ip_hdr = ETH_LEN;
            b1 = (if load32 b (ip_hdr + 12) = cpu_to_be_32 bo PRIVATE_IP
                  then store32 (ip_hdr + 12) (cpu_to_be_32 bo PUBLIC_IP) b else b);
            b2 = (if load32 b1 (ip_hdr + 16) = cpu_to_be_32 bo PUBLIC_IP
                  then store32 (ip_hdr + 16) (cpu_to_be_32 bo PRIVATE_IP) b1 else b1);
            b3 = store16 (ip_hdr + 10) 0 b2
        in store16 (ip_hdr + 10) (cksum (\<lambda>i. b3 (ip_hdr + i))) b3)"

text \<open>The addresses of the IPv4 header behind an Ethernet header, as numbers.\<close>

definition ip_src :: "buffer \<Rightarrow> u32" where "ip_src b = be32 (b 26) (b 27) (b 28) (b 29)"
definition ip_dst :: "buffer \<Rightarrow> u32" where "ip_dst b = be32 (b 30) (b 31) (b 32) (b 33)"
definition is_ipv4 :: "buffer \<Rightarrow> bool" where "is_ipv4 b \<longleftrightarrow> be16 (b 12) (b 13) = RTE_ETHER_TYPE_IPV4"
definition ip_part :: "buffer \<Rightarrow> buffer" where "ip_part b = (\<lambda>i. b (14 + i))"

lemma store16_shift: "(\<lambda>i. store16 (k + j) v b (k + i)) = store16 j v (\<lambda>i. b (k + i))"
  by (rule ext) (simp add: store16_def)

lemma load_store32_disjoint: "i + 4 \<le> j \<or> j + 4 \<le> i \<Longrightarrow> load32 (store32 j v b) i = load32 b i"
  by (rule load32_cong) (auto intro!: store32_other)

lemma load32_store16_disjoint: "i + 4 \<le> j \<or> j + 2 \<le> i \<Longrightarrow> load32 (store16 j v b) i = load32 b i"
  by (rule load32_cong) (auto intro!: store16_other)

lemma be32_eq_load: "be32 (b i) (b (i + 1)) (b (i + 2)) (b (i + 3)) = bswap32 (load32 b i)"
  by (simp add: load32_def bswap32_le)

lemma is_ipv4_iff: "byteorder_ok bo \<Longrightarrow>
  ether_type b = cpu_to_be_16 bo RTE_ETHER_TYPE_IPV4 \<longleftrightarrow> is_ipv4 b"
  using byteorder_ok.load16_eq_cpu_to_be[of bo b 12] by (simp add: ether_type_def is_ipv4_def)

lemma ip_src_load: "ip_src b = bswap32 (load32 b 26)"
  using be32_eq_load[of b 26] by (simp add: ip_src_def)

lemma ip_dst_load: "ip_dst b = bswap32 (load32 b 30)"
  using be32_eq_load[of b 30] by (simp add: ip_dst_def)

lemma load32_eq_host: "byteorder_ok bo \<Longrightarrow> load32 b i = cpu_to_be_32 bo x \<longleftrightarrow> bswap32 (load32 b i) = x"
  by (metis byteorder_ok.cpu_to_be_32 bswap32_bswap32)

lemma simulate_nat_ipv4:
  assumes bo: "byteorder_ok bo" and "is_ipv4 b"
  obtains b2 where "simulate_nat bo cksum b = store16 24 (cksum (ip_part (store16 24 0 b2))) (store16 24 0 b2)"
    and "load32 b2 26 = bswap32 (if ip_src b = PRIVATE_IP then PUBLIC_IP else ip_src b)"
    and "load32 b2 30 = bswap32 (if ip_dst b = PUBLIC_IP then PRIVATE_IP else ip_dst b)"
    and "\<And>i. i < 26 \<or> 34 \<le> i \<Longrightarrow> b2 i = b i"
proof -
  define b1 where "b1 = (if load32 b 26 = cpu_to_be_32 bo PRIVATE_IP
      then store32 26 (cpu_to_be_32 bo PUBLIC_IP) b else b)"
  define b2 where "b2 = (if load32 b1 30 = cpu_to_be_32 bo PUBLIC_IP
      then store32 30 (cpu_to_be_32 bo PRIVATE_IP) b1 else b1)"
  note conv = byteorder_ok.cpu_to_be_32[OF bo] load32_eq_host[OF bo]
  have "load32 b1 30 = load32 b 30"
    by (simp add: b1_def load_store32_disjoint)
  then have "load32 b2 30 = bswap32 (if ip_dst b = PUBLIC_IP then PRIVATE_IP else ip_dst b)"
    by (simp add: b2_def conv(2) ip_dst_load) (simp add: conv(1))
  moreover have "load32 b2 26 = bswap32 (if ip_src b = PRIVATE_IP then PUBLIC_IP else ip_src b)"
  proof -
    have "load32 b2 26 = load32 b1 26" by (simp add: b2_def load_store32_disjoint)
    then show ?thesis by (simp add: b1_def conv(2) ip_src_load) (simp add: conv(1))
  qed
  moreover have "b2 i = b i" if "i < 26 \<or> 34 \<le> i" for i
    using that by (auto simp: b1_def b2_def store32_other)
  moreover have "simulate_nat bo cksum b =
      store16 24 (cksum (ip_part (store16 24 0 b2))) (store16 24 0 b2)"
    using is_ipv4_iff[OF bo, of b] assms(2)
    by (simp add: simulate_nat_def ETH_LEN_def Let_def ip_part_def b1_def b2_def)
  ultimately show thesis using that by blast
qed

text \<open>
  C6. What the NAT does to a packet, for any implementation of the byte-order macros that
  follows their documentation: a packet that is not IPv4 is untouched; in an IPv4 packet a
  private source becomes the public address, a public destination becomes the private one,
  every other source and destination is kept, and apart from these addresses and the header
  checksum not a byte changes (so a TCP or UDP checksum, which covers the addresses, is left
  as it was).
\<close>

theorem simulate_nat_spec:
  assumes "byteorder_ok bo"
  shows "if is_ipv4 b
         then ip_src (simulate_nat bo cksum b) = (if ip_src b = PRIVATE_IP then PUBLIC_IP else ip_src b) \<and>
              ip_dst (simulate_nat bo cksum b) = (if ip_dst b = PUBLIC_IP then PRIVATE_IP else ip_dst b) \<and>
              (\<forall>i. i < 24 \<or> 34 \<le> i \<longrightarrow> simulate_nat bo cksum b i = b i)
         else simulate_nat bo cksum b = b"
proof (cases "is_ipv4 b")
  case True
  obtain b2 where
    eq: "simulate_nat bo cksum b = store16 24 (cksum (ip_part (store16 24 0 b2))) (store16 24 0 b2)"
    and src: "load32 b2 26 = bswap32 (if ip_src b = PRIVATE_IP then PUBLIC_IP else ip_src b)"
    and dst: "load32 b2 30 = bswap32 (if ip_dst b = PUBLIC_IP then PRIVATE_IP else ip_dst b)"
    and keep: "\<And>i. i < 26 \<or> 34 \<le> i \<Longrightarrow> b2 i = b i"
    by (rule simulate_nat_ipv4[OF assms True, of cksum]) (rule that)
  have "ip_src (simulate_nat bo cksum b) = bswap32 (load32 b2 26)"
    and "ip_dst (simulate_nat bo cksum b) = bswap32 (load32 b2 30)"
    unfolding eq ip_src_load ip_dst_load by (simp_all add: load32_store16_disjoint)
  moreover have "simulate_nat bo cksum b i = b i" if "i < 24 \<or> 34 \<le> i" for i
    using that keep[of i] unfolding eq by (auto simp: store16_other)
  ultimately show ?thesis using True by (simp only: src dst bswap32_bswap32) simp
next
  case False
  then show ?thesis
    using is_ipv4_iff[OF assms] by (simp add: simulate_nat_def)
qed

text \<open>An outbound UDP packet from the private address to 8.8.8.8.\<close>

definition outbound_bytes :: buffer where
  "outbound_bytes = buffer_of [0xFF, 0xFF, 0xFF, 0xFF, 0xFF, 0xFF, 0, 0x15, 0x5D, 0x0E, 0x66, 3, 8, 0,
     0x45, 0, 0, 28, 0, 0, 0, 0, 64, 17, 0, 0, 172, 22, 116, 70, 8, 8, 8, 8,
     4, 0xD2, 0x16, 0x2E, 0, 8, 0, 0]"

lemma outbound_fields:
  "is_ipv4 outbound_bytes" "ip_src outbound_bytes = PRIVATE_IP" "20 \<le> ihl_bytes (outbound_bytes 14)"
  by (simp_all add: is_ipv4_def ip_src_def outbound_bytes_def buffer_of_def PRIVATE_IP_def
      ipv4_of_def be16_def le16_def ether_consts ihl_bytes_def)

theorem simulate_nat_spec_witness:
  "byteorder_ok le_host \<and> is_ipv4 outbound_bytes \<and>
   ip_src (simulate_nat le_host ref_cksum outbound_bytes) = PUBLIC_IP"
  using simulate_nat_spec[OF le_host.byteorder_ok_axioms, of outbound_bytes ref_cksum]
    outbound_fields le_host.byteorder_ok_axioms by simp

text \<open>
  After the NAT has processed an IPv4 packet whose header length field is at least the
  minimal 20 bytes, its header checksum is valid, for any checksum routine with the
  documented contract.
\<close>

theorem simulate_nat_checksum:
  assumes "byteorder_ok bo" and "ipv4_cksum_ok cksum"
    and "is_ipv4 b" and "20 \<le> ihl_bytes (b 14)"
  shows "hdr_valid (ip_part (simulate_nat bo cksum b))"
proof -
  obtain b2 where
    eq: "simulate_nat bo cksum b = store16 24 (cksum (ip_part (store16 24 0 b2))) (store16 24 0 b2)"
    and keep: "\<And>i. i < 26 \<or> 34 \<le> i \<Longrightarrow> b2 i = b i"
    by (rule simulate_nat_ipv4[OF assms(1,3), of cksum]) (erule that, assumption)
  let ?h = "ip_part (store16 24 0 b2)"
  have shift: "ip_part (store16 24 v c) = store16 10 v (ip_part c)" for v c
    using store16_shift[of 14 10 v c] by (simp add: ip_part_def)
  have "ihl_bytes (?h 0) = ihl_bytes (b 14)"
    using keep[of 14] by (simp add: ip_part_def store16_other)
  moreover have "load16 ?h 10 = 0" by (simp add: shift)
  ultimately show ?thesis
    unfolding eq shift using assms(2,4) by (simp add: ipv4_cksum_ok.cksum_valid)
qed

theorem simulate_nat_checksum_witness:
  "byteorder_ok le_host \<and> ipv4_cksum_ok ref_cksum \<and> is_ipv4 outbound_bytes \<and>
   20 \<le> ihl_bytes (outbound_bytes 14) \<and>
   hdr_valid (ip_part (simulate_nat le_host ref_cksum outbound_bytes))"
  using simulate_nat_checksum[OF le_host.byteorder_ok_axioms ref_cksum.ipv4_cksum_ok_axioms
      outbound_fields(1,3)] outbound_fields le_host.byteorder_ok_axioms ref_cksum.ipv4_cksum_ok_axioms
  by simp

subsection \<open>The polling loop\<close>

text \<open>One pass of \<open>lcore_main\<close>. The number of packets the driver took is not looked at.\<close>

definition nat_pass ::
    "byteorder \<Rightarrow> (buffer \<Rightarrow> u16) \<Rightarrow> 'n ethdev \<Rightarrow> ('n, 'z) world_scheme \<Rightarrow> ('n, 'z) world_scheme" where
  "nat_pass bo cksum nd w =
     (case eth_rx nd 0 0 32 w of (bufs, w) \<Rightarrow>
        if bufs = [] then w
        else snd (eth_tx nd 0 0 bufs (fold (\<lambda>m. modify m (simulate_nat bo cksum)) bufs w)))"

definition nat_lost ::
    "byteorder \<Rightarrow> (buffer \<Rightarrow> u16) \<Rightarrow> 'n ethdev \<Rightarrow> ('n, 'z) world_scheme \<Rightarrow> mbuf multiset" where
  "nat_lost bo cksum nd w =
     (case eth_rx nd 0 0 32 w of (bufs, w) \<Rightarrow>
        if bufs = [] then {#}
        else mset (drop (fst (eth_tx nd 0 0 bufs (fold (\<lambda>m. modify m (simulate_nat bo cksum)) bufs w))) bufs))"

interpretation nat_loop: packet_loop "nat_pass bo cksum nd" "nat_lost bo cksum nd"
  by unfold_locales (simp add: nat_pass_def nat_lost_def case_prod_beta ledger frame)

text \<open>
  One pass of the NAT loop, over any driver that keeps its promises: the driver receives
  an initial part of the burst, each packet of it transmitted once, in order, as the NAT
  image of what was received; the rest of the burst is neither transmitted nor freed, it
  stays outstanding for good.
\<close>

theorem nat_pass_outcome:
  assumes "ethdev_ok nd" and "accounted w"
  shows "\<exists>k. let (bufs, w1) = eth_rx nd 0 0 32 w in
           k \<le> length bufs \<and>
           sent (nat_pass bo cksum nd w) = sent w @
             map (\<lambda>m. (0, 0, m, (mem w1 m)\<lparr>bytes := simulate_nat bo cksum (bytes (mem w1 m))\<rparr>)) (take k bufs) \<and>
           freed (nat_pass bo cksum nd w) = freed w \<and>
           outstanding (nat_pass bo cksum nd w) = outstanding w + mset (drop k bufs)"
proof -
  obtain bufs w1 where r: "eth_rx nd 0 0 32 w = (bufs, w1)" by (rule prod.exhaust)
  let ?w2 = "fold (\<lambda>m. modify m (simulate_nat bo cksum)) bufs w1"
  let ?k = "if bufs = [] then 0 else fst (eth_tx nd 0 0 bufs ?w2)"
  have d: "distinct bufs" using ethdev_ok.eth_rx_distinct[OF assms(1), of 0 0 32 w] by (simp add: r)
  have k: "?k \<le> length bufs" using ethdev_ok.eth_tx_le[OF assms(1), of 0 0 bufs ?w2] by simp
  have fr: "sent w1 = sent w" "freed w1 = freed w"
    using eth_rx_frame[of nd 0 0 32 w] by (simp_all add: r)
  have "map (\<lambda>m. (0::nat, 0::nat, m, mem ?w2 m)) (take ?k bufs) =
      map (\<lambda>m. (0, 0, m, (mem w1 m)\<lparr>bytes := simulate_nat bo cksum (bytes (mem w1 m))\<rparr>)) (take ?k bufs)"
    using d by (intro map_cong) (auto simp: fold_modify_mem dest: in_set_takeD)
  moreover have "outstanding (nat_pass bo cksum nd w) = outstanding w + mset (drop ?k bufs)"
    using nat_loop.accounted_iter(2)[OF assms(2), of bo cksum nd] by (auto simp: nat_lost_def r)
  ultimately show ?thesis
    using k fr unfolding r prod.case Let_def
    by (intro exI[of _ ?k]) (auto simp: nat_pass_def r eth_tx_sent frame)
qed

definition nat_script :: script where
  "nat_script = \<lparr>next_addr = 7,
     bursts = [[\<lparr>bytes = outbound_bytes, data_len = 42, pkt_len = 42\<rparr>,
                \<lparr>bytes = outbound_bytes, data_len = 42, pkt_len = 42\<rparr>]], tx_caps = [1]\<rparr>"

theorem nat_pass_outcome_witness:
  "ethdev_ok script_dev \<and> accounted (start_world nat_script) \<and>
   (\<exists>k. let (bufs, w1) = eth_rx script_dev 0 0 32 (start_world nat_script) in
      k \<le> length bufs \<and>
      sent (nat_pass le_host ref_cksum script_dev (start_world nat_script)) =
        sent (start_world nat_script) @
        map (\<lambda>m. (0, 0, m, (mem w1 m)\<lparr>bytes := simulate_nat le_host ref_cksum (bytes (mem w1 m))\<rparr>))
          (take k bufs) \<and>
      freed (nat_pass le_host ref_cksum script_dev (start_world nat_script)) =
        freed (start_world nat_script) \<and>
      outstanding (nat_pass le_host ref_cksum script_dev (start_world nat_script)) =
        outstanding (start_world nat_script) + mset (drop k bufs)) \<and>
   fst (eth_rx script_dev 0 0 32 (start_world nat_script)) = [7, 8]"
proof (intro conjI)
  show "fst (eth_rx script_dev 0 0 32 (start_world nat_script)) = [7, 8]"
    by (simp add: scripted nat_script_def)
qed (rule script_dev.ethdev_ok_axioms, rule balanced_start,
     rule nat_pass_outcome[OF script_dev.ethdev_ok_axioms balanced_start(2)])

end
