(* ===== verification/Ring.thy ===== *)
theory Ring
  imports Ethdev
begin

text \<open>
  Rings between threads and processes. \<open>rte_ring\<close> is not under src/: its operations are the
  fields of the argument \<open>ro\<close> over a ring state the model does not look into, and its
  documented contract, a bounded FIFO whose burst operations do as much as they can, is the
  locale \<open>ring_ok\<close>. The names are those of the calls without their \<open>rte_ring_\<close> prefix.
\<close>

record ('a, 'r) ring_ops =
  enqueue :: "'a \<Rightarrow> 'r \<Rightarrow> bool \<times> 'r"             \<comment> \<open>\<open>True\<close> is the return value 0\<close>
  enqueue_burst :: "'a list \<Rightarrow> 'r \<Rightarrow> nat \<times> 'r"
  dequeue :: "'r \<Rightarrow> 'a option \<times> 'r"                \<comment> \<open>\<open>None\<close> is the return value \<open>-ENOENT\<close>\<close>
  dequeue_burst :: "nat \<Rightarrow> 'r \<Rightarrow> 'a list \<times> 'r"
  enqueue_bulk :: "'a list \<Rightarrow> 'r \<Rightarrow> nat \<times> 'r"     \<comment> \<open>all or nothing\<close>
  dequeue_bulk :: "nat \<Rightarrow> 'r \<Rightarrow> 'a list \<times> 'r"

locale ring_ok =
  fixes ro :: "('a, 'r) ring_ops"
    and contents :: "'r \<Rightarrow> 'a list"
    and cap :: "'r \<Rightarrow> nat"
  assumes enq: "enqueue ro x r = (ok, r') \<Longrightarrow>
      ok = (length (contents r) < cap r) \<and> cap r' = cap r \<and>
      contents r' = contents r @ (if ok then [x] else [])"
    and enq_burst: "enqueue_burst ro xs r = (k, r') \<Longrightarrow>
      k = min (length xs) (cap r - length (contents r)) \<and> cap r' = cap r \<and>
      contents r' = contents r @ take k xs"
    and deq: "dequeue ro r = (y, r') \<Longrightarrow> cap r' = cap r \<and>
      (case y of None \<Rightarrow> contents r = [] \<and> contents r' = []
       | Some x \<Rightarrow> contents r = x # contents r')"
    and deq_burst: "dequeue_burst ro n r = (ys, r') \<Longrightarrow> cap r' = cap r \<and>
      ys = take n (contents r) \<and> contents r' = drop n (contents r)"
    and enq_bulk: "enqueue_bulk ro xs r = (k, r') \<Longrightarrow> cap r' = cap r \<and>
      k = (if length (contents r) + length xs \<le> cap r then length xs else 0) \<and>
      contents r' = contents r @ take k xs"
    and deq_bulk: "dequeue_bulk ro n r = (ys, r') \<Longrightarrow> cap r' = cap r \<and>
      ys = (if n \<le> length (contents r) then take n (contents r) else []) \<and>
      contents r' = drop (length ys) (contents r)"
begin

lemmas results = enq[OF prod.collapse[symmetric]] enq_burst[OF prod.collapse[symmetric]]
  deq[OF prod.collapse[symmetric]] deq_burst[OF prod.collapse[symmetric]]
  enq_bulk[OF prod.collapse[symmetric]] deq_bulk[OF prod.collapse[symmetric]]

lemma cap_frame [simp]:
  "cap (snd (enqueue ro x r)) = cap r" "cap (snd (enqueue_burst ro xs r)) = cap r"
  "cap (snd (dequeue ro r)) = cap r" "cap (snd (dequeue_burst ro n r)) = cap r"
  "cap (snd (enqueue_bulk ro xs r)) = cap r" "cap (snd (dequeue_bulk ro n r)) = cap r"
  by (simp_all add: results)

lemma enqueue_result:
  "fst (enqueue ro x r) \<longleftrightarrow> length (contents r) < cap r"
  "contents (snd (enqueue ro x r)) =
     contents r @ (if length (contents r) < cap r then [x] else [])"
  using enq[OF prod.collapse[symmetric], of x r] by (simp_all split: if_splits)

lemma enqueue_burst_result:
  "fst (enqueue_burst ro xs r) = min (length xs) (cap r - length (contents r))"
  "contents (snd (enqueue_burst ro xs r)) =
     contents r @ take (cap r - length (contents r)) xs"
proof -
  have "fst (enqueue_burst ro xs r) = min (length xs) (cap r - length (contents r)) \<and>
      contents (snd (enqueue_burst ro xs r)) = contents r @ take (fst (enqueue_burst ro xs r)) xs"
    using enq_burst[OF prod.collapse[symmetric], of xs r] by simp
  moreover have "take (min (length xs) k) xs = take k xs" for k
    by (simp add: min_def)
  ultimately show "fst (enqueue_burst ro xs r) = min (length xs) (cap r - length (contents r))"
    "contents (snd (enqueue_burst ro xs r)) = contents r @ take (cap r - length (contents r)) xs"
    by simp_all
qed

lemma dequeue_result:
  "fst (dequeue ro r) = (case contents r of [] \<Rightarrow> None | x # xs \<Rightarrow> Some x)"
  "contents (snd (dequeue ro r)) = tl (contents r)"
  using deq[of r] by (cases "dequeue ro r"; auto split: option.splits list.splits)+

lemma dequeue_burst_result:
  "fst (dequeue_burst ro n r) = take n (contents r)"
  "contents (snd (dequeue_burst ro n r)) = drop n (contents r)"
  using deq_burst[OF prod.collapse[symmetric], of n r] by simp_all

lemma enqueue_bulk_result:
  "fst (enqueue_bulk ro xs r) =
     (if length (contents r) + length xs \<le> cap r then length xs else 0)"
  "contents (snd (enqueue_bulk ro xs r)) =
     contents r @ (if length (contents r) + length xs \<le> cap r then xs else [])"
proof -
  have "fst (enqueue_bulk ro xs r) =
       (if length (contents r) + length xs \<le> cap r then length xs else 0) \<and>
     contents (snd (enqueue_bulk ro xs r)) = contents r @ take (fst (enqueue_bulk ro xs r)) xs"
    using enq_bulk[OF prod.collapse[symmetric], of xs r] by simp
  then show "fst (enqueue_bulk ro xs r) =
       (if length (contents r) + length xs \<le> cap r then length xs else 0)"
    "contents (snd (enqueue_bulk ro xs r)) =
       contents r @ (if length (contents r) + length xs \<le> cap r then xs else [])"
    by simp_all
qed

lemma dequeue_bulk_result:
  "fst (dequeue_bulk ro n r) = (if n \<le> length (contents r) then take n (contents r) else [])"
  "contents (snd (dequeue_bulk ro n r)) =
     (if n \<le> length (contents r) then drop n (contents r) else contents r)"
proof -
  have a: "fst (dequeue_bulk ro n r) = (if n \<le> length (contents r) then take n (contents r) else []) \<and>
     contents (snd (dequeue_bulk ro n r)) = drop (length (fst (dequeue_bulk ro n r))) (contents r)"
    using deq_bulk[OF prod.collapse[symmetric], of n r] by simp
  then show "fst (dequeue_bulk ro n r) = (if n \<le> length (contents r) then take n (contents r) else [])"
    by simp
  show "contents (snd (dequeue_bulk ro n r)) =
     (if n \<le> length (contents r) then drop n (contents r) else contents r)"
    using a by (cases "n \<le> length (contents r)") (simp_all add: min_def)
qed

text \<open>A ring never holds more than its capacity.\<close>

lemma bounded:
  assumes "length (contents r) \<le> cap r"
  shows "length (contents (snd (enqueue ro x r))) \<le> cap (snd (enqueue ro x r))"
    "length (contents (snd (enqueue_burst ro xs r))) \<le> cap (snd (enqueue_burst ro xs r))"
    "length (contents (snd (enqueue_bulk ro xs r))) \<le> cap (snd (enqueue_bulk ro xs r))"
  using assms by (auto simp: enqueue_result enqueue_burst_result enqueue_bulk_result)

end

text \<open>
  A ring with that contract: capacity and contents. A ring created with a power-of-two
  \<open>count\<close> and no exact-size flag holds \<open>count - 1\<close> objects.
\<close>

type_synonym 'a fifo = "nat \<times> 'a list"

definition fifo_ring :: "('a, 'a fifo) ring_ops" where
  "fifo_ring =
     \<lparr>enqueue = (\<lambda>x (c, q). if length q < c then (True, (c, q @ [x])) else (False, (c, q))),
      enqueue_burst = (\<lambda>xs (c, q). (min (length xs) (c - length q), (c, q @ take (c - length q) xs))),
      dequeue = (\<lambda>(c, q). case q of [] \<Rightarrow> (None, (c, [])) | x # q' \<Rightarrow> (Some x, (c, q'))),
      dequeue_burst = (\<lambda>n (c, q). (take n q, (c, drop n q))),
      enqueue_bulk = (\<lambda>xs (c, q). if length q + length xs \<le> c then (length xs, (c, q @ xs))
        else (0, (c, q))),
      dequeue_bulk = (\<lambda>n (c, q). if n \<le> length q then (take n q, (c, drop n q)) else ([], (c, q)))\<rparr>"

interpretation fifo_ring: ring_ok fifo_ring snd fst
  by unfold_locales (auto simp: fifo_ring_def min_def split: if_splits list.splits)

definition new_ring :: "nat \<Rightarrow> 'a fifo" where
  "new_ring sz = (sz - 1, [])"

subsection \<open>Loops that keep packets between passes\<close>

text \<open>
  As \<open>packet_loop\<close>, for a program that parks buffers in rings between passes: \<open>held\<close> are the
  buffers parked, \<open>lost\<close> what one pass neither disposes of nor keeps.
\<close>

fun total_lost :: "('i \<Rightarrow> 'w \<Rightarrow> 'w) \<Rightarrow> ('i \<Rightarrow> 'w \<Rightarrow> mbuf multiset) \<Rightarrow> 'i list \<Rightarrow> 'w \<Rightarrow> mbuf multiset" where
  "total_lost iter lost [] w = {#}"
| "total_lost iter lost (i # is) w = lost i w + total_lost iter lost is (iter i w)"

locale staged_loop =
  fixes iter :: "'i \<Rightarrow> ('n, 'z) world_scheme \<Rightarrow> ('n, 'z) world_scheme"
    and held :: "('n, 'z) world_scheme \<Rightarrow> mbuf multiset"
    and lost :: "'i \<Rightarrow> ('n, 'z) world_scheme \<Rightarrow> mbuf multiset"
  assumes pass: "disposed (iter i w) + held (iter i w) + lost i w + mset (got w) =
      disposed w + held w + mset (got (iter i w))"
begin

lemma conserved_run:
  "disposed w + held w + d = mset (got w) \<Longrightarrow>
   disposed (fold iter is w) + held (fold iter is w) + (d + total_lost iter lost is w) = mset (got (fold iter is w))"
proof (induction "is" arbitrary: w d)
  case (Cons i "is")
  have "disposed (iter i w) + held (iter i w) + (d + lost i w) = mset (got (iter i w))"
    using arg_cong2[where f = "(+)", OF pass[of i w] Cons.prems] by (simp add: ac_simps)
  from Cons.IH[OF this] show ?case by (simp add: union_assoc)
qed simp

end

end
