(* ===== verification/ControlData.thy ===== *)
theory ControlData
  imports Ring
begin

text \<open>
  \<open>control_data_segregation/main.c\<close>: every received packet is classified as control or data
  traffic, queued on the ring of its class, and both rings are drained to the port, control
  first. The rings are \<open>rte_ring\<close>s (theory \<open>Ring\<close>); the time-stamp counter is an input of
  each pass.
\<close>

subsection \<open>Classification\<close>

definition is_control_tcp_port :: "byteorder \<Rightarrow> u16 \<Rightarrow> bool" where
  "is_control_tcp_port bo dport_be =
     (let port = be_to_cpu_16 bo dport_be in port = 22 \<or> port = 53 \<or> port = 179 \<or> port = 389)"

definition is_control_udp_port :: "byteorder \<Rightarrow> u16 \<Rightarrow> bool" where
  "is_control_udp_port bo dport_be =
     (let port = be_to_cpu_16 bo dport_be
      in port = 53 \<or> port = 67 \<or> port = 68 \<or> port = 123 \<or> port = 161)"

text \<open>The part of \<open>classify_packet\<close> behind the optional VLAN tag.\<close>

definition classify_l3 :: "byteorder \<Rightarrow> packet \<Rightarrow> u16 \<Rightarrow> nat \<Rightarrow> bool" where
  "classify_l3 bo m eth_type offset =
     (if eth_type \<noteq> RTE_ETHER_TYPE_IPV4 then False
      else if data_len m < offset + IPV4_LEN then False
      else
        let proto = bytes m (offset + 9);
            offset = offset + ihl_bytes (bytes m offset)
        in if proto = IPPROTO_ICMP then True
           else if proto = 89 then True
           else if proto = IPPROTO_UDP then
             (if data_len m < offset + UDP_LEN then False
              else is_control_udp_port bo (load16 (bytes m) (offset + 2)))
           else if proto = IPPROTO_TCP then
             (if data_len m < offset + TCP_LEN then False
              else is_control_tcp_port bo (load16 (bytes m) (offset + 2)))
           else False)"

definition classify_packet :: "byteorder \<Rightarrow> packet \<Rightarrow> bool" where
  "classify_packet bo m =
     (if data_len m < ETH_LEN then False
      else
        let eth_type = be_to_cpu_16 bo (ether_type (bytes m))
        in if eth_type = RTE_ETHER_TYPE_VLAN then
             (if data_len m < ETH_LEN + VLAN_LEN then False
              else classify_l3 bo m (be_to_cpu_16 bo (load16 (bytes m) (ETH_LEN + 2)))
                     (ETH_LEN + VLAN_LEN))
           else classify_l3 bo m eth_type ETH_LEN)"

text \<open>
  The same decision as a specification on the frame, the list of the packet's \<open>data_len\<close>
  bytes: find the IPv4 packet, then its transport header, then the service.
\<close>

definition frame_of :: "packet \<Rightarrow> u8 list" where
  "frame_of m = map (bytes m) [0..<data_len m]"

definition ipv4_of_frame :: "u8 list \<Rightarrow> u8 list option" where
  "ipv4_of_frame f =
     (let at = (if 14 \<le> length f \<and> be16 (f ! 12) (f ! 13) = RTE_ETHER_TYPE_VLAN then 16 else 12)
      in if at + 2 \<le> length f \<and> be16 (f ! at) (f ! (at + 1)) = RTE_ETHER_TYPE_IPV4
         then Some (drop (at + 2) f) else None)"

definition service_port :: "u8 list \<Rightarrow> u16" where
  "service_port l4 = be16 (l4 ! 2) (l4 ! 3)"

definition control_ip :: "u8 list \<Rightarrow> bool" where
  "control_ip ip \<longleftrightarrow>
     20 \<le> length ip \<and>
     (let l4 = drop (ihl_bytes (ip ! 0)) ip in
        ip ! 9 \<in> {1, 89} \<or>
        ip ! 9 = 17 \<and> 8 \<le> length l4 \<and> service_port l4 \<in> {53, 67, 68, 123, 161} \<or>
        ip ! 9 = 6 \<and> 20 \<le> length l4 \<and> service_port l4 \<in> {22, 53, 179, 389})"

definition control_frame :: "u8 list \<Rightarrow> bool" where
  "control_frame f \<longleftrightarrow> (case ipv4_of_frame f of None \<Rightarrow> False | Some ip \<Rightarrow> control_ip ip)"

lemma frame_of_nth: "i < data_len m \<Longrightarrow> frame_of m ! i = bytes m i"
  by (simp add: frame_of_def)

lemma length_frame_of [simp]: "length (frame_of m) = data_len m"
  by (simp add: frame_of_def)

lemma classify_l3_spec:
  assumes "byteorder_ok bo" and "off \<le> data_len m"
  shows "classify_l3 bo m t off \<longleftrightarrow>
     t = RTE_ETHER_TYPE_IPV4 \<and> control_ip (drop off (frame_of m))"
proof (cases "off + 20 \<le> data_len m")
  case True
  let ?l4 = "off + ihl_bytes (bytes m off)"
  have ip: "drop off (frame_of m) ! 9 = bytes m (off + 9)" "drop off (frame_of m) ! 0 = bytes m off"
    using True by (simp_all add: frame_of_nth)
  have port: "service_port (drop (ihl_bytes (bytes m off)) (drop off (frame_of m))) =
      be_to_cpu_16 bo (load16 (bytes m) (?l4 + 2))" if "?l4 + 8 \<le> data_len m"
    using that byteorder_ok.be_to_cpu_16_load[OF assms(1)]
    by (simp add: service_port_def frame_of_nth eval_nat_numeral ac_simps)
  have len: "k \<le> length (drop (ihl_bytes (bytes m off)) (drop off (frame_of m))) \<longleftrightarrow>
      ?l4 + k \<le> data_len m" if "0 < k" for k
    using that by auto
  have a: "x \<in> {a, b} \<longleftrightarrow> x = a \<or> x = b" for x a b :: u8 by simp
  show ?thesis
    unfolding classify_l3_def control_ip_def Let_def ip header_lens proto_consts len[of 8, simplified]
      len[of 20, simplified] is_control_tcp_port_def is_control_udp_port_def
    using True port by (auto simp: not_less)
next
  case False
  then show ?thesis by (auto simp: classify_l3_def control_ip_def header_lens Let_def)
qed

lemma ipv4_of_frame_cases:
  assumes "byteorder_ok bo"
  shows "ipv4_of_frame (frame_of m) =
    (if data_len m < 14 then None
     else if be_to_cpu_16 bo (ether_type (bytes m)) = RTE_ETHER_TYPE_VLAN then
       if data_len m < 18 then None
       else if be_to_cpu_16 bo (load16 (bytes m) 16) = RTE_ETHER_TYPE_IPV4
            then Some (drop 18 (frame_of m)) else None
     else if be_to_cpu_16 bo (ether_type (bytes m)) = RTE_ETHER_TYPE_IPV4
          then Some (drop 14 (frame_of m)) else None)"
  using byteorder_ok.be_to_cpu_16_load[OF assms]
  by (simp add: ipv4_of_frame_def ether_type_def frame_of_nth)

text \<open>
  C4. \<open>classify_packet\<close> decides exactly this of the frame's own bytes, whatever the memory
  behind them holds: a frame is control traffic if and only if it carries, possibly behind
  one VLAN tag, an IPv4 packet whose header is complete and whose protocol is ICMP or OSPF,
  or UDP or TCP with a complete transport header and a listed destination port.
\<close>

theorem classify_packet_spec:
  assumes "byteorder_ok bo"
  shows "classify_packet bo m \<longleftrightarrow> control_frame (frame_of m)"
  unfolding classify_packet_def control_frame_def ipv4_of_frame_cases[OF assms] Let_def header_lens
  using classify_l3_spec[OF assms, of 14 m] classify_l3_spec[OF assms, of 18 m]
  by (simp add: Let_def)

text \<open>A DNS query, 42 bytes up to the end of the UDP header, in a buffer of 64 bytes.\<close>

definition dns_query :: packet where
  "dns_query = \<lparr>bytes = buffer_of
     ([0, 0, 0, 0, 0, 1, 0, 0, 0, 0, 0, 2, 8, 0,
       0x45, 0, 0, 28, 0, 0, 0, 0, 64, 17, 0, 0, 10, 0, 0, 1, 10, 0, 0, 2,
       4, 0, 0, 53, 0, 8, 0, 0]), data_len = 42, pkt_len = 42\<rparr>"

theorem classify_packet_spec_witness:
  "byteorder_ok le_host \<and> classify_packet le_host dns_query \<and> control_frame (frame_of dns_query) \<and>
   \<not> classify_packet le_host (dns_query\<lparr>data_len := 41\<rparr>)"
proof -
  have "classify_packet le_host dns_query" "\<not> classify_packet le_host (dns_query\<lparr>data_len := 41\<rparr>)"
    by code_simp+
  then show ?thesis
    using classify_packet_spec[OF le_host.byteorder_ok_axioms, of dns_query]
      le_host.byteorder_ok_axioms by blast
qed

subsection \<open>The loop\<close>

definition SEG_BURST :: nat where "SEG_BURST = 32"

record ('n, 'r) seg_world = "'n world" +
  control_ring :: 'r
  data_ring :: 'r
  control_count :: u64
  data_count :: u64
  last_ts :: u64
  reports :: "(u64 \<times> u64) list"          \<comment> \<open>the lines printed\<close>

definition segregate ::
    "byteorder \<Rightarrow> (mbuf, 'r) ring_ops \<Rightarrow> mbuf \<Rightarrow> ('n, 'r) seg_world \<Rightarrow> ('n, 'r) seg_world" where
  "segregate bo ro m w =
     (if classify_packet bo (mem w m) then
        (case enqueue ro m (control_ring w) of (ok, r) \<Rightarrow>
           if ok then w\<lparr>control_ring := r, control_count := control_count w + 1\<rparr>
           else pktmbuf_free m (w\<lparr>control_ring := r\<rparr>))
      else
        (case enqueue ro m (data_ring w) of (ok, r) \<Rightarrow>
           if ok then w\<lparr>data_ring := r, data_count := data_count w + 1\<rparr>
           else pktmbuf_free m (w\<lparr>data_ring := r\<rparr>)))"

text \<open>Both drains ignore how many buffers the driver took.\<close>

definition drain_control ::
    "'n ethdev \<Rightarrow> (mbuf, 'r) ring_ops \<Rightarrow> ('n, 'r) seg_world \<Rightarrow> ('n, 'r) seg_world" where
  "drain_control nd ro w =
     (case dequeue_burst ro SEG_BURST (control_ring w) of (out, r) \<Rightarrow>
        if 0 < length out then snd (eth_tx nd 0 0 out (w\<lparr>control_ring := r\<rparr>))
        else w\<lparr>control_ring := r\<rparr>)"

definition drain_data ::
    "'n ethdev \<Rightarrow> (mbuf, 'r) ring_ops \<Rightarrow> ('n, 'r) seg_world \<Rightarrow> ('n, 'r) seg_world" where
  "drain_data nd ro w =
     (case dequeue_burst ro SEG_BURST (data_ring w) of (out, r) \<Rightarrow>
        if 0 < length out then snd (eth_tx nd 0 0 out (w\<lparr>data_ring := r\<rparr>))
        else w\<lparr>data_ring := r\<rparr>)"

definition report_stats :: "u64 \<Rightarrow> ('n, 'r) seg_world \<Rightarrow> ('n, 'r) seg_world" where
  "report_stats now w =
     (let w = (if last_ts w = 0 then w\<lparr>last_ts := now\<rparr> else w)
      in if 2000000000 < unat (now - last_ts w)
         then w\<lparr>reports := reports w @ [(control_count w, data_count w)], last_ts := now\<rparr>
         else w)"

definition seg_pass ::
    "'n ethdev \<Rightarrow> byteorder \<Rightarrow> (mbuf, 'r) ring_ops \<Rightarrow> u64 \<Rightarrow> ('n, 'r) seg_world \<Rightarrow> ('n, 'r) seg_world" where
  "seg_pass nd bo ro now w =
     (case eth_rx nd 0 0 SEG_BURST w of (bufs, w) \<Rightarrow>
        report_stats now (drain_data nd ro (drain_control nd ro (fold (segregate bo ro) bufs w))))"

text \<open>The buffers a pass gives to neither the driver nor the pool, nor keeps in a ring.\<close>

definition seg_lost ::
    "'n ethdev \<Rightarrow> byteorder \<Rightarrow> (mbuf, 'r) ring_ops \<Rightarrow> u64 \<Rightarrow> ('n, 'r) seg_world \<Rightarrow> mbuf multiset" where
  "seg_lost nd bo ro now w =
     (let w1 = (case eth_rx nd 0 0 SEG_BURST w of (bufs, w) \<Rightarrow> fold (segregate bo ro) bufs w);
          (cs, cr) = dequeue_burst ro SEG_BURST (control_ring w1);
          (k, w2) = eth_tx nd 0 0 cs (w1\<lparr>control_ring := cr\<rparr>);
          (ds, dr) = dequeue_burst ro SEG_BURST (data_ring (drain_control nd ro w1));
          (j, w3) = eth_tx nd 0 0 ds ((drain_control nd ro w1)\<lparr>data_ring := dr\<rparr>)
      in mset (drop k cs) + mset (drop j ds))"

lemma seg_frame [frame]:
  "got (w\<lparr>control_ring := r\<rparr>) = got w" "got (w\<lparr>data_ring := r\<rparr>) = got w"
  "got (w\<lparr>control_count := c\<rparr>) = got w" "got (w\<lparr>data_count := c\<rparr>) = got w"
  "disposed (w\<lparr>control_ring := r\<rparr>) = disposed w" "disposed (w\<lparr>data_ring := r\<rparr>) = disposed w"
  "disposed (w\<lparr>control_count := c\<rparr>) = disposed w" "disposed (w\<lparr>data_count := c\<rparr>) = disposed w"
  for w :: "('n, 'r) seg_world"
  by (simp_all add: disposed_def sent_bufs_def)

lemma seg_fields_frame [frame]:
  "control_ring (pktmbuf_free m w) = control_ring w" "data_ring (pktmbuf_free m w) = data_ring w"
  "control_count (pktmbuf_free m w) = control_count w" "data_count (pktmbuf_free m w) = data_count w"
  "control_ring (snd (eth_tx nd p q ms w)) = control_ring w"
  "data_ring (snd (eth_tx nd p q ms w)) = data_ring w"
  "control_count (snd (eth_tx nd p q ms w)) = control_count w"
  "data_count (snd (eth_tx nd p q ms w)) = data_count w"
  "control_ring (snd (eth_rx nd p q n w)) = control_ring w"
  "data_ring (snd (eth_rx nd p q n w)) = data_ring w"
  "control_count (snd (eth_rx nd p q n w)) = control_count w"
  "data_count (snd (eth_rx nd p q n w)) = data_count w"
  by (simp_all add: pktmbuf_free_def eth_tx_def eth_rx_def split: prod.split)

lemma report_stats_frame [frame]:
  "got (report_stats now w) = got w" "disposed (report_stats now w) = disposed w"
  "sent (report_stats now w) = sent w" "freed (report_stats now w) = freed w"
  "control_ring (report_stats now w) = control_ring w" "data_ring (report_stats now w) = data_ring w"
  "control_count (report_stats now w) = control_count w" "data_count (report_stats now w) = data_count w"
  by (simp_all add: report_stats_def Let_def disposed_def sent_bufs_def)

lemma drain_frame [frame]:
  "got (drain_control nd ro w) = got w" "got (drain_data nd ro w) = got w"
  "mem (drain_control nd ro w) = mem w"
  "freed (drain_control nd ro w) = freed w" "freed (drain_data nd ro w) = freed w"
  "data_ring (drain_control nd ro w) = data_ring w"
  "control_ring (drain_data nd ro w) = control_ring w"
  "control_count (drain_control nd ro w) = control_count w"
  "data_count (drain_control nd ro w) = data_count w"
  "control_count (drain_data nd ro w) = control_count w"
  "data_count (drain_data nd ro w) = data_count w"
  by (simp_all add: drain_control_def drain_data_def case_prod_beta frame)

definition seg_held :: "('r \<Rightarrow> mbuf list) \<Rightarrow> ('n, 'r) seg_world \<Rightarrow> mbuf multiset" where
  "seg_held contents w = mset (contents (control_ring w)) + mset (contents (data_ring w))"

lemma segregate_frame [frame]:
  "got (segregate bo ro m w) = got w" "mem (segregate bo ro m w) = mem w"
  "sent (segregate bo ro m w) = sent w"
  by (simp_all add: segregate_def case_prod_beta frame)

lemma fold_segregate_frame [frame]:
  "got (fold (segregate bo ro) ms w) = got w" "mem (fold (segregate bo ro) ms w) = mem w"
  "sent (fold (segregate bo ro) ms w) = sent w"
  by (rule fold_frame, simp add: frame)+

lemma segregate_conserves:
  assumes "ring_ok ro contents cap"
  shows "disposed (segregate bo ro m w) + seg_held contents (segregate bo ro m w) =
    add_mset m (disposed w + seg_held contents w)"
  by (simp add: segregate_def seg_held_def case_prod_beta frame ledger ring_ok.enqueue_result[OF assms])

lemma fold_segregate_conserves:
  assumes "ring_ok ro contents cap"
  shows "disposed (fold (segregate bo ro) ms w) + seg_held contents (fold (segregate bo ro) ms w) =
    disposed w + seg_held contents w + mset ms"
  by (induction ms arbitrary: w) (simp_all add: segregate_conserves[OF assms])

lemma drain_control_conserves:
  assumes "ring_ok ro contents cap"
  shows "disposed (drain_control nd ro w) + seg_held contents (drain_control nd ro w) +
      (case dequeue_burst ro SEG_BURST (control_ring w) of (cs, cr) \<Rightarrow>
         mset (drop (fst (eth_tx nd 0 0 cs (w\<lparr>control_ring := cr\<rparr>))) cs)) =
    disposed w + seg_held contents w"
proof -
  let ?q = "contents (control_ring w)"
  let ?k = "fst (eth_tx nd 0 0 (take 32 ?q) (w\<lparr>control_ring := snd (dequeue_burst ro 32 (control_ring w))\<rparr>))"
  note res = ring_ok.dequeue_burst_result[OF assms]
  have d: "disposed (drain_control nd ro w) = disposed w + mset (take ?k (take 32 ?q))"
    by (cases "?q = []") (simp_all add: drain_control_def case_prod_beta SEG_BURST_def frame ledger res)
  have h: "seg_held contents (drain_control nd ro w) = mset (drop 32 ?q) + mset (contents (data_ring w))"
    by (simp add: seg_held_def drain_control_def case_prod_beta SEG_BURST_def frame res)
  have q: "mset ?q = mset (take ?k (take 32 ?q)) + mset (drop ?k (take 32 ?q)) + mset (drop 32 ?q)"
    by (simp only: mset_take_drop)
  show ?thesis
    unfolding d h unfolding seg_held_def SEG_BURST_def case_prod_beta res q by (simp only: ac_simps)
qed

lemma drain_data_conserves:
  assumes "ring_ok ro contents cap"
  shows "disposed (drain_data nd ro w) + seg_held contents (drain_data nd ro w) +
      (case dequeue_burst ro SEG_BURST (data_ring w) of (ds, dr) \<Rightarrow>
         mset (drop (fst (eth_tx nd 0 0 ds (w\<lparr>data_ring := dr\<rparr>))) ds)) =
    disposed w + seg_held contents w"
proof -
  let ?q = "contents (data_ring w)"
  let ?k = "fst (eth_tx nd 0 0 (take 32 ?q) (w\<lparr>data_ring := snd (dequeue_burst ro 32 (data_ring w))\<rparr>))"
  note res = ring_ok.dequeue_burst_result[OF assms]
  have d: "disposed (drain_data nd ro w) = disposed w + mset (take ?k (take 32 ?q))"
    by (cases "?q = []") (simp_all add: drain_data_def case_prod_beta SEG_BURST_def frame ledger res)
  have h: "seg_held contents (drain_data nd ro w) = mset (drop 32 ?q) + mset (contents (control_ring w))"
    by (simp add: seg_held_def drain_data_def case_prod_beta SEG_BURST_def frame res)
  have q: "mset ?q = mset (take ?k (take 32 ?q)) + mset (drop ?k (take 32 ?q)) + mset (drop 32 ?q)"
    by (simp only: mset_take_drop)
  show ?thesis
    unfolding d h unfolding seg_held_def SEG_BURST_def case_prod_beta res q by (simp only: ac_simps)
qed

lemma chain:
  fixes d0 :: "'x multiset"
  assumes "d3 + h3 + l2 = d2 + h2" and "d2 + h2 + l1 = d1 + h1" and "d1 + h1 = d0 + h0 + b"
    and "g' = g + b"
  shows "d3 + h3 + (l1 + l2) + g = d0 + h0 + g'"
proof -
  have "d3 + h3 + (l1 + l2) = (d3 + h3 + l2) + l1" by (simp add: ac_simps)
  also have "\<dots> = d0 + h0 + b" by (simp only: assms(1-3))
  finally show ?thesis using assms(4) by (simp add: ac_simps)
qed

lemma seg_staged:
  fixes nd :: "'n ethdev" and ro :: "(mbuf, 'r) ring_ops"
  assumes "ring_ok ro contents cap"
  shows "staged_loop (seg_pass nd bo ro) (seg_held contents) (seg_lost nd bo ro)"
proof
  fix now and w :: "('n, 'r) seg_world"
  let ?bufs = "fst (eth_rx nd 0 0 SEG_BURST w)" and ?w0 = "snd (eth_rx nd 0 0 SEG_BURST w)"
  let ?w1 = "fold (segregate bo ro) ?bufs ?w0"
  let ?w2 = "drain_control nd ro ?w1"
  let ?w3 = "drain_data nd ro ?w2"
  have p: "seg_pass nd bo ro now w = report_stats now ?w3"
    by (simp add: seg_pass_def case_prod_beta)
  have h: "seg_held contents (report_stats now ?w3) = seg_held contents ?w3"
    by (simp add: seg_held_def frame)
  have h0: "seg_held contents ?w0 = seg_held contents w"
    by (simp add: seg_held_def frame)
  show "disposed (seg_pass nd bo ro now w) + seg_held contents (seg_pass nd bo ro now w) +
      seg_lost nd bo ro now w + mset (got w) =
    disposed w + seg_held contents w + mset (got (seg_pass nd bo ro now w))"
    unfolding p h frame seg_lost_def Let_def case_prod_beta
    by (rule chain[OF drain_data_conserves[OF assms, of nd ?w2, unfolded case_prod_beta drain_frame]
          drain_control_conserves[OF assms, of nd ?w1, unfolded case_prod_beta]
          fold_segregate_conserves[OF assms, of bo ?bufs ?w0, unfolded h0 ledger]
          mset_append])
qed

interpretation seg_fifo: staged_loop "seg_pass nd bo fifo_ring" "seg_held snd" "seg_lost nd bo fifo_ring"
  by (rule seg_staged) (rule fifo_ring.ring_ok_axioms)

text \<open>Every received packet is counted in its class or freed.\<close>

definition seg_counted :: "('n, 'r) seg_world \<Rightarrow> bool" where
  "seg_counted w \<longleftrightarrow>
     control_count w + data_count w + of_nat (length (freed w)) = of_nat (length (got w))"

lemma segregate_counts:
  "control_count (segregate bo ro m w) + data_count (segregate bo ro m w) +
     of_nat (length (freed (segregate bo ro m w))) =
   control_count w + data_count w + of_nat (length (freed w)) + 1"
  by (simp add: segregate_def case_prod_beta frame)

lemma fold_segregate_counts:
  "control_count (fold (segregate bo ro) ms w) + data_count (fold (segregate bo ro) ms w) +
     of_nat (length (freed (fold (segregate bo ro) ms w))) =
   control_count w + data_count w + of_nat (length (freed w)) + of_nat (length ms)"
  by (induction ms arbitrary: w) (simp_all add: segregate_counts)

lemma seg_pass_counts: "seg_counted w \<Longrightarrow> seg_counted (seg_pass nd bo ro now w)"
  by (simp add: seg_counted_def seg_pass_def case_prod_beta frame fold_segregate_counts)

text \<open>
  C3. Conservation, for any number of passes, any traffic, any driver and any clock: every
  received buffer has been transmitted or freed, is queued in one of the two rings, or was
  offered to the driver by a drain and refused (\<open>seg_lost\<close>, the leak of the ignored return
  value); and the two counters count every packet received but not freed, modulo the 64-bit
  wrap-around.
\<close>

theorem seg_conservation:
  assumes "ring_ok ro contents cap"
    and "disposed w + seg_held contents w = mset (got w)" and "seg_counted w"
  shows "disposed (fold (seg_pass nd bo ro) ts w) + seg_held contents (fold (seg_pass nd bo ro) ts w) +
           total_lost (seg_pass nd bo ro) (seg_lost nd bo ro) ts w =
         mset (got (fold (seg_pass nd bo ro) ts w)) \<and>
         seg_counted (fold (seg_pass nd bo ro) ts w)"
proof
  show "disposed (fold (seg_pass nd bo ro) ts w) + seg_held contents (fold (seg_pass nd bo ro) ts w) +
           total_lost (seg_pass nd bo ro) (seg_lost nd bo ro) ts w =
         mset (got (fold (seg_pass nd bo ro) ts w))"
    using staged_loop.conserved_run[OF seg_staged[OF assms(1)], of w "{#}"] assms(2)
    by (simp only: add_0 add_0_right)
  show "seg_counted (fold (seg_pass nd bo ro) ts w)"
    by (rule fold_invariant[where I = seg_counted]) (auto intro: seg_pass_counts assms(3))
qed

definition seg_start :: "script \<Rightarrow> (script, mbuf fifo) seg_world" where
  "seg_start s = world.extend (start_world s)
     \<lparr>control_ring = new_ring 2048, data_ring = new_ring 2048, control_count = 0, data_count = 0,
      last_ts = 0, reports = []\<rparr>"

text \<open>Three packets, the middle one a control packet; the driver refuses the data burst once.\<close>

definition seg_script :: script where
  "seg_script = \<lparr>next_addr = 100,
     bursts = [[dns_query\<lparr>data_len := 41\<rparr>, dns_query, dns_query\<lparr>data_len := 10\<rparr>]],
     tx_caps = [1, 0]\<rparr>"

lemma seg_start_ok: "disposed (seg_start s) + seg_held snd (seg_start s) = mset (got (seg_start s))"
    "seg_counted (seg_start s)"
  by (simp_all add: seg_start_def start_world_def world.defs disposed_def sent_bufs_def seg_held_def
      new_ring_def seg_counted_def)

theorem seg_conservation_witness:
  "ring_ok fifo_ring snd fst \<and>
   disposed (fold (seg_pass script_dev le_host fifo_ring) [5, 7] (seg_start seg_script)) +
     seg_held snd (fold (seg_pass script_dev le_host fifo_ring) [5, 7] (seg_start seg_script)) +
     total_lost (seg_pass script_dev le_host fifo_ring) (seg_lost script_dev le_host fifo_ring)
       [5, 7] (seg_start seg_script) =
   mset (got (fold (seg_pass script_dev le_host fifo_ring) [5, 7] (seg_start seg_script))) \<and>
   seg_counted (fold (seg_pass script_dev le_host fifo_ring) [5, 7] (seg_start seg_script))"
  using seg_conservation[OF fifo_ring.ring_ok_axioms seg_start_ok, of script_dev le_host "[5, 7]" seg_script]
    fifo_ring.ring_ok_axioms by blast

subsection \<open>One pass\<close>

lemma fold_segregate_rings:
  fixes contents :: "'r \<Rightarrow> mbuf list"
  assumes "ring_ok ro contents cap"
  shows "contents (control_ring (fold (segregate bo ro) ms w)) =
      contents (control_ring w) @
        take (cap (control_ring w) - length (contents (control_ring w)))
          (filter (\<lambda>m. classify_packet bo (mem w m)) ms)"
    and "contents (data_ring (fold (segregate bo ro) ms w)) =
      contents (data_ring w) @
        take (cap (data_ring w) - length (contents (data_ring w)))
          (filter (\<lambda>m. \<not> classify_packet bo (mem w m)) ms)"
proof (induction ms arbitrary: w)
  case (Cons m ms)
  note res = ring_ok.enqueue_result[OF assms] ring_ok.cap_frame[OF assms]
  have room: "take (c - n) (x # xs) = (if n < c then x # take (c - (n + 1)) xs else [])"
    for c n :: nat and x :: mbuf and xs by (simp add: take_Cons')
  case 1
  show ?case
    by (simp add: Cons.IH frame room) (auto simp: segregate_def case_prod_beta frame res)
  case 2
  show ?case
    by (simp add: Cons.IH frame room) (auto simp: segregate_def case_prod_beta frame res)
qed simp_all

lemma drain_sent:
  assumes "ring_ok ro contents cap"
  shows "\<exists>k. sent (drain_control nd ro w) = sent w @
      map (\<lambda>m. (0, 0, m, mem w m)) (take k (take 32 (contents (control_ring w))))"
    and "\<exists>k. sent (drain_data nd ro w) = sent w @
      map (\<lambda>m. (0, 0, m, mem w m)) (take k (take 32 (contents (data_ring w))))"
  unfolding drain_control_def drain_data_def case_prod_beta SEG_BURST_def
    ring_ok.dequeue_burst_result[OF assms]
  by (cases "contents (control_ring w) = []", simp_all add: eth_tx_sent, blast)
    (cases "contents (data_ring w) = []", simp_all add: eth_tx_sent, blast)

lemma drain_rings:
  assumes "ring_ok ro contents cap"
  shows "contents (control_ring (drain_control nd ro w)) = drop 32 (contents (control_ring w))"
    and "contents (data_ring (drain_data nd ro w)) = drop 32 (contents (data_ring w))"
  by (simp_all add: drain_control_def drain_data_def case_prod_beta SEG_BURST_def frame
      ring_ok.dequeue_burst_result[OF assms])

text \<open>What the rings of one pass hold after the segregation: the new packets of the class, in
  arrival order, behind the old ones, as many as there is room for.\<close>

definition queued ::
    "('r \<Rightarrow> mbuf list) \<Rightarrow> ('r \<Rightarrow> nat) \<Rightarrow> 'r \<Rightarrow> (mbuf \<Rightarrow> bool) \<Rightarrow> mbuf list \<Rightarrow> mbuf list" where
  "queued contents cap r cls bufs =
     contents r @ take (cap r - length (contents r)) (filter cls bufs)"



end
