(* ===== verification/PacketParser.thy ===== *)
theory PacketParser
  imports Ethdev
begin

text \<open>
  The header decoder \<open>parse_packet\<close>, which \<open>thread_parsing/threaded_project/parser.c\<close> and
  \<open>ports/packet_parsing/packet_parsing.c\<close> share: Ethernet, an optional VLAN tag, IPv4 with
  UDP, TCP or ICMP, IPv6 with UDP or TCP. Its result is what it prints, one constructor per
  group of \<open>printf\<close> calls, with the values printed.
\<close>

datatype out_line =
    OutEthernet "u8 list" "u8 list"       \<comment> \<open>source and destination MAC\<close>
  | OutVlan u16                           \<comment> \<open>tag control information\<close>
  | OutIPv4 "u32 list" "u32 list"         \<comment> \<open>source and destination, four numbers each\<close>
  | OutUdp u16 u16
  | OutTcp u16 u16 u32 u32 u8             \<comment> \<open>ports, sequence, acknowledgement, flags\<close>
  | OutIcmp u8 u8
  | OutIPv6 "u8 list" "u8 list"
  | OutUdp6 u16 u16
  | OutTcp6 u16 u16

definition read_bytes :: "buffer \<Rightarrow> nat \<Rightarrow> nat \<Rightarrow> u8 list" where
  "read_bytes b off n = map (\<lambda>k. b (off + k)) [0..<n]"

text \<open>
  The four numbers printed for an IPv4 address: \<open>addr & 0xFF\<close>, \<open>(addr >> 8) & 0xFF\<close> and so
  on, of the field as it lies in memory.
\<close>

definition dotted_raw :: "u32 \<Rightarrow> u32 list" where
  "dotted_raw a = [a AND 0xFF, drop_bit 8 a AND 0xFF, drop_bit 16 a AND 0xFF, drop_bit 24 a AND 0xFF]"

definition parse_ipv4 :: "byteorder \<Rightarrow> buffer \<Rightarrow> nat \<Rightarrow> out_line list" where
  "parse_ipv4 bo b offset =
     (let proto = b (offset + 9);
          l4 = offset + ihl_bytes (b offset)
      in OutIPv4 (dotted_raw (load32 b (offset + 12))) (dotted_raw (load32 b (offset + 16))) #
         (if proto = IPPROTO_UDP then
            [OutUdp (be_to_cpu_16 bo (load16 b l4)) (be_to_cpu_16 bo (load16 b (l4 + 2)))]
          else if proto = IPPROTO_TCP then
            [OutTcp (be_to_cpu_16 bo (load16 b l4)) (be_to_cpu_16 bo (load16 b (l4 + 2)))
               (be_to_cpu_32 bo (load32 b (l4 + 4))) (be_to_cpu_32 bo (load32 b (l4 + 8))) (b (l4 + 13))]
          else if proto = IPPROTO_ICMP then [OutIcmp (b l4) (b (l4 + 1))]
          else []))"

definition parse_ipv6 :: "byteorder \<Rightarrow> buffer \<Rightarrow> nat \<Rightarrow> out_line list" where
  "parse_ipv6 bo b offset =
     (let proto = b (offset + 6);
          l4 = offset + IPV6_LEN
      in OutIPv6 (read_bytes b (offset + 8) 16) (read_bytes b (offset + 24) 16) #
         (if proto = IPPROTO_UDP then
            [OutUdp6 (be_to_cpu_16 bo (load16 b l4)) (be_to_cpu_16 bo (load16 b (l4 + 2)))]
          else if proto = IPPROTO_TCP then
            [OutTcp6 (be_to_cpu_16 bo (load16 b l4)) (be_to_cpu_16 bo (load16 b (l4 + 2)))]
          else []))"

definition parse_packet :: "byteorder \<Rightarrow> buffer \<Rightarrow> out_line list" where
  "parse_packet bo b =
     (let eth_type = be_to_cpu_16 bo (ether_type b);
          tagged = (eth_type = RTE_ETHER_TYPE_VLAN);
          vlan = (if tagged then [OutVlan (be_to_cpu_16 bo (load16 b ETH_LEN))] else []);
          eth_type' = (if tagged then be_to_cpu_16 bo (load16 b (ETH_LEN + 2)) else eth_type);
          offset = (if tagged then ETH_LEN + VLAN_LEN else ETH_LEN)
      in OutEthernet (read_bytes b 6 6) (read_bytes b 0 6) # vlan @
         (if eth_type' = RTE_ETHER_TYPE_IPV4 then parse_ipv4 bo b offset
          else if eth_type' = RTE_ETHER_TYPE_IPV6 then parse_ipv6 bo b offset
          else []))"

text \<open>\<open>ports/packet_parsing/packet_parsing.c\<close> holds the same function.\<close>

definition ports_parse_packet :: "byteorder \<Rightarrow> buffer \<Rightarrow> out_line list" where
  "ports_parse_packet = parse_packet"

subsection \<open>How far it reads\<close>

definition agree :: "nat \<Rightarrow> buffer \<Rightarrow> buffer \<Rightarrow> bool" where
  "agree n b c \<longleftrightarrow> (\<forall>i<n. b i = c i)"

lemma agreeD: "agree n b c \<Longrightarrow> i < n \<Longrightarrow> b i = c i"
  by (simp add: agree_def)

lemma agree_mono: "agree n b c \<Longrightarrow> m \<le> n \<Longrightarrow> agree m b c"
  by (simp add: agree_def)

lemma agree_load16: "agree n b c \<Longrightarrow> i + 2 \<le> n \<Longrightarrow> load16 b i = load16 c i"
  by (rule load16_cong) (auto simp: agree_def)

lemma agree_load32: "agree n b c \<Longrightarrow> i + 4 \<le> n \<Longrightarrow> load32 b i = load32 c i"
  by (rule load32_cong) (auto simp: agree_def)

lemma agree_read_bytes: "agree n b c \<Longrightarrow> i + k \<le> n \<Longrightarrow> read_bytes b i k = read_bytes c i k"
  by (auto simp: agree_def read_bytes_def)

lemma parse_ipv4_agree:
  assumes "agree n b c" and "offset + 74 \<le> n"
  shows "parse_ipv4 bo b offset = parse_ipv4 bo c offset"
proof -
  have "ihl_bytes (b offset) \<le> 60" by (rule ihl_bytes_le)
  moreover have "b offset = c offset" "b (offset + 9) = c (offset + 9)"
    using assms by (auto simp: agree_def)
  moreover have "b i = c i" if "i < offset + 74" for i
    using assms that by (auto simp: agree_def)
  ultimately show ?thesis
    using assms unfolding parse_ipv4_def Let_def
    by (simp add: agree_load16[of n b c] agree_load32[of n b c])
qed

lemma parse_ipv6_agree:
  assumes "agree n b c" and "offset + 44 \<le> n"
  shows "parse_ipv6 bo b offset = parse_ipv6 bo c offset"
  using assms agreeD[OF assms(1), of "offset + 6"] unfolding parse_ipv6_def Let_def IPV6_LEN_def
  by (simp add: agree_load16[of n b c] agree_read_bytes[of n b c])

text \<open>
  C26. The decoder never reads past byte 91 of the buffer (14 bytes of Ethernet, 4 of VLAN
  tag, at most 60 of IPv4 header and 14 of TCP header), whatever the packet says about its
  own lengths: buffers that agree there are decoded alike.
\<close>

theorem parse_packet_reads_92:
  assumes "agree 92 b c"
  shows "parse_packet bo b = parse_packet bo c"
proof -
  have v4: "parse_ipv4 bo b 14 = parse_ipv4 bo c 14" "parse_ipv4 bo b 18 = parse_ipv4 bo c 18"
    using parse_ipv4_agree[OF assms] by simp_all
  have v6: "parse_ipv6 bo b 14 = parse_ipv6 bo c 14" "parse_ipv6 bo b 18 = parse_ipv6 bo c 18"
    using parse_ipv6_agree[OF assms] by simp_all
  show ?thesis
    unfolding parse_packet_def ether_type_def Let_def ETH_LEN_def VLAN_LEN_def
    using v4 v6 by (simp add: agree_load16[OF assms] agree_read_bytes[OF assms] ether_consts)
qed

definition bare_ipv4 :: buffer where
  "bare_ipv4 = buffer_of [1, 1, 1, 1, 1, 1, 2, 2, 2, 2, 2, 2, 8, 0]"

theorem parse_packet_reads_92_witness:
  "agree 92 bare_ipv4 (bare_ipv4(92 := 9)) \<and>
   parse_packet le_host bare_ipv4 = parse_packet le_host (bare_ipv4(92 := 9))"
proof -
  have "agree 92 bare_ipv4 (bare_ipv4(92 := 9))" by (simp add: agree_def)
  then show ?thesis using parse_packet_reads_92 by blast
qed

text \<open>
  The decoder never looks at the length of the packet: there are two buffers that agree
  on a whole 14-byte frame (an Ethernet header that announces IPv4 and nothing behind it)
  and are decoded differently, so what is printed for a truncated frame comes from stale
  memory behind it.
\<close>

theorem parse_packet_reads_stale_bytes:
  "\<exists>b c. agree 14 b c \<and> parse_packet le_host b \<noteq> parse_packet le_host c"
proof -
  let ?c = "bare_ipv4(26 := 10)"
  have "parse_packet le_host bare_ipv4 \<noteq> parse_packet le_host ?c"
    by code_simp
  moreover have "agree 14 bare_ipv4 ?c" by (simp add: agree_def)
  ultimately show ?thesis by blast
qed

subsection \<open>VLAN tags\<close>

lemma load16_shift: "(\<And>k. c (off' + k) = b (off + k)) \<Longrightarrow> load16 c (off' + j) = load16 b (off + j)"
  unfolding load16_def add.assoc by (simp only:)

lemma load32_shift: "(\<And>k. c (off' + k) = b (off + k)) \<Longrightarrow> load32 c (off' + j) = load32 b (off + j)"
  unfolding load32_def add.assoc by (simp only:)

lemma read_bytes_shift:
  "(\<And>k. c (off' + k) = b (off + k)) \<Longrightarrow> read_bytes c (off' + j) n = read_bytes b (off + j) n"
  unfolding read_bytes_def add.assoc by (simp only:)

lemma parse_ipv4_shift:
  assumes "\<And>k. c (off' + k) = b (off + k)"
  shows "parse_ipv4 bo c off' = parse_ipv4 bo b off"
proof -
  have z: "c off' = b off" using assms[of 0] by simp
  show ?thesis
    unfolding parse_ipv4_def Let_def add.assoc
    by (simp only: z assms load16_shift[of c off' b off, OF assms] load32_shift[of c off' b off, OF assms])
qed

lemma parse_ipv6_shift:
  assumes "\<And>k. c (off' + k) = b (off + k)"
  shows "parse_ipv6 bo c off' = parse_ipv6 bo b off"
  unfolding parse_ipv6_def Let_def add.assoc
  by (simp only: assms load16_shift[of c off' b off, OF assms] read_bytes_shift[of c off' b off, OF assms])

text \<open>A frame with an 802.1Q tag put between its addresses and its type.\<close>

definition insert_vlan :: "u16 \<Rightarrow> buffer \<Rightarrow> buffer" where
  "insert_vlan tci b =
     (\<lambda>i. if i < 12 then b i
          else if i = 12 then 0x81 else if i = 13 then 0
          else if i = 14 then ucast (drop_bit 8 tci) else if i = 15 then ucast tci
          else b (i - 4))"

text \<open>
  A VLAN tag changes nothing but the tag line: the decoder prints the Ethernet line,
  the tag's control information, and then exactly the lines it prints for the untagged
  frame, for every untagged frame and every tag.
\<close>

theorem parse_packet_vlan:
  assumes "byteorder_ok bo" and "be16 (b 12) (b 13) \<noteq> RTE_ETHER_TYPE_VLAN"
  shows "parse_packet bo (insert_vlan tci b) =
           hd (parse_packet bo b) # OutVlan tci # tl (parse_packet bo b)"
proof -
  let ?c = "insert_vlan tci b"
  note [simp] = byteorder_ok.be_to_cpu_16_load[OF assms(1)]
  have sh: "?c (18 + k) = b (14 + k)" for k by (simp add: insert_vlan_def)
  have cells: "?c 12 = 0x81" "?c 13 = 0" "?c 14 = ucast (drop_bit 8 tci)" "?c 15 = ucast tci"
      "?c 16 = b 12" "?c 17 = b 13"
    by (simp_all add: insert_vlan_def)
  have bes: "be16 (ucast (drop_bit 8 tci)) (ucast tci) = tci" "be16 0x81 0 = RTE_ETHER_TYPE_VLAN"
    by (simp_all add: be16_def le16_split) (simp add: le16_def ether_consts)
  have macs: "read_bytes ?c 0 6 = read_bytes b 0 6" "read_bytes ?c 6 6 = read_bytes b 6 6"
    by (auto simp: read_bytes_def insert_vlan_def)
  have v4: "parse_ipv4 bo ?c 18 = parse_ipv4 bo b 14" by (rule parse_ipv4_shift) (rule sh)
  have v6: "parse_ipv6 bo ?c 18 = parse_ipv6 bo b 14" by (rule parse_ipv6_shift) (rule sh)
  show ?thesis
    using assms(2) by (simp add: parse_packet_def ether_type_def header_lens cells bes macs v4 v6 Let_def)
qed

theorem parse_packet_vlan_witness:
  "byteorder_ok le_host \<and> be16 (bare_ipv4 12) (bare_ipv4 13) \<noteq> RTE_ETHER_TYPE_VLAN \<and>
   parse_packet le_host (insert_vlan 0x2005 bare_ipv4) =
     hd (parse_packet le_host bare_ipv4) # OutVlan 0x2005 # tl (parse_packet le_host bare_ipv4)"
proof -
  have "be16 (bare_ipv4 12) (bare_ipv4 13) \<noteq> RTE_ETHER_TYPE_VLAN"
    by (simp add: bare_ipv4_def buffer_of_def be16_def le16_def ether_consts)
  with parse_packet_vlan[OF le_host.byteorder_ok_axioms this] show ?thesis
    using le_host.byteorder_ok_axioms by blast
qed

end
