(* ===== verification/ThreadPipeline.thy ===== *)
theory ThreadPipeline
  imports Ring PacketParser "HOL-Library.Sublist"
begin

text \<open>
  The three-thread pipeline of \<open>thread_parsing/threaded_project\<close> (\<open>rx.c\<close>, \<open>parser.c\<close>,
  \<open>tx.c\<close>) and its second copy in \<open>nic_stats/sample\<close>, whose parser thread only forwards.
  Each thread is a step function on the shared state with a program counter of its own; a
  run interleaves the steps of the three threads in any order. A step is one access to
  shared state: a read of \<open>force_quit\<close>, a device burst, a ring operation, a free.
\<close>

definition PIPE_BURST :: nat where "PIPE_BURST = 32"

datatype rx_pc = RxStart | RxTest | RxPoll | RxEnqueue "mbuf list" | RxLimit | RxDone

datatype ps_pc = PsStart | PsTest | PsPoll | PsParse "mbuf list" "mbuf list" | PsForward "mbuf list"
  | PsFree "mbuf list" | PsDone

datatype tx_pc = TxStart | TxTest | TxPoll | TxSend "mbuf list" | TxFree "mbuf list" | TxDone

record ('n, 'r) pipe = "'n world" +
  ring_rx_to_parse :: 'r
  ring_parse_to_tx :: 'r
  rx_count :: u64
  parser_count :: u64
  tx_count :: u64
  force_quit :: bool
  printed :: "out_line list"
  rx_at :: rx_pc
  ps_at :: ps_pc
  tx_at :: tx_pc

subsection \<open>The threads\<close>

text \<open>\<open>rx_loop\<close>. The result of \<open>rte_ring_enqueue\<close> is not looked at.\<close>

definition rx_loop_step ::
    "'n ethdev \<Rightarrow> (mbuf, 'r) ring_ops \<Rightarrow> ('n, 'r) pipe \<Rightarrow> ('n, 'r) pipe option" where
  "rx_loop_step nd ro s =
     (case rx_at s of
        RxStart \<Rightarrow> Some (s\<lparr>rx_count := 0, rx_at := RxTest\<rparr>)
      | RxTest \<Rightarrow> Some (s\<lparr>rx_at := if force_quit s then RxDone else RxPoll\<rparr>)
      | RxPoll \<Rightarrow> (case eth_rx nd 0 0 PIPE_BURST s of (pkts, s) \<Rightarrow>
          if 0 < length pkts
          then Some (s\<lparr>rx_count := rx_count s + of_nat (length pkts), rx_at := RxEnqueue pkts\<rparr>)
          else Some (s\<lparr>rx_at := RxLimit\<rparr>))
      | RxEnqueue [] \<Rightarrow> Some (s\<lparr>rx_at := RxLimit\<rparr>)
      | RxEnqueue (m # ms) \<Rightarrow>
          Some (s\<lparr>ring_rx_to_parse := snd (enqueue ro m (ring_rx_to_parse s)), rx_at := RxEnqueue ms\<rparr>)
      | RxLimit \<Rightarrow>
          if 10 \<le> rx_count s then Some (s\<lparr>force_quit := True, rx_at := RxDone\<rparr>)
          else Some (s\<lparr>rx_at := RxTest\<rparr>)
      | RxDone \<Rightarrow> None)"

text \<open>\<open>parser_loop\<close> of \<open>threaded_project\<close>.\<close>

definition parser_loop_step ::
    "byteorder \<Rightarrow> (mbuf, 'r) ring_ops \<Rightarrow> ('n, 'r) pipe \<Rightarrow> ('n, 'r) pipe option" where
  "parser_loop_step bo ro s =
     (case ps_at s of
        PsStart \<Rightarrow> Some (s\<lparr>parser_count := 0, ps_at := PsTest\<rparr>)
      | PsTest \<Rightarrow> Some (s\<lparr>ps_at := if force_quit s then PsDone else PsPoll\<rparr>)
      | PsPoll \<Rightarrow> (case dequeue_burst ro PIPE_BURST (ring_rx_to_parse s) of (pkts, r) \<Rightarrow>
          Some (s\<lparr>ring_rx_to_parse := r, ps_at := PsParse pkts pkts\<rparr>))
      | PsParse (m # ms) pkts \<Rightarrow>
          Some (s\<lparr>printed := printed s @ parse_packet bo (bytes (mem s m)), ps_at := PsParse ms pkts\<rparr>)
      | PsParse [] pkts \<Rightarrow>
          if 0 < length pkts
          then Some (s\<lparr>parser_count := parser_count s + of_nat (length pkts), ps_at := PsForward pkts\<rparr>)
          else Some (s\<lparr>ps_at := PsTest\<rparr>)
      | PsForward pkts \<Rightarrow> (case enqueue_burst ro pkts (ring_parse_to_tx s) of (m, r) \<Rightarrow>
          Some (s\<lparr>ring_parse_to_tx := r, ps_at := PsFree (drop m pkts)\<rparr>))
      | PsFree [] \<Rightarrow> Some (s\<lparr>ps_at := PsTest\<rparr>)
      | PsFree (m # ms) \<Rightarrow> Some ((pktmbuf_free m s)\<lparr>ps_at := PsFree ms\<rparr>)
      | PsDone \<Rightarrow> None)"

text \<open>\<open>parser_loop\<close> of \<open>nic_stats\<close>: the same without the decoder.\<close>

definition stats_parser_loop_step ::
    "(mbuf, 'r) ring_ops \<Rightarrow> ('n, 'r) pipe \<Rightarrow> ('n, 'r) pipe option" where
  "stats_parser_loop_step ro s =
     (case ps_at s of
        PsStart \<Rightarrow> Some (s\<lparr>parser_count := 0, ps_at := PsTest\<rparr>)
      | PsTest \<Rightarrow> Some (s\<lparr>ps_at := if force_quit s then PsDone else PsPoll\<rparr>)
      | PsPoll \<Rightarrow> (case dequeue_burst ro PIPE_BURST (ring_rx_to_parse s) of (pkts, r) \<Rightarrow>
          if 0 < length pkts
          then Some (s\<lparr>ring_rx_to_parse := r, parser_count := parser_count s + of_nat (length pkts),
                       ps_at := PsForward pkts\<rparr>)
          else Some (s\<lparr>ring_rx_to_parse := r, ps_at := PsTest\<rparr>))
      | PsForward pkts \<Rightarrow> (case enqueue_burst ro pkts (ring_parse_to_tx s) of (m, r) \<Rightarrow>
          Some (s\<lparr>ring_parse_to_tx := r, ps_at := PsFree (drop m pkts)\<rparr>))
      | PsFree [] \<Rightarrow> Some (s\<lparr>ps_at := PsTest\<rparr>)
      | PsFree (m # ms) \<Rightarrow> Some ((pktmbuf_free m s)\<lparr>ps_at := PsFree ms\<rparr>)
      | _ \<Rightarrow> None)"

text \<open>\<open>tx_loop\<close>.\<close>

definition tx_loop_step ::
    "'n ethdev \<Rightarrow> (mbuf, 'r) ring_ops \<Rightarrow> ('n, 'r) pipe \<Rightarrow> ('n, 'r) pipe option" where
  "tx_loop_step nd ro s =
     (case tx_at s of
        TxStart \<Rightarrow> Some (s\<lparr>tx_count := 0, tx_at := TxTest\<rparr>)
      | TxTest \<Rightarrow> Some (s\<lparr>tx_at := if force_quit s then TxDone else TxPoll\<rparr>)
      | TxPoll \<Rightarrow> (case dequeue_burst ro PIPE_BURST (ring_parse_to_tx s) of (pkts, r) \<Rightarrow>
          if 0 < length pkts
          then Some (s\<lparr>ring_parse_to_tx := r, tx_count := tx_count s + of_nat (length pkts),
                       tx_at := TxSend pkts\<rparr>)
          else Some (s\<lparr>ring_parse_to_tx := r, tx_at := TxTest\<rparr>))
      | TxSend pkts \<Rightarrow> (case eth_tx nd 0 0 pkts s of (k, s) \<Rightarrow>
          Some (s\<lparr>tx_at := TxFree (drop k pkts)\<rparr>))
      | TxFree [] \<Rightarrow> Some (s\<lparr>tx_at := TxTest\<rparr>)
      | TxFree (m # ms) \<Rightarrow> Some ((pktmbuf_free m s)\<lparr>tx_at := TxFree ms\<rparr>)
      | TxDone \<Rightarrow> None)"

text \<open>The copies of \<open>nic_stats\<close>.\<close>

definition stats_rx_loop_step ::
    "'n ethdev \<Rightarrow> (mbuf, 'r) ring_ops \<Rightarrow> ('n, 'r) pipe \<Rightarrow> ('n, 'r) pipe option" where
  "stats_rx_loop_step = rx_loop_step"

definition stats_tx_loop_step ::
    "'n ethdev \<Rightarrow> (mbuf, 'r) ring_ops \<Rightarrow> ('n, 'r) pipe \<Rightarrow> ('n, 'r) pipe option" where
  "stats_tx_loop_step = tx_loop_step"

text \<open>
  \<open>main\<close> launches the loops on three lcores and waits for them: any of the three threads
  may take the next step.
\<close>

type_synonym ('n, 'r) thread = "('n, 'r) pipe \<Rightarrow> ('n, 'r) pipe option"

inductive pipe_step :: "('n, 'r) thread \<Rightarrow> ('n, 'r) thread \<Rightarrow> ('n, 'r) thread \<Rightarrow> ('n, 'r) pipe \<Rightarrow> ('n, 'r) pipe \<Rightarrow> bool"
  for rx ps tx where
  step_rx: "rx s = Some s' \<Longrightarrow> pipe_step rx ps tx s s'"
| step_ps: "ps s = Some s' \<Longrightarrow> pipe_step rx ps tx s s'"
| step_tx: "tx s = Some s' \<Longrightarrow> pipe_step rx ps tx s s'"

inductive_cases pipe_stepE: "pipe_step rx ps tx s s'"

definition threaded_step where
  "threaded_step nd bo ro =
     pipe_step (rx_loop_step nd ro) (parser_loop_step bo ro) (tx_loop_step nd ro)"

definition stats_step where
  "stats_step nd ro =
     pipe_step (stats_rx_loop_step nd ro) (stats_parser_loop_step ro) (stats_tx_loop_step nd ro)"

definition pipe_start :: "'n \<Rightarrow> 'r \<Rightarrow> 'r \<Rightarrow> ('n, 'r) pipe" where
  "pipe_start n r1 r2 = world.extend (start_world n)
     \<lparr>ring_rx_to_parse = r1, ring_parse_to_tx = r2, rx_count = 0, parser_count = 0, tx_count = 0,
      force_quit = False, printed = [], rx_at = RxStart, ps_at = PsStart, tx_at = TxStart\<rparr>"

definition all_done :: "('n, 'r) pipe \<Rightarrow> bool" where
  "all_done s \<longleftrightarrow> rx_at s = RxDone \<and> ps_at s = PsDone \<and> tx_at s = TxDone"

subsection \<open>The invariant\<close>

fun rx_hand :: "rx_pc \<Rightarrow> mbuf list" where
  "rx_hand (RxEnqueue ms) = ms" | "rx_hand _ = []"

fun ps_hand :: "ps_pc \<Rightarrow> mbuf list" where
  "ps_hand (PsParse todo ms) = ms" | "ps_hand (PsForward ms) = ms" | "ps_hand (PsFree ms) = ms"
| "ps_hand _ = []"

fun tx_hand :: "tx_pc \<Rightarrow> mbuf list" where
  "tx_hand (TxSend ms) = ms" | "tx_hand (TxFree ms) = ms" | "tx_hand _ = []"

text \<open>The buffers on their way, oldest first.\<close>

definition flight :: "('r \<Rightarrow> mbuf list) \<Rightarrow> ('n, 'r) pipe \<Rightarrow> mbuf list" where
  "flight contents s = tx_hand (tx_at s) @ contents (ring_parse_to_tx s) @ ps_hand (ps_at s) @
     contents (ring_rx_to_parse s) @ rx_hand (rx_at s)"

text \<open>
  The most packets \<open>rx_loop\<close> can receive: it polls again after at most 9, and one poll
  brings at most 32.
\<close>

definition rx_max :: nat where "rx_max = 41"

definition rx_inv :: "('n, 'r) pipe \<Rightarrow> bool" where
  "rx_inv s \<longleftrightarrow> rx_count s = of_nat (length (got s)) \<and> length (got s) \<le> rx_max \<and>
     (rx_at s \<in> {RxTest, RxPoll} \<longrightarrow> length (got s) \<le> 9) \<and> (rx_at s = RxStart \<longrightarrow> got s = [])"

fun ps_counted :: "ps_pc \<Rightarrow> nat" where
  "ps_counted (PsForward ms) = length ms" | "ps_counted _ = 0"

definition ps_inv :: "('r \<Rightarrow> mbuf list) \<Rightarrow> mbuf list \<Rightarrow> ('n, 'r) pipe \<Rightarrow> bool" where
  "ps_inv contents gone s \<longleftrightarrow>
     parser_count s = of_nat (length gone + length (tx_hand (tx_at s)) +
       length (contents (ring_parse_to_tx s)) + ps_counted (ps_at s)) \<and>
     (\<forall>ms. ps_at s = PsFree ms \<longrightarrow> ms = []) \<and>
     (\<forall>todo ms. ps_at s = PsParse todo ms \<longrightarrow> length todo \<le> length ms) \<and>
     (ps_at s = PsStart \<longrightarrow> gone @ tx_hand (tx_at s) @ contents (ring_parse_to_tx s) = [])"

definition tx_inv :: "mbuf list \<Rightarrow> ('n, 'r) pipe \<Rightarrow> bool" where
  "tx_inv gone s \<longleftrightarrow> tx_count s = of_nat (length gone + length (tx_hand (tx_at s))) \<and>
     (tx_at s = TxStart \<longrightarrow> gone = [])"

text \<open>
  \<open>gone\<close>: the buffers the pipeline has finished with, in order.
\<close>

definition pipe_inv_at ::
    "('r \<Rightarrow> mbuf list) \<Rightarrow> ('r \<Rightarrow> nat) \<Rightarrow> mbuf list \<Rightarrow> ('n, 'r) pipe \<Rightarrow> bool" where
  "pipe_inv_at contents cap gone s \<longleftrightarrow>
     got s = gone @ flight contents s \<and> subseq (sent_bufs s) gone \<and> mset gone = disposed s \<and>
     rx_max \<le> cap (ring_rx_to_parse s) \<and> rx_max \<le> cap (ring_parse_to_tx s) \<and>
     rx_inv s \<and> ps_inv contents gone s \<and> tx_inv gone s"

definition pipe_inv where
  "pipe_inv contents cap s \<longleftrightarrow> (\<exists>gone. pipe_inv_at contents cap gone s)"

text \<open>A thread that keeps it.\<close>

locale pipe_thread =
  fixes th :: "('n, 'r) thread" and contents :: "'r \<Rightarrow> mbuf list" and cap :: "'r \<Rightarrow> nat"
  assumes keeps: "pipe_inv contents cap s \<Longrightarrow> th s = Some s' \<Longrightarrow> pipe_inv contents cap s'"


lemma pipe_frame [frame]:
  fixes s :: "('n, 'r) pipe"
  shows "disposed (s\<lparr>ring_rx_to_parse := r\<rparr>) = disposed s" "disposed (s\<lparr>ring_parse_to_tx := r\<rparr>) = disposed s"
  "disposed (s\<lparr>rx_count := c\<rparr>) = disposed s" "disposed (s\<lparr>parser_count := c\<rparr>) = disposed s"
  "disposed (s\<lparr>tx_count := c\<rparr>) = disposed s" "disposed (s\<lparr>force_quit := b\<rparr>) = disposed s"
  "disposed (s\<lparr>printed := out\<rparr>) = disposed s" "disposed (s\<lparr>rx_at := x\<rparr>) = disposed s"
  "disposed (s\<lparr>ps_at := y\<rparr>) = disposed s" "disposed (s\<lparr>tx_at := z\<rparr>) = disposed s"
  "sent_bufs (s\<lparr>ring_rx_to_parse := r\<rparr>) = sent_bufs s" "sent_bufs (s\<lparr>ring_parse_to_tx := r\<rparr>) = sent_bufs s"
  "sent_bufs (s\<lparr>rx_count := c\<rparr>) = sent_bufs s" "sent_bufs (s\<lparr>parser_count := c\<rparr>) = sent_bufs s"
  "sent_bufs (s\<lparr>tx_count := c\<rparr>) = sent_bufs s" "sent_bufs (s\<lparr>force_quit := b\<rparr>) = sent_bufs s"
  "sent_bufs (s\<lparr>printed := out\<rparr>) = sent_bufs s" "sent_bufs (s\<lparr>rx_at := x\<rparr>) = sent_bufs s"
  "sent_bufs (s\<lparr>ps_at := y\<rparr>) = sent_bufs s" "sent_bufs (s\<lparr>tx_at := z\<rparr>) = sent_bufs s"
  by (simp_all add: disposed_def sent_bufs_def)

lemma pipe_eth_frame [frame]:
  fixes s :: "('n, 'r) pipe"
  shows "pipe.more (snd (eth_rx nd p q n s)) = pipe.more s"
  "ring_rx_to_parse (snd (eth_rx nd p q n s)) = ring_rx_to_parse s"
  "ring_parse_to_tx (snd (eth_rx nd p q n s)) = ring_parse_to_tx s"
  "rx_count (snd (eth_rx nd p q n s)) = rx_count s"
  "parser_count (snd (eth_rx nd p q n s)) = parser_count s"
  "tx_count (snd (eth_rx nd p q n s)) = tx_count s"
  "force_quit (snd (eth_rx nd p q n s)) = force_quit s"
  "ps_at (snd (eth_rx nd p q n s)) = ps_at s" "tx_at (snd (eth_rx nd p q n s)) = tx_at s"
  "rx_at (snd (eth_rx nd p q n s)) = rx_at s"
  "ring_rx_to_parse (snd (eth_tx nd p q ms s)) = ring_rx_to_parse s"
  "ring_parse_to_tx (snd (eth_tx nd p q ms s)) = ring_parse_to_tx s"
  "rx_count (snd (eth_tx nd p q ms s)) = rx_count s"
  "parser_count (snd (eth_tx nd p q ms s)) = parser_count s"
  "tx_count (snd (eth_tx nd p q ms s)) = tx_count s"
  "force_quit (snd (eth_tx nd p q ms s)) = force_quit s"
  "rx_at (snd (eth_tx nd p q ms s)) = rx_at s" "ps_at (snd (eth_tx nd p q ms s)) = ps_at s"
  "tx_at (snd (eth_tx nd p q ms s)) = tx_at s"
  "ring_rx_to_parse (pktmbuf_free m s) = ring_rx_to_parse s"
  "ring_parse_to_tx (pktmbuf_free m s) = ring_parse_to_tx s"
  "rx_count (pktmbuf_free m s) = rx_count s" "parser_count (pktmbuf_free m s) = parser_count s"
  "tx_count (pktmbuf_free m s) = tx_count s" "force_quit (pktmbuf_free m s) = force_quit s"
  "rx_at (pktmbuf_free m s) = rx_at s" "ps_at (pktmbuf_free m s) = ps_at s"
  "tx_at (pktmbuf_free m s) = tx_at s"
  by (simp_all add: eth_rx_def eth_tx_def pktmbuf_free_def split: prod.split)

lemma sent_bufs_frame [frame]:
  "sent_bufs (snd (eth_rx nd p q n w)) = sent_bufs w" "sent_bufs (pktmbuf_free m w) = sent_bufs w"
  "sent_bufs (snd (eth_tx nd p q ms w)) = sent_bufs w @ take (fst (eth_tx nd p q ms w)) ms"
  by (simp_all add: sent_bufs_def frame eth_tx_sent comp_def)

text \<open>What the invariant of a thread does not depend on.\<close>

lemma inv_frame [frame]:
  "rx_inv (s\<lparr>ring_rx_to_parse := r\<rparr>) = rx_inv s" "rx_inv (s\<lparr>ring_parse_to_tx := r\<rparr>) = rx_inv s"
  "rx_inv (s\<lparr>parser_count := c\<rparr>) = rx_inv s" "rx_inv (s\<lparr>tx_count := c\<rparr>) = rx_inv s"
  "rx_inv (s\<lparr>printed := out\<rparr>) = rx_inv s" "rx_inv (s\<lparr>ps_at := y\<rparr>) = rx_inv s"
  "rx_inv (s\<lparr>tx_at := z\<rparr>) = rx_inv s" "rx_inv (pktmbuf_free m s) = rx_inv s"
  "rx_inv (snd (eth_tx nd p q ms s)) = rx_inv s"
  "tx_inv gone (s\<lparr>ring_rx_to_parse := r\<rparr>) = tx_inv gone s"
  "tx_inv gone (s\<lparr>ring_parse_to_tx := r\<rparr>) = tx_inv gone s"
  "tx_inv gone (s\<lparr>rx_count := c\<rparr>) = tx_inv gone s" "tx_inv gone (s\<lparr>parser_count := c\<rparr>) = tx_inv gone s"
  "tx_inv gone (s\<lparr>force_quit := b\<rparr>) = tx_inv gone s" "tx_inv gone (s\<lparr>printed := out\<rparr>) = tx_inv gone s"
  "tx_inv gone (s\<lparr>rx_at := x\<rparr>) = tx_inv gone s" "tx_inv gone (s\<lparr>ps_at := y\<rparr>) = tx_inv gone s"
  "tx_inv gone (snd (eth_rx nd p q n s)) = tx_inv gone s"
  "ps_inv contents gone (s\<lparr>ring_rx_to_parse := r\<rparr>) = ps_inv contents gone s"
  "ps_inv contents gone (s\<lparr>rx_count := c\<rparr>) = ps_inv contents gone s"
  "ps_inv contents gone (s\<lparr>tx_count := c\<rparr>) = ps_inv contents gone s"
  "ps_inv contents gone (s\<lparr>force_quit := b\<rparr>) = ps_inv contents gone s"
  "ps_inv contents gone (s\<lparr>printed := out\<rparr>) = ps_inv contents gone s"
  "ps_inv contents gone (s\<lparr>rx_at := x\<rparr>) = ps_inv contents gone s"
  "ps_inv contents gone (snd (eth_rx nd p q n s)) = ps_inv contents gone s"
  by (simp_all add: rx_inv_def tx_inv_def ps_inv_def frame)

lemmas pipe_inv_defs = pipe_inv_at_def flight_def

lemma take_drop_append: "take n xs @ drop n xs @ ys = xs @ ys"
  by simp

lemma words_split:
  "x + of_nat (length (take n xs)) + of_nat (length (drop n xs)) = (x + of_nat (length xs) :: u64)"
proof -
  have "length (take n xs) + length (drop n xs) = length xs" by simp
  then show ?thesis by (metis add.assoc of_nat_add)
qed

lemma flight_bound:
  assumes "pipe_inv_at contents cap gone s"
  shows "length (tx_hand (tx_at s)) + length (contents (ring_parse_to_tx s)) +
    length (ps_hand (ps_at s)) + length (contents (ring_rx_to_parse s)) +
    length (rx_hand (rx_at s)) \<le> rx_max"
proof -
  have "length (got s) = length gone + length (flight contents s)" "length (got s) \<le> rx_max"
    using assms unfolding pipe_inv_at_def rx_inv_def by (metis length_append)+
  then show ?thesis by (simp add: flight_def)
qed

lemma rx_keeps:
  assumes "ring_ok ro contents cap" and "ethdev_ok nd"
    and inv: "pipe_inv_at contents cap gone s" and step: "rx_loop_step nd ro s = Some s'"
  shows "pipe_inv_at contents cap gone s'"
proof -
  note res = ring_ok.enqueue_result[OF assms(1)] ring_ok.cap_frame[OF assms(1)]
  have len: "length (fst (eth_rx nd 0 0 32 s)) \<le> 32" by (rule ethdev_ok.eth_rx_length[OF assms(2)])
  have c: "10 \<le> (of_nat n :: u64) \<longleftrightarrow> 10 \<le> n" if "n \<le> 41" for n
    using that by (simp add: word_le_nat_alt unat_of_nat)
  show ?thesis
  proof (cases "rx_at s")
    case (RxEnqueue ms)
    show ?thesis
    proof (cases ms)
      case (Cons m ms')
      have "length (contents (ring_rx_to_parse s)) < cap (ring_rx_to_parse s)"
        using flight_bound[OF inv] inv RxEnqueue Cons by (simp add: pipe_inv_at_def)
      then show ?thesis
        using inv step RxEnqueue Cons
        by (auto simp: rx_loop_step_def pipe_inv_defs rx_inv_def res frame)
    qed (use inv step RxEnqueue in \<open>auto simp: rx_loop_step_def pipe_inv_defs rx_inv_def frame\<close>)
  next
    case RxPoll
    then show ?thesis
      using inv step len
      by (auto simp: rx_loop_step_def pipe_inv_defs rx_inv_def PIPE_BURST_def rx_max_def case_prod_beta
          frame ledger split: if_splits)
  next
    case RxLimit
    then show ?thesis
      using inv step c[of "length (got s)"]
      by (auto simp: rx_loop_step_def pipe_inv_defs rx_inv_def rx_max_def frame split: if_splits)
  qed (use inv step in \<open>auto simp: rx_loop_step_def pipe_inv_defs rx_inv_def frame split: if_splits\<close>)
qed

lemma ps_forward_keeps:
  assumes "ring_ok ro contents cap" and inv: "pipe_inv_at contents cap gone s"
    and "ps_at s = PsForward pkts"
  shows "pipe_inv_at contents cap gone
    (s\<lparr>ring_parse_to_tx := snd (enqueue_burst ro pkts (ring_parse_to_tx s)),
       ps_at := PsFree (drop (fst (enqueue_burst ro pkts (ring_parse_to_tx s))) pkts)\<rparr>)"
proof -
  note res = ring_ok.enqueue_burst_result[OF assms(1)] ring_ok.cap_frame[OF assms(1)]
  have room: "rx_max \<le> cap (ring_parse_to_tx s)" using inv by (simp add: pipe_inv_at_def)
  have "length pkts \<le> cap (ring_parse_to_tx s) - length (contents (ring_parse_to_tx s))"
    using flight_bound[OF inv] room assms(3) by simp
  then have "take (cap (ring_parse_to_tx s) - length (contents (ring_parse_to_tx s))) pkts = pkts"
    "fst (enqueue_burst ro pkts (ring_parse_to_tx s)) = length pkts" by (simp_all add: res)
  then show ?thesis
    using inv assms(3) by (simp add: pipe_inv_defs ps_inv_def res frame)
qed

lemma ps_free_keeps:
  assumes "pipe_inv_at contents cap gone s" and "ps_at s = PsFree ms"
  shows "ms = []" and "pipe_inv_at contents cap gone (s\<lparr>ps_at := PsTest\<rparr>)"
  using assms by (auto simp: pipe_inv_defs ps_inv_def frame)

lemma ps_start_keeps:
  "pipe_inv_at contents cap gone s \<Longrightarrow> ps_at s = PsStart \<Longrightarrow>
   pipe_inv_at contents cap gone (s\<lparr>parser_count := 0, ps_at := PsTest\<rparr>)"
  by (auto simp add: pipe_inv_defs ps_inv_def frame)

lemma ps_test_keeps:
  "pipe_inv_at contents cap gone s \<Longrightarrow> ps_at s = PsTest \<Longrightarrow> ps_hand y = [] \<Longrightarrow> ps_counted y = 0 \<Longrightarrow>
   y \<in> {PsPoll, PsDone} \<Longrightarrow> pipe_inv_at contents cap gone (s\<lparr>ps_at := y\<rparr>)"
  by (auto simp: pipe_inv_defs ps_inv_def frame)

lemma parser_keeps:
  assumes "ring_ok ro contents cap" and inv: "pipe_inv_at contents cap gone s"
    and step: "parser_loop_step bo ro s = Some s'"
  shows "pipe_inv_at contents cap gone s'"
proof (cases "ps_at s")
  case (PsForward pkts)
  then show ?thesis
    using ps_forward_keeps[OF assms(1) inv] step
    by (auto simp: parser_loop_step_def case_prod_beta)
next
  case (PsParse todo pkts)
  then show ?thesis
    using inv step
    by (cases todo; cases pkts) (auto simp: parser_loop_step_def pipe_inv_defs ps_inv_def frame)
next
  case (PsFree ms)
  then show ?thesis
    using ps_free_keeps[OF inv PsFree] step by (simp add: parser_loop_step_def)
next
  case PsPoll
  then have "s' = s\<lparr>ring_rx_to_parse := snd (dequeue_burst ro PIPE_BURST (ring_rx_to_parse s)),
      ps_at := PsParse (take PIPE_BURST (contents (ring_rx_to_parse s)))
                 (take PIPE_BURST (contents (ring_rx_to_parse s)))\<rparr>"
    using step ring_ok.dequeue_burst_result[OF assms(1)]
    by (simp add: parser_loop_step_def case_prod_beta)
  then show ?thesis
    using inv PsPoll ring_ok.dequeue_burst_result[OF assms(1)] ring_ok.cap_frame[OF assms(1)]
    by (simp add: pipe_inv_defs ps_inv_def take_drop_append frame)
qed (use ps_start_keeps[OF inv] ps_test_keeps[OF inv] step in
    \<open>auto simp: parser_loop_step_def split: if_splits\<close>)

lemma stats_parser_keeps:
  assumes "ring_ok ro contents cap" and inv: "pipe_inv_at contents cap gone s"
    and step: "stats_parser_loop_step ro s = Some s'"
  shows "pipe_inv_at contents cap gone s'"
proof (cases "ps_at s")
  case (PsForward pkts)
  then show ?thesis
    using ps_forward_keeps[OF assms(1) inv] step
    by (auto simp: stats_parser_loop_step_def case_prod_beta)
next
  case (PsFree ms)
  then show ?thesis
    using ps_free_keeps[OF inv PsFree] step by (simp add: stats_parser_loop_step_def)
next
  case PsPoll
  let ?pkts = "take PIPE_BURST (contents (ring_rx_to_parse s))"
    and ?r = "snd (dequeue_burst ro PIPE_BURST (ring_rx_to_parse s))"
  note res = ring_ok.dequeue_burst_result[OF assms(1)] ring_ok.cap_frame[OF assms(1)]
  show ?thesis
  proof (cases "?pkts = []")
    case True
    then have "s' = s\<lparr>ring_rx_to_parse := ?r, ps_at := PsTest\<rparr>"
      using step PsPoll res by (simp add: stats_parser_loop_step_def case_prod_beta)
    moreover have "drop PIPE_BURST (contents (ring_rx_to_parse s)) = contents (ring_rx_to_parse s)"
      using True by (metis append_take_drop_id self_append_conv2)
    ultimately show ?thesis
      using inv PsPoll by (simp add: pipe_inv_defs ps_inv_def res frame)
  next
    case False
    then have "s' = s\<lparr>ring_rx_to_parse := ?r, parser_count := parser_count s + of_nat (length ?pkts),
        ps_at := PsForward ?pkts\<rparr>"
      using step PsPoll res by (simp add: stats_parser_loop_step_def case_prod_beta)
    then show ?thesis
      using inv PsPoll by (simp add: pipe_inv_defs ps_inv_def res take_drop_append frame del: length_take)
  qed
qed (use ps_start_keeps[OF inv] ps_test_keeps[OF inv] step in
    \<open>auto simp: stats_parser_loop_step_def split: if_splits\<close>)

lemma tx_keeps:
  assumes "ring_ok ro contents cap" and "ethdev_ok nd" and inv: "pipe_inv_at contents cap gone s"
    and step: "tx_loop_step nd ro s = Some s'"
  shows "\<exists>gone'. pipe_inv_at contents cap gone' s'"
proof (cases "tx_at s")
  case (TxSend pkts)
  let ?k = "fst (eth_tx nd 0 0 pkts s)"
  have "?k \<le> length pkts" by (rule ethdev_ok.eth_tx_le[OF assms(2)])
  then have "length (take ?k pkts) + length (drop ?k pkts) = length pkts" by simp
  have "s' = (snd (eth_tx nd 0 0 pkts s))\<lparr>tx_at := TxFree (drop ?k pkts)\<rparr>"
    using step TxSend by (simp add: tx_loop_step_def case_prod_beta)
  then have "pipe_inv_at contents cap (gone @ take ?k pkts) s'"
    using inv TxSend
    by (simp add: pipe_inv_defs ps_inv_def tx_inv_def take_drop_append words_split frame ledger
        list_emb_append_mono del: length_take length_drop)
  then show ?thesis ..
next
  case (TxFree ms)
  show ?thesis
  proof (cases ms)
    case (Cons m ms')
    then have "s' = (pktmbuf_free m s)\<lparr>tx_at := TxFree ms'\<rparr>"
      using step TxFree by (simp add: tx_loop_step_def)
    then have "pipe_inv_at contents cap (gone @ [m]) s'"
      using inv TxFree Cons
        by (simp add: pipe_inv_defs ps_inv_def tx_inv_def frame ledger list_emb_prefix)
    then show ?thesis ..
  next
    case Nil
    then have "s' = s\<lparr>tx_at := TxTest\<rparr>" using step TxFree by (simp add: tx_loop_step_def)
    then have "pipe_inv_at contents cap gone s'"
      using inv TxFree Nil by (simp add: pipe_inv_defs ps_inv_def tx_inv_def frame)
    then show ?thesis ..
  qed
next
  case TxPoll
  let ?q = "contents (ring_parse_to_tx s)"
  let ?pkts = "take PIPE_BURST ?q" and ?r = "snd (dequeue_burst ro PIPE_BURST (ring_parse_to_tx s))"
  note res = ring_ok.dequeue_burst_result[OF assms(1)] ring_ok.cap_frame[OF assms(1)]
  have "pipe_inv_at contents cap gone s'"
  proof (cases "?pkts = []")
    case True
    then have "s' = s\<lparr>ring_parse_to_tx := ?r, tx_at := TxTest\<rparr>"
      using step TxPoll res by (simp add: tx_loop_step_def case_prod_beta)
    moreover have "drop PIPE_BURST ?q = ?q"
      using True by (metis append_take_drop_id self_append_conv2)
    ultimately show ?thesis
      using inv TxPoll by (simp add: pipe_inv_defs ps_inv_def tx_inv_def res frame)
  next
    case False
    then have "s' = s\<lparr>ring_parse_to_tx := ?r, tx_count := tx_count s + of_nat (length ?pkts),
        tx_at := TxSend ?pkts\<rparr>"
      using step TxPoll res by (simp add: tx_loop_step_def case_prod_beta)
    then show ?thesis
      using inv TxPoll by (simp add: pipe_inv_defs ps_inv_def tx_inv_def res take_drop_append words_split
          frame del: length_take length_drop)
  qed
  then show ?thesis ..
qed (use inv step in \<open>auto simp: tx_loop_step_def pipe_inv_defs ps_inv_def tx_inv_def frame
      split: if_splits intro!: exI[of _ gone]\<close>)

text \<open>The five threads of the two programs keep the invariant.\<close>

lemma threads_keep:
  assumes "ring_ok ro contents cap" and "ethdev_ok nd"
  shows "pipe_thread (rx_loop_step nd ro) contents cap" and "pipe_thread (parser_loop_step bo ro) contents cap"
    and "pipe_thread (stats_parser_loop_step ro) contents cap" and "pipe_thread (tx_loop_step nd ro) contents cap"
  using rx_keeps[OF assms] parser_keeps[OF assms(1)] stats_parser_keeps[OF assms(1)] tx_keeps[OF assms]
  by (unfold_locales; unfold pipe_inv_def; blast)+

interpretation rx_fifo: pipe_thread "rx_loop_step script_dev fifo_ring" snd fst
  by (rule threads_keep(1)[OF fifo_ring.ring_ok_axioms script_dev.ethdev_ok_axioms])

interpretation parser_fifo: pipe_thread "parser_loop_step bo fifo_ring" snd fst
  by (rule threads_keep(2)[OF fifo_ring.ring_ok_axioms script_dev.ethdev_ok_axioms])

interpretation stats_parser_fifo: pipe_thread "stats_parser_loop_step fifo_ring" snd fst
  by (rule threads_keep(3)[OF fifo_ring.ring_ok_axioms script_dev.ethdev_ok_axioms])

interpretation tx_fifo: pipe_thread "tx_loop_step script_dev fifo_ring" snd fst
  by (rule threads_keep(4)[OF fifo_ring.ring_ok_axioms script_dev.ethdev_ok_axioms])

lemma pipe_step_keeps:
  assumes "pipe_thread rx contents cap" and "pipe_thread ps contents cap" and "pipe_thread tx contents cap"
    and "pipe_step rx ps tx s s'" and "pipe_inv contents cap s"
  shows "pipe_inv contents cap s'"
  using assms(4) by (cases rule: pipe_stepE) (blast intro: pipe_thread.keeps assms)+

lemma pipe_reach_keeps:
  assumes "pipe_thread rx contents cap" and "pipe_thread ps contents cap" and "pipe_thread tx contents cap"
    and "(pipe_step rx ps tx)\<^sup>*\<^sup>* s s'" and "pipe_inv contents cap s"
  shows "pipe_inv contents cap s'"
  using assms(4,5) by (induction rule: rtranclp_induct) (blast intro: pipe_step_keeps[OF assms(1-3)])+

lemma pipe_start_sel [simp]:
  "rx_at (pipe_start n r1 r2) = RxStart" "ps_at (pipe_start n r1 r2) = PsStart"
  "tx_at (pipe_start n r1 r2) = TxStart" "got (pipe_start n r1 r2) = []"
  "rx_count (pipe_start n r1 r2) = 0" "parser_count (pipe_start n r1 r2) = 0"
  "tx_count (pipe_start n r1 r2) = 0" "ring_rx_to_parse (pipe_start n r1 r2) = r1"
  "ring_parse_to_tx (pipe_start n r1 r2) = r2" "force_quit (pipe_start n r1 r2) = False"
  "nic (pipe_start n r1 r2) = n" "sent (pipe_start n r1 r2) = []" "freed (pipe_start n r1 r2) = []"
  by (simp_all add: pipe_start_def start_world_def world.defs)

lemma pipe_start_inv:
  assumes "contents r1 = []" and "contents r2 = []" and "41 \<le> cap r1" and "41 \<le> cap r2"
  shows "pipe_inv contents cap (pipe_start n r1 r2)"
  using assms unfolding pipe_inv_def
  by (intro exI[of _ "[]"]) (simp add: pipe_inv_defs rx_inv_def ps_inv_def tx_inv_def rx_max_def
      disposed_def sent_bufs_def)

text \<open>A state that one of the two programs can reach from its start with empty rings.\<close>

definition pipeline_reaches ::
    "'n ethdev \<Rightarrow> byteorder \<Rightarrow> (mbuf, 'r) ring_ops \<Rightarrow> ('n, 'r) pipe \<Rightarrow> ('n, 'r) pipe \<Rightarrow> bool" where
  "pipeline_reaches nd bo ro s s' \<longleftrightarrow>
     (threaded_step nd bo ro)\<^sup>*\<^sup>* s s' \<or> (stats_step nd ro)\<^sup>*\<^sup>* s s'"

lemma reaches_inv:
  assumes "ring_ok ro contents cap" and "ethdev_ok nd" and "pipe_inv contents cap s"
    and "pipeline_reaches nd bo ro s s'"
  shows "pipe_inv contents cap s'"
  using assms(4) pipe_reach_keeps[OF threads_keep(1,2,4)[OF assms(1,2)] _ assms(3)]
    pipe_reach_keeps[OF threads_keep(1,3,4)[OF assms(1,2)] _ assms(3)]
  unfolding pipeline_reaches_def threaded_step_def stats_step_def stats_rx_loop_step_def
    stats_tx_loop_step_def by blast

text \<open>
  C1. In every state that either program can reach, whatever the interleaving of the
  threads, the traffic and the driver: the buffers received so far are, in order, those the
  pipeline is done with and those in flight, so none is lost, duplicated or reordered inside
  it; those done with have each been transmitted or freed exactly once, the transmitted ones
  in arrival order. In particular the unchecked enqueue of \<open>rx_loop\<close> never fails, since at
  most 41 packets are ever received and a ring of 1024 has room for 1023.
\<close>

theorem pipeline_in_order:
  assumes "ring_ok ro contents cap" and "ethdev_ok nd"
    and "contents r1 = []" and "contents r2 = []" and "41 \<le> cap r1" and "41 \<le> cap r2"
    and "pipeline_reaches nd bo ro (pipe_start n r1 r2) s"
  shows "\<exists>gone. got s = gone @ flight contents s \<and> length (got s) \<le> 41 \<and>
           mset gone = mset (sent_bufs s) + mset (freed s) \<and> subseq (sent_bufs s) gone"
  using reaches_inv[OF assms(1,2) pipe_start_inv[of contents r1 r2, OF assms(3-6)] assms(7)]
  by (auto simp: pipe_inv_def pipe_inv_at_def rx_inv_def rx_max_def disposed_def)

text \<open>
  The three totals that \<open>main\<close> prints are consistent in every reachable state: the
  transmitter never counted more packets than the parser, the parser never more than the
  receiver, and the receiver's count is the number of packets received.
\<close>

theorem pipeline_counters:
  assumes "ring_ok ro contents cap" and "ethdev_ok nd"
    and "contents r1 = []" and "contents r2 = []" and "41 \<le> cap r1" and "41 \<le> cap r2"
    and "pipeline_reaches nd bo ro (pipe_start n r1 r2) s"
  shows "tx_count s \<le> parser_count s \<and> parser_count s \<le> rx_count s \<and>
         unat (rx_count s) = length (got s)"
proof -
  obtain gone where inv: "pipe_inv_at contents cap gone s"
    using reaches_inv[OF assms(1,2) pipe_start_inv[of contents r1 r2, OF assms(3-6)] assms(7)]
    by (auto simp: pipe_inv_def)
  let ?t = "length gone + length (tx_hand (tx_at s))"
  let ?p = "?t + length (contents (ring_parse_to_tx s)) + ps_counted (ps_at s)"
  have c: "tx_count s = of_nat ?t" "parser_count s = of_nat ?p" "rx_count s = of_nat (length (got s))"
    using inv by (auto simp: pipe_inv_at_def rx_inv_def ps_inv_def tx_inv_def)
  have "ps_counted (ps_at s) \<le> length (ps_hand (ps_at s))" by (cases "ps_at s") auto
  moreover have "length (got s) = length gone + length (flight contents s)" "length (got s) \<le> 41"
    using inv unfolding pipe_inv_at_def rx_inv_def rx_max_def by (metis length_append)+
  ultimately have "?t \<le> ?p" "?p \<le> length (got s)" "length (got s) \<le> 41"
    by (simp_all add: flight_def)
  then show ?thesis unfolding c by (simp add: word_le_nat_alt unat_of_nat del: of_nat_add)
qed

subsection \<open>Runs\<close>

datatype thread_id = Rx | Ps | Tx

definition run_thread :: "('n, 'r) thread \<Rightarrow> ('n, 'r) pipe \<Rightarrow> ('n, 'r) pipe" where
  "run_thread th s = (case th s of None \<Rightarrow> s | Some s' \<Rightarrow> s')"

fun run_sched ::
    "('n, 'r) thread \<Rightarrow> ('n, 'r) thread \<Rightarrow> ('n, 'r) thread \<Rightarrow> thread_id list \<Rightarrow> ('n, 'r) pipe \<Rightarrow> ('n, 'r) pipe" where
  "run_sched rx ps tx [] s = s"
| "run_sched rx ps tx (t # ts) s =
     run_sched rx ps tx ts (run_thread (case t of Rx \<Rightarrow> rx | Ps \<Rightarrow> ps | Tx \<Rightarrow> tx) s)"

lemma run_sched_reaches: "(pipe_step rx ps tx)\<^sup>*\<^sup>* s (run_sched rx ps tx ts s)"
proof (induction ts arbitrary: s)
  case (Cons t ts)
  have "(pipe_step rx ps tx)\<^sup>*\<^sup>* s (run_thread (case t of Rx \<Rightarrow> rx | Ps \<Rightarrow> ps | Tx \<Rightarrow> tx) s)"
    by (cases t) (auto simp: run_thread_def split: option.split intro: pipe_step.intros)
  with Cons.IH show ?case by (simp) (meson rtranclp_trans)
qed simp

definition demo_frames :: "nat \<Rightarrow> packet list" where
  "demo_frames n = replicate n \<lparr>bytes = bare_ipv4, data_len = 60, pkt_len = 60\<rparr>"

definition demo_pipe :: "nat \<Rightarrow> (script, mbuf fifo) pipe" where
  "demo_pipe n = pipe_start \<lparr>next_addr = 1, bursts = [demo_frames n], tx_caps = [1]\<rparr>
     (new_ring 1024) (new_ring 1024)"

definition run_threaded :: "thread_id list \<Rightarrow> (script, mbuf fifo) pipe \<Rightarrow> (script, mbuf fifo) pipe" where
  "run_threaded = run_sched (rx_loop_step script_dev fifo_ring) (parser_loop_step le_host fifo_ring)
     (tx_loop_step script_dev fifo_ring)"

lemma run_threaded_reaches: "pipeline_reaches script_dev le_host fifo_ring s (run_threaded ts s)"
  unfolding pipeline_reaches_def threaded_step_def run_threaded_def using run_sched_reaches by blast

text \<open>Two packets on their way through, one refused by the driver.\<close>

definition demo_sched :: "thread_id list" where
  "demo_sched = [Rx, Rx, Rx, Rx, Rx, Ps, Ps, Ps, Ps, Ps, Ps, Ps, Tx, Tx, Tx, Tx, Tx]"

lemma new_ring_ok: "snd (new_ring 1024) = []" "41 \<le> fst (new_ring 1024 :: mbuf fifo)"
  by (simp_all add: new_ring_def)

theorem pipeline_in_order_witness:
  "pipeline_reaches script_dev le_host fifo_ring (demo_pipe 2) (run_threaded demo_sched (demo_pipe 2)) \<and>
   (\<exists>gone. got (run_threaded demo_sched (demo_pipe 2)) =
             gone @ flight snd (run_threaded demo_sched (demo_pipe 2)) \<and>
           subseq (sent_bufs (run_threaded demo_sched (demo_pipe 2))) gone)"
  using pipeline_in_order[OF fifo_ring.ring_ok_axioms script_dev.ethdev_ok_axioms
      new_ring_ok(1) new_ring_ok(1) new_ring_ok(2) new_ring_ok(2)
      run_threaded_reaches[of "demo_pipe 2" demo_sched, unfolded demo_pipe_def]]
    run_threaded_reaches unfolding demo_pipe_def by blast

theorem pipeline_counters_witness:
  "pipeline_reaches script_dev le_host fifo_ring (demo_pipe 2) (run_threaded demo_sched (demo_pipe 2)) \<and>
   parser_count (run_threaded demo_sched (demo_pipe 2)) \<le> rx_count (run_threaded demo_sched (demo_pipe 2))"
  using pipeline_counters[OF fifo_ring.ring_ok_axioms script_dev.ethdev_ok_axioms
      new_ring_ok(1) new_ring_ok(1) new_ring_ok(2) new_ring_ok(2)
      run_threaded_reaches[of "demo_pipe 2" demo_sched, unfolded demo_pipe_def]]
    run_threaded_reaches unfolding demo_pipe_def by blast

lemma demo_run: "sent_bufs (run_threaded demo_sched (demo_pipe 2)) = [1]"
  "freed (run_threaded demo_sched (demo_pipe 2)) = [2]"
  "unat (tx_count (run_threaded demo_sched (demo_pipe 2))) = 2"
  by code_simp+

subsection \<open>Stopping\<close>

text \<open>How many steps a thread can still take once \<open>force_quit\<close> is set.\<close>

fun rx_left :: "rx_pc \<Rightarrow> nat" where
  "rx_left RxStart = 2" | "rx_left RxTest = 1" | "rx_left RxPoll = 36"
| "rx_left (RxEnqueue ms) = 3 + length ms" | "rx_left RxLimit = 2" | "rx_left RxDone = 0"

fun ps_left :: "ps_pc \<Rightarrow> nat" where
  "ps_left PsStart = 2" | "ps_left PsTest = 1" | "ps_left PsPoll = 69"
| "ps_left (PsParse todo ms) = 4 + length todo + length ms" | "ps_left (PsForward ms) = 3 + length ms"
| "ps_left (PsFree ms) = 2 + length ms" | "ps_left PsDone = 0"

fun tx_left :: "tx_pc \<Rightarrow> nat" where
  "tx_left TxStart = 2" | "tx_left TxTest = 1" | "tx_left TxPoll = 36"
| "tx_left (TxSend ms) = 3 + length ms" | "tx_left (TxFree ms) = 2 + length ms" | "tx_left TxDone = 0"

definition steps_left :: "('n, 'r) pipe \<Rightarrow> nat" where
  "steps_left s = rx_left (rx_at s) + ps_left (ps_at s) + tx_left (tx_at s)"

lemma rx_stops:
  assumes "ethdev_ok nd" and "force_quit s" and "rx_loop_step nd ro s = Some s'"
  shows "force_quit s' \<and> steps_left s' < steps_left s"
  using assms(2,3) ethdev_ok.eth_rx_length[OF assms(1), of 0 0 32 s]
  by (cases "rx_at s"; cases "rx_hand (rx_at s)")
    (auto simp: rx_loop_step_def steps_left_def case_prod_beta PIPE_BURST_def frame split: if_splits)

lemma parser_stops:
  assumes "ring_ok ro contents cap" and "force_quit s" and "parser_loop_step bo ro s = Some s'"
  shows "force_quit s' \<and> steps_left s' < steps_left s"
proof (cases "ps_at s")
  case (PsParse todo ms)
  then show ?thesis
    using assms(2,3) by (cases todo; cases ms) (auto simp: parser_loop_step_def steps_left_def frame)
next
  case (PsFree ms)
  then show ?thesis
    using assms(2,3) by (cases ms) (auto simp: parser_loop_step_def steps_left_def frame)
qed (use assms(2,3) ring_ok.dequeue_burst_result[OF assms(1)] in
    \<open>auto simp: parser_loop_step_def steps_left_def case_prod_beta PIPE_BURST_def frame\<close>)

lemma tx_stops:
  assumes "ring_ok ro contents cap" and "force_quit s" and "tx_loop_step nd ro s = Some s'"
  shows "force_quit s' \<and> steps_left s' < steps_left s"
proof (cases "tx_at s")
  case (TxFree ms)
  then show ?thesis
    using assms(2,3) by (cases ms) (auto simp: tx_loop_step_def steps_left_def frame)
qed (use assms(2,3) ring_ok.dequeue_burst_result[OF assms(1)] in
    \<open>auto simp: tx_loop_step_def steps_left_def case_prod_beta PIPE_BURST_def frame split: if_splits\<close>)

lemma threaded_stops:
  assumes "ring_ok ro contents cap" and "ethdev_ok nd" and "force_quit s" and "threaded_step nd bo ro s s'"
  shows "force_quit s' \<and> steps_left s' < steps_left s"
  using assms(4) rx_stops[OF assms(2,3)] parser_stops[OF assms(1,3)] tx_stops[OF assms(1,3)]
  unfolding threaded_step_def by (auto elim!: pipe_stepE)

lemma threaded_run_bound:
  assumes "ring_ok ro contents cap" and "ethdev_ok nd" and "force_quit s"
    and "((threaded_step nd bo ro) ^^ k) s s'"
  shows "force_quit s' \<and> k + steps_left s' \<le> steps_left s"
  using assms(4)
proof (induction k arbitrary: s')
  case (Suc k)
  then obtain t where t: "((threaded_step nd bo ro) ^^ k) s t" "threaded_step nd bo ro t s'"
    by (auto elim: relpowp_Suc_E)
  with Suc.IH have "force_quit t" "k + steps_left t \<le> steps_left s" by blast+
  with threaded_stops[OF assms(1,2) this(1) t(2)] show ?case by simp
qed (use assms(3) in simp)

lemma steps_left_bound:
  assumes "pipe_inv contents cap s"
  shows "steps_left s \<le> 200"
proof -
  obtain gone where inv: "pipe_inv_at contents cap gone s" using assms by (auto simp: pipe_inv_def)
  then have "todo_ok": "ps_at s = PsParse todo ms \<Longrightarrow> length todo \<le> length ms" for todo ms
    by (simp add: pipe_inv_at_def ps_inv_def)
  have "rx_left (rx_at s) \<le> 36 + length (rx_hand (rx_at s))" by (cases "rx_at s") auto
  moreover have "tx_left (tx_at s) \<le> 36 + length (tx_hand (tx_at s))" by (cases "tx_at s") auto
  moreover have "ps_left (ps_at s) \<le> 69 + length (ps_hand (ps_at s)) \<or>
      ps_left (ps_at s) \<le> 4 + 2 * length (ps_hand (ps_at s))"
    using todo_ok by (cases "ps_at s") (auto simp: add_mono)
  ultimately show ?thesis
    using flight_bound[OF inv] by (auto simp: steps_left_def rx_max_def)
qed

lemma threaded_progress:
  assumes "\<not> all_done s"
  shows "\<exists>s'. threaded_step nd bo ro s s'"
proof -
  have "rx_at s \<noteq> RxDone \<Longrightarrow> \<exists>s'. rx_loop_step nd ro s = Some s'"
    by (cases "rx_at s"; cases "rx_hand (rx_at s)") (auto simp: rx_loop_step_def case_prod_beta)
  moreover have "tx_at s \<noteq> TxDone \<Longrightarrow> \<exists>s'. tx_loop_step nd ro s = Some s'"
    by (cases "tx_at s"; cases "tx_hand (tx_at s)") (auto simp: tx_loop_step_def case_prod_beta)
  moreover have "\<exists>s'. parser_loop_step bo ro s = Some s'" if "ps_at s \<noteq> PsDone"
  proof (cases "ps_at s")
    case (PsParse todo ms)
    then show ?thesis by (cases todo) (auto simp: parser_loop_step_def)
  next
    case (PsFree ms)
    then show ?thesis by (cases ms) (auto simp: parser_loop_step_def)
  qed (use that in \<open>auto simp: parser_loop_step_def case_prod_beta\<close>)
  ultimately show ?thesis
    using assms unfolding all_done_def threaded_step_def by (blast intro: pipe_step.intros)
qed

text \<open>
  C17. Shutdown terminates: from any reachable state in which \<open>rx_loop\<close> has set
  \<open>force_quit\<close>, no run, however the threads are scheduled, takes more than 200 further
  steps, and a run can only stop when all three loops have returned, so
  \<open>rte_eal_mp_wait_lcore\<close> returns.
\<close>

theorem threaded_shutdown:
  assumes "ring_ok ro contents cap" and "ethdev_ok nd"
    and "contents r1 = []" and "contents r2 = []" and "41 \<le> cap r1" and "41 \<le> cap r2"
    and "(threaded_step nd bo ro)\<^sup>*\<^sup>* (pipe_start n r1 r2) s" and "force_quit s"
    and "((threaded_step nd bo ro) ^^ k) s s'"
  shows "k \<le> 200 \<and> (all_done s' \<or> (\<exists>t. threaded_step nd bo ro s' t))"
proof
  have "pipe_inv contents cap s"
    using reaches_inv[OF assms(1,2) pipe_start_inv[of contents r1 r2, OF assms(3-6)]] assms(7)
    by (auto simp: pipeline_reaches_def)
  then have "steps_left s \<le> 200" by (rule steps_left_bound)
  then show "k \<le> 200" using threaded_run_bound[OF assms(1,2,8,9)] by simp
  show "all_done s' \<or> (\<exists>t. threaded_step nd bo ro s' t)" using threaded_progress by blast
qed

text \<open>Ten packets arrive at once; the receiver queues them, sets the flag and stops.\<close>

definition quit_sched :: "thread_id list" where
  "quit_sched = replicate 15 Rx"

text \<open>Only then do the other two threads start.\<close>

definition strand_sched :: "thread_id list" where
  "strand_sched = quit_sched @ [Ps, Ps, Tx, Tx]"

theorem threaded_shutdown_witness:
  "force_quit (run_threaded quit_sched (demo_pipe 10)) \<and>
   (\<exists>t. threaded_step script_dev le_host fifo_ring (run_threaded quit_sched (demo_pipe 10)) t)"
proof
  show fq: "force_quit (run_threaded quit_sched (demo_pipe 10))" by code_simp
  have r: "(threaded_step script_dev le_host fifo_ring)\<^sup>*\<^sup>* (pipe_start (nic (demo_pipe 10)) (new_ring 1024) (new_ring 1024))
      (run_threaded quit_sched (demo_pipe 10))"
    using run_sched_reaches unfolding threaded_step_def run_threaded_def demo_pipe_def
    by (simp add: pipe_start_def start_world_def world.defs)
  have "((threaded_step script_dev le_host fifo_ring) ^^ 0) (run_threaded quit_sched (demo_pipe 10))
      (run_threaded quit_sched (demo_pipe 10))" by simp
  from threaded_shutdown[OF fifo_ring.ring_ok_axioms script_dev.ethdev_ok_axioms
      new_ring_ok(1) new_ring_ok(1) new_ring_ok(2) new_ring_ok(2) r fq this]
  have "all_done (run_threaded quit_sched (demo_pipe 10)) \<or>
      (\<exists>t. threaded_step script_dev le_host fifo_ring (run_threaded quit_sched (demo_pipe 10)) t)" ..
  moreover have "\<not> all_done (run_threaded quit_sched (demo_pipe 10))" by code_simp
  ultimately show "\<exists>t. threaded_step script_dev le_host fifo_ring (run_threaded quit_sched (demo_pipe 10)) t"
    by blast
qed

text \<open>
  The shutdown does not drain the pipeline: there is a complete run of \<open>threaded_project\<close>, all three loops returned, in which ten
  packets were received and none was decoded, transmitted or freed; they stay in the first
  ring.
\<close>

theorem shutdown_strands_packets:
  "\<exists>s. (threaded_step script_dev le_host fifo_ring)\<^sup>*\<^sup>* (demo_pipe 10) s \<and> all_done s \<and>
       length (got s) = 10 \<and> sent s = [] \<and> freed s = [] \<and> printed s = [] \<and>
       snd (ring_rx_to_parse s) = got s"
proof (intro exI conjI)
  let ?s = "run_threaded strand_sched (demo_pipe 10)"
  show "(threaded_step script_dev le_host fifo_ring)\<^sup>*\<^sup>* (demo_pipe 10) ?s"
    unfolding threaded_step_def run_threaded_def by (rule run_sched_reaches)
  show "all_done ?s" "length (got ?s) = 10" "freed ?s = []" "printed ?s = []"
    "snd (ring_rx_to_parse ?s) = got ?s" by code_simp+
  have "length (sent ?s) = 0" by code_simp
  then show "sent ?s = []" by simp
qed

end
