(* ===== verification/Setup.thy ===== *)
theory Setup
  imports Prelude
begin

text \<open>
  The start-up code of the programs: the sequence of library calls each \<open>main\<close> makes before
  its loop, what it does with the result of each, and the ways it can end. What a call
  returns is not under src/: it is the argument \<open>env\<close>, which may depend on every call made
  before. A pointer result is an integer with 0 for \<open>NULL\<close>.

  The contract a port needs before packets may flow is read off the trace of calls and
  results: configured, each of its queues set up, then started, every one of these calls
  having succeeded.
\<close>

datatype call =
    EalInit
  | CountPorts
  | ValidPort nat
  | DevInfo nat
  | PoolCreate nat nat                       \<comment> \<open>buffers, cache size\<close>
  | DevConfigure nat nat nat bool            \<comment> \<open>port, receive and transmit queues, RSS\<close>
  | RxQueue nat nat nat                      \<comment> \<open>port, queue, descriptors\<close>
  | TxQueue nat nat nat
  | DevStart nat
  | Promiscuous nat
  | AddRxCallback nat nat
  | RingCreate string nat
  | HashCreate string nat
  | VhostRegister string
  | VhostStart string
  | MtrProfile nat nat
  | MtrPolicy nat nat
  | MtrCreate nat nat
  | FlowCreate nat
  | Launch string nat                        \<comment> \<open>function, lcore\<close>
  | EventCall string nat                     \<comment> \<open>event device call on a queue or port\<close>
  | LibCall string                           \<comment> \<open>another library call, by name\<close>

text \<open>What the code does with a result. \<open>ExitAnyZero n\<close> tests the last \<open>n\<close> results at once.\<close>

datatype check =
    Ignored
  | ExitNeg string
  | ExitZero string
  | ExitNonZero string
  | ExitEq int string
  | ExitAnyZero nat string

type_synonym step = "call \<times> check"
type_synonym trace = "(call \<times> int) list"
type_synonym env = "trace \<Rightarrow> call \<Rightarrow> int"

datatype outcome = Running | Exited string

definition stops :: "check \<Rightarrow> trace \<Rightarrow> string option" where
  "stops k tr =
     (case k of
        Ignored \<Rightarrow> None
      | ExitNeg msg \<Rightarrow> if snd (last tr) < 0 then Some msg else None
      | ExitZero msg \<Rightarrow> if snd (last tr) = 0 then Some msg else None
      | ExitNonZero msg \<Rightarrow> if snd (last tr) \<noteq> 0 then Some msg else None
      | ExitEq v msg \<Rightarrow> if snd (last tr) = v then Some msg else None
      | ExitAnyZero n msg \<Rightarrow> if 0 \<in> set (map snd (drop (length tr - n) tr)) then Some msg else None)"

fun run_setup :: "env \<Rightarrow> step list \<Rightarrow> trace \<Rightarrow> outcome \<times> trace" where
  "run_setup env [] tr = (Running, tr)"
| "run_setup env ((c, k) # ps) tr =
     (let tr' = tr @ [(c, env tr c)]
      in case stops k tr' of Some msg \<Rightarrow> (Exited msg, tr') | None \<Rightarrow> run_setup env ps tr')"

subsection \<open>The contract\<close>

datatype dev =
    Closed
  | Configured nat nat "nat list" "nat list"   \<comment> \<open>queue counts, queues set up so far\<close>
  | Started nat nat

fun dev_step :: "nat \<Rightarrow> call \<Rightarrow> dev \<Rightarrow> dev" where
  "dev_step p (DevConfigure p' nrx ntx rss) d = (if p' = p then Configured nrx ntx [] [] else d)"
| "dev_step p (RxQueue p' q n) (Configured nrx ntx rs ts) =
     (if p' = p then Configured nrx ntx (q # rs) ts else Configured nrx ntx rs ts)"
| "dev_step p (TxQueue p' q n) (Configured nrx ntx rs ts) =
     (if p' = p then Configured nrx ntx rs (q # ts) else Configured nrx ntx rs ts)"
| "dev_step p (DevStart p') (Configured nrx ntx rs ts) =
     (if p' = p \<and> set [0..<nrx] \<subseteq> set rs \<and> set [0..<ntx] \<subseteq> set ts then Started nrx ntx
      else Configured nrx ntx rs ts)"
| "dev_step p c d = d"

text \<open>The state of port \<open>p\<close> after a trace: calls that failed leave it alone.\<close>

fun dev_after :: "nat \<Rightarrow> trace \<Rightarrow> dev \<Rightarrow> dev" where
  "dev_after p [] d = d"
| "dev_after p ((c, r) # tr) d = dev_after p tr (if 0 \<le> r then dev_step p c d else d)"

fun is_started :: "dev \<Rightarrow> bool" where
  "is_started (Started nrx ntx) \<longleftrightarrow> True" | "is_started _ \<longleftrightarrow> False"

fun is_pool :: "call \<Rightarrow> bool" where
  "is_pool (PoolCreate n c) \<longleftrightarrow> True" | "is_pool _ \<longleftrightarrow> False"

text \<open>
  Ready for packets: the library is initialised, there is a pool, and the port is started
  with every configured queue set up.
\<close>

definition ready :: "nat \<Rightarrow> trace \<Rightarrow> bool" where
  "ready p tr \<longleftrightarrow>
     (\<forall>(c, r)\<in>set tr. (c = EalInit \<longrightarrow> 0 \<le> r) \<and> (is_pool c \<longrightarrow> r \<noteq> 0)) \<and>
     EalInit \<in> set (map fst tr) \<and> list_ex is_pool (map fst tr) \<and>
     is_started (dev_after p tr Closed)"

subsection \<open>A static check of start-up code\<close>

text \<open>Calls that matter for port \<open>p\<close>, and the checks that make a failure fatal.\<close>

fun touches :: "nat \<Rightarrow> call \<Rightarrow> bool" where
  "touches p (DevConfigure p' nrx ntx rss) \<longleftrightarrow> p' = p"
| "touches p (RxQueue p' q n) \<longleftrightarrow> p' = p"
| "touches p (TxQueue p' q n) \<longleftrightarrow> p' = p"
| "touches p (DevStart p') \<longleftrightarrow> p' = p"
| "touches p _ \<longleftrightarrow> False"

fun neg_fatal :: "check \<Rightarrow> bool" where
  "neg_fatal (ExitNeg m) \<longleftrightarrow> True" | "neg_fatal (ExitNonZero m) \<longleftrightarrow> True" | "neg_fatal _ \<longleftrightarrow> False"

fun zero_fatal :: "check \<Rightarrow> bool" where
  "zero_fatal (ExitZero m) \<longleftrightarrow> True" | "zero_fatal _ \<longleftrightarrow> False"

definition checked_step :: "nat \<Rightarrow> step \<Rightarrow> bool" where
  "checked_step p s \<longleftrightarrow>
     (case s of (c, k) \<Rightarrow> (touches p c \<or> c = EalInit \<longrightarrow> neg_fatal k) \<and> (is_pool c \<longrightarrow> zero_fatal k))"

definition fail_stop :: "nat \<Rightarrow> step list \<Rightarrow> bool" where
  "fail_stop p ps \<longleftrightarrow> (\<forall>s\<in>set ps. checked_step p s) \<and> EalInit \<in> set (map fst ps) \<and>
     list_ex is_pool (map fst ps) \<and> is_started (dev_after p (map (\<lambda>(c, k). (c, 0)) ps) Closed)"

lemma dev_step_untouched: "\<not> touches p c \<Longrightarrow> dev_step p c d = d"
  by (cases "(p, c, d)" rule: dev_step.cases) auto

lemma stops_None:
  "stops k (tr @ [(c, r)]) = None \<Longrightarrow> (neg_fatal k \<longrightarrow> 0 \<le> r) \<and> (zero_fatal k \<longrightarrow> r \<noteq> 0)"
  by (cases k) (auto simp: stops_def split: if_splits)

text \<open>Every call of a run that reaches the loop was made, in order, and passed its check.\<close>

lemma run_setup_trace:
  "run_setup env ps tr = (Running, tr') \<Longrightarrow>
   \<exists>rs. tr' = tr @ zip (map fst ps) rs \<and> length rs = length ps \<and>
        (\<forall>i<length ps. (neg_fatal (snd (ps ! i)) \<longrightarrow> 0 \<le> rs ! i) \<and>
                       (zero_fatal (snd (ps ! i)) \<longrightarrow> rs ! i \<noteq> 0))"
proof (induction ps arbitrary: tr)
  case (Cons s ps)
  obtain c k where s: "s = (c, k)" by force
  let ?r = "env tr c"
  from Cons.prems s have run: "run_setup env ps (tr @ [(c, ?r)]) = (Running, tr')"
    and ok: "stops k (tr @ [(c, ?r)]) = None"
    by (auto simp: Let_def split: option.splits)
  from Cons.IH[OF run] obtain rs where rs: "tr' = (tr @ [(c, ?r)]) @ zip (map fst ps) rs"
      "length rs = length ps"
      "\<forall>i<length ps. (neg_fatal (snd (ps ! i)) \<longrightarrow> 0 \<le> rs ! i) \<and> (zero_fatal (snd (ps ! i)) \<longrightarrow> rs ! i \<noteq> 0)"
    by blast
  show ?case
    using rs s stops_None[OF ok] by (intro exI[of _ "?r # rs"]) (auto simp: nth_Cons split: nat.split)
qed simp

lemma dev_after_signs:
  assumes "length rs = length ps"
    and "\<forall>i<length ps. touches p (fst (ps ! i)) \<longrightarrow> 0 \<le> rs ! i"
  shows "dev_after p (zip (map fst ps) rs) d = dev_after p (map (\<lambda>(c, k). (c, 0)) ps) d"
  using assms
proof (induction ps arbitrary: rs d)
  case (Cons s ps)
  then obtain r rs' where r: "rs = r # rs'" by (cases rs) auto
  have "(if 0 \<le> r then dev_step p (fst s) d else d) = dev_step p (fst s) d"
    using Cons.prems(2) r dev_step_untouched[of p "fst s" d] by (auto simp: nth_Cons split: nat.splits)
  moreover have "\<forall>i<length ps. touches p (fst (ps ! i)) \<longrightarrow> 0 \<le> rs' ! i"
    using Cons.prems(2) r by (auto simp: nth_Cons split: nat.splits)
  ultimately show ?case using Cons r by (auto simp: case_prod_beta)
qed simp

text \<open>The static check is sound.\<close>

lemma fail_stop_sound:
  assumes "fail_stop p ps" and "run_setup env ps [] = (Running, tr)"
  shows "ready p tr"
proof -
  from run_setup_trace[OF assms(2)] obtain rs where rs: "tr = zip (map fst ps) rs"
      "length rs = length ps"
      and ok: "\<forall>i<length ps. (neg_fatal (snd (ps ! i)) \<longrightarrow> 0 \<le> rs ! i) \<and>
                        (zero_fatal (snd (ps ! i)) \<longrightarrow> rs ! i \<noteq> 0)"
    by auto
  have chk: "\<forall>i<length ps. checked_step p (ps ! i)" using assms(1) by (auto simp: fail_stop_def)
  have "(c = EalInit \<longrightarrow> 0 \<le> r) \<and> (is_pool c \<longrightarrow> r \<noteq> 0)" if mem: "(c, r) \<in> set tr" for c r
  proof -
    from mem rs obtain i where "i < length ps" "c = fst (ps ! i)" "r = rs ! i"
      by (auto simp: set_zip)
    then show ?thesis using chk ok by (force simp: checked_step_def case_prod_beta)
  qed
  moreover have "map fst tr = map fst ps" using rs by simp
  moreover have "is_started (dev_after p tr Closed)"
  proof -
    have "dev_after p tr Closed = dev_after p (map (\<lambda>(c, k). (c, 0)) ps) Closed"
      unfolding rs(1) using chk ok by (intro dev_after_signs rs(2)) (force simp: checked_step_def case_prod_beta)
    then show ?thesis using assms(1) by (simp add: fail_stop_def)
  qed
  ultimately show ?thesis
    using assms(1) unfolding ready_def fail_stop_def by auto
qed

end
