(* ===== verification/Programs.thy ===== *)
theory Programs
  imports Setup
begin

text \<open>
  The start-up sequences of the programs that own an Ethernet port, in the vocabulary of
  \<open>Setup\<close>, each with the checks its \<open>main\<close> and \<open>init_port\<close> make, and which of them are
  fail-stop. Calls that only build arguments or print are left out, as are the socket ids.
\<close>

subsection \<open>Programs that check every step\<close>

text \<open>\<open>ports/packet_parsing\<close>: \<open>main.c\<close>, with \<open>init_eal\<close>, \<open>create_mempool\<close> and \<open>init_port\<close>.\<close>

definition init_eal :: "step list" where
  "init_eal = [(EalInit, ExitNeg ''EAL init failed'')]"

definition create_mempool :: "step list" where
  "create_mempool = [(PoolCreate 8192 256, ExitZero ''Cannot create mempool'')]"

definition init_port :: "nat \<Rightarrow> step list" where
  "init_port port_id =
     [(DevConfigure port_id 1 1 False, ExitNeg ''Port configure failed''),
      (RxQueue port_id 0 1024, ExitNeg ''RX queue setup failed''),
      (TxQueue port_id 0 1024, ExitNeg ''TX queue setup failed''),
      (DevStart port_id, ExitNeg ''Port start failed''),
      (DevInfo 0, Ignored)]"

definition packet_parsing_setup :: "step list" where
  "packet_parsing_setup =
     init_eal @ [(CountPorts, ExitZero ''No ports found!'')] @ create_mempool @ init_port 0"

text \<open>The copies of \<open>ports/port_mempool\<close>.\<close>

definition pm_init_eal :: "step list" where "pm_init_eal = init_eal"
definition pm_create_mempool :: "step list" where "pm_create_mempool = create_mempool"
definition pm_init_port :: "nat \<Rightarrow> step list" where
  "pm_init_port port_id =
     [(DevConfigure port_id 1 1 False, ExitNeg ''Port configure failed''),
      (RxQueue port_id 0 1024, ExitNeg ''RX queue setup failed''),
      (TxQueue port_id 0 1024, ExitNeg ''TX queue setup failed''),
      (DevStart port_id, ExitNeg ''Port start failed''),
      (DevInfo 0, Ignored)]"
definition port_mempool_setup :: "step list" where
  "port_mempool_setup =
     pm_init_eal @ [(CountPorts, ExitZero ''No ports found!'')] @ pm_create_mempool @ pm_init_port 0"

text \<open>\<open>control_data_segregation\<close>.\<close>

definition seg_init_port :: "nat \<Rightarrow> step list" where
  "seg_init_port port_id =
     [(DevConfigure port_id 1 1 False, ExitNeg ''Port configure failed''),
      (RxQueue port_id 0 1024, ExitNeg ''RX queue setup failed''),
      (TxQueue port_id 0 1024, ExitNeg ''TX queue setup failed''),
      (DevStart port_id, ExitNeg ''Port start failed'')]"

definition segregation_setup :: "step list" where
  "segregation_setup =
     [(EalInit, ExitNeg ''EAL init failed''),
      (CountPorts, ExitZero ''No Ethernet ports found. Use -a <PCI> or --vdev.''),
      (PoolCreate 8192 256, ExitZero ''Cannot create mempool''),
      (RingCreate ''control_ring'' 2048, Ignored),
      (RingCreate ''data_ring'' 2048, ExitAnyZero 2 ''Cannot create rings'')] @ seg_init_port 0"

text \<open>\<open>meter_dpdk\<close>; the meter profile, policy and instance 1, then the flow that uses it.\<close>

definition meter_port_setup :: "step list" where
  "meter_port_setup =
     [(EalInit, ExitNeg ''EAL init failed''),
      (PoolCreate 8192 250, ExitZero ''mbuf pool create failed''),
      (DevConfigure 0 1 1 False, ExitNeg ''port configure failed''),
      (RxQueue 0 0 1024, ExitNeg ''RX queue setup failed''),
      (TxQueue 0 0 1024, ExitNeg ''RX queue setup failed''),
      (DevStart 0, ExitNeg ''port start failed'')]"

definition meter_objects :: "step list" where
  "meter_objects =
     [(MtrProfile 0 1, ExitNeg ''profile add failed''),
      (MtrPolicy 0 1, ExitNeg ''policy add failed''),
      (MtrCreate 0 1, ExitNeg ''meter create failed''),
      (FlowCreate 0, ExitZero ''flow create failed'')]"

definition meter_setup :: "step list" where
  "meter_setup = meter_port_setup @ meter_objects"

text \<open>\<open>rss_dpdk/main.c\<close>: four receive queues, no transmit queue.\<close>

definition RX_QUEUES :: nat where "RX_QUEUES = 4"

definition rss_setup :: "step list" where
  "rss_setup =
     [(EalInit, ExitNeg ''EAL init failed''),
      (CountPorts, ExitZero ''No ports found''),
      (PoolCreate 8191 250, ExitZero ''Cannot create mbuf pool''),
      (DevConfigure 0 RX_QUEUES 0 True, ExitNeg ''Port configure failed'')] @
     map (\<lambda>q. (RxQueue 0 q 1024, ExitNeg ''RX queue setup failed'')) [0..<RX_QUEUES] @
     [(DevStart 0, ExitNeg ''Port start failed'')]"

text \<open>
  \<open>rss_dpdk/af_packet_rss/main.c\<close>: as many receive queues as there are worker lcores and
  the device supports, at least one. The counts are 16-bit in the code.
\<close>

definition af_rx_queues :: "nat \<Rightarrow> u16 \<Rightarrow> u16" where
  "af_rx_queues lcore_count max_rx_queues =
     (let desired = (of_nat (lcore_count - 1) :: u16);
          desired = (if desired = 0 then 1 else desired);
          used = (if desired < max_rx_queues then desired else max_rx_queues)
      in if used = 0 then 1 else used)"

definition af_setup :: "nat \<Rightarrow> u16 \<Rightarrow> step list" where
  "af_setup lcore_count max_rx_queues =
     (let used = unat (af_rx_queues lcore_count max_rx_queues) in
      [(EalInit, ExitNeg ''EAL init failed''),
       (CountPorts, ExitZero ''No Ethernet ports found''),
       (PoolCreate 8191 256, ExitZero ''Cannot create mbuf pool''),
       (DevInfo 0, Ignored),
       (DevConfigure 0 used 0 (1 < used), ExitNeg ''Port configure failed'')] @
      map (\<lambda>q. (RxQueue 0 q 1024, ExitNeg ''RX queue setup failed'')) [0..<used] @
      [(DevStart 0, ExitNeg ''Port start failed'')])"

text \<open>\<open>longest_prefix_match_lpm/simple\<close>; the four routes are added without a check.\<close>

definition lpm_init_port :: "nat \<Rightarrow> step list" where
  "lpm_init_port port =
     [(DevConfigure port 1 1 False, ExitNeg ''Cannot configure device''),
      (RxQueue port 0 1024, ExitNeg ''RX queue setup failed''),
      (TxQueue port 0 1024, ExitNeg ''TX queue setup failed''),
      (DevStart port, ExitNeg ''Device start failed''),
      (Promiscuous port, Ignored)]"

definition lpm_setup :: "step list" where
  "lpm_setup =
     [(EalInit, ExitNeg ''Failed to init EAL''),
      (PoolCreate 8192 0, ExitZero ''Cannot create mbuf pool''),
      (LibCall ''rte_lpm_create'', ExitZero ''Could not create LPM table''),
      (LibCall ''rte_lpm_add'', Ignored), (LibCall ''rte_lpm_add'', Ignored),
      (LibCall ''rte_lpm_add'', Ignored), (LibCall ''rte_lpm_add'', Ignored)] @
     lpm_init_port 0"

text \<open>The two packet filters \<open>ACL/exp\<close> and \<open>ACL/real_packet_acl\<close>.\<close>

definition acl_exp_setup :: "step list" where
  "acl_exp_setup =
     [(EalInit, ExitNeg ''EAL init failed''),
      (CountPorts, ExitZero ''No ports available''),
      (DevInfo 0, Ignored),
      (PoolCreate 8192 256, ExitZero ''mempool failed''),
      (DevConfigure 0 1 1 False, ExitNeg ''port configure failed''),
      (RxQueue 0 0 1024, ExitNeg ''rx setup failed''),
      (TxQueue 0 0 1024, ExitNeg ''tx setup failed''),
      (DevStart 0, ExitNeg ''port start failed''),
      (Promiscuous 0, Ignored),
      (LibCall ''rte_acl_create'', ExitZero ''ACL create failed''),
      (LibCall ''rte_acl_add_rules'', ExitNeg ''Rule add failed''),
      (LibCall ''rte_acl_build'', ExitNonZero ''ACL build failed'')]"

definition acl_real_setup :: "step list" where
  "acl_real_setup =
     [(EalInit, ExitNeg ''EAL init failed''),
      (CountPorts, ExitZero ''No ports available''),
      (DevInfo 0, ExitNeg ''Failed to get port info''),
      (PoolCreate 8192 256, ExitZero ''mempool failed''),
      (DevConfigure 0 1 1 False, ExitNeg ''port configure failed''),
      (RxQueue 0 0 1024, ExitNeg ''rx setup failed''),
      (TxQueue 0 0 1024, ExitNeg ''tx setup failed''),
      (DevStart 0, ExitNeg ''port start failed''),
      (Promiscuous 0, Ignored),
      (LibCall ''rte_acl_create'', ExitZero ''ACL create failed''),
      (LibCall ''rte_acl_add_rules'', ExitNeg ''Rule add failed''),
      (LibCall ''rte_acl_build'', ExitNonZero ''ACL build failed'')]"

text \<open>\<open>ACL/l2fwd_acl\<close> starts every port of the device list whose bit of \<open>portmask\<close> is set.\<close>

definition l2fwd_port :: "u32 \<Rightarrow> nat \<Rightarrow> step list" where
  "l2fwd_port portmask p =
     (if portmask AND push_bit p 1 = 0 then []
      else [(DevConfigure p 1 1 False, ExitNeg ''port configure failed''),
            (RxQueue p 0 1024, ExitNeg ''rx setup failed''),
            (TxQueue p 0 1024, ExitNeg ''tx setup failed''),
            (DevStart p, ExitNeg ''port start failed''),
            (Promiscuous p, Ignored)])"

definition l2fwd_setup :: "u32 \<Rightarrow> nat list \<Rightarrow> step list" where
  "l2fwd_setup portmask ports =
     [(EalInit, ExitNeg ''EAL init failed''),
      (LibCall ''parse_args'', ExitNeg ''Invalid arguments''),
      (LibCall ''rte_acl_create'', ExitZero ''ACL create failed''),
      (LibCall ''rte_acl_add_rules'', ExitNeg ''ACL rule add failed''),
      (LibCall ''rte_acl_build'', ExitNonZero ''ACL build failed''),
      (PoolCreate 8192 256, ExitZero ''mempool failed'')] @
     concat (map (l2fwd_port portmask) ports)"

text \<open>
  \<open>reordering/dynamic_seqno\<close>: \<open>port_init\<close> returns a negative code on failure, which \<open>main\<close>
  turns into an exit.
\<close>

definition seqno_port_init :: "nat \<Rightarrow> step list" where
  "seqno_port_init port =
     [(ValidPort port, ExitZero ''Cannot init port 0''),
      (DevConfigure port 1 0 False, ExitNeg ''Cannot init port 0''),
      (RxQueue port 0 128, ExitNeg ''Cannot init port 0''),
      (DevStart port, ExitNeg ''Cannot init port 0'')]"

definition seqno_setup :: "step list" where
  "seqno_setup =
     [(EalInit, ExitNeg ''Error with EAL init''),
      (PoolCreate 8192 256, ExitZero ''Cannot create mbuf pool''),
      (LibCall ''rte_mbuf_dynfield_register'', ExitNeg ''Failed to register dynamic field'')] @
     seqno_port_init 0"

definition reorder2_init_port :: "nat \<Rightarrow> step list" where
  "reorder2_init_port port =
     [(DevConfigure port 1 0 False, ExitNeg ''Port configure failed''),
      (RxQueue port 0 1024, ExitNeg ''RX queue setup failed''),
      (DevStart port, ExitNeg ''Port start failed'')]"

definition reorder2_setup :: "step list" where
  "reorder2_setup =
     [(EalInit, ExitNeg ''EAL init failed''),
      (PoolCreate 8192 256, ExitZero ''Mempool create failed'')] @ reorder2_init_port 0 @
     [(LibCall ''rte_reorder_create'', ExitZero ''Reorder create failed'')]"

text \<open>\<open>tranmit_packet/packet_creation\<close> and \<open>packet_change\<close>.\<close>

definition tx_init_port :: "nat \<Rightarrow> step list" where
  "tx_init_port port_id =
     [(DevConfigure port_id 1 1 False, ExitNeg ''Port configure failed''),
      (RxQueue port_id 0 1024, ExitNeg ''RX queue setup failed''),
      (TxQueue port_id 0 1024, ExitNeg ''TX queue setup failed''),
      (DevStart port_id, ExitNeg ''Port start failed''),
      (DevInfo 0, Ignored)]"

definition simple_tx_setup :: "step list" where
  "simple_tx_setup =
     [(EalInit, ExitNeg ''EAL init failed''),
      (PoolCreate 1024 0, ExitZero ''Cannot create mempool'')] @ tx_init_port 0 @
     [(LibCall ''rte_pktmbuf_alloc'', ExitZero ''mbuf alloc failed'')]"

definition packet_change_setup :: "step list" where
  "packet_change_setup =
     [(EalInit, ExitNeg ''EAL init failed''),
      (PoolCreate 1024 32, ExitZero ''mbuf pool create failed''),
      (DevConfigure 0 1 1 False, ExitNeg ''Port configure failed''),
      (RxQueue 0 0 1024, ExitNeg ''RX queue setup failed''),
      (TxQueue 0 0 1024, ExitNeg ''TX queue setup failed''),
      (DevStart 0, ExitNeg ''Port start failed'')]"

definition checked_programs :: "(string \<times> step list) list" where
  "checked_programs =
     [(''ports/packet_parsing'', packet_parsing_setup), (''ports/port_mempool'', port_mempool_setup),
      (''control_data_segregation'', segregation_setup), (''meter_dpdk'', meter_setup),
      (''rss_dpdk'', rss_setup), (''longest_prefix_match_lpm/simple'', lpm_setup),
      (''ACL/exp'', acl_exp_setup), (''ACL/real_packet_acl'', acl_real_setup),
      (''reordering/dynamic_seqno'', seqno_setup), (''reordering/rx_burst/main2'', reorder2_setup),
      (''tranmit_packet/packet_creation'', simple_tx_setup), (''packet_change'', packet_change_setup)]"

lemmas setup_defs = init_eal_def create_mempool_def init_port_def packet_parsing_setup_def
  pm_init_eal_def pm_create_mempool_def pm_init_port_def port_mempool_setup_def
  seg_init_port_def segregation_setup_def meter_setup_def meter_port_setup_def meter_objects_def RX_QUEUES_def rss_setup_def
  lpm_init_port_def lpm_setup_def acl_exp_setup_def acl_real_setup_def seqno_port_init_def
  seqno_setup_def reorder2_init_port_def reorder2_setup_def tx_init_port_def simple_tx_setup_def
  packet_change_setup_def

lemma all_fail_stop: "list_all (\<lambda>(name, ps). fail_stop 0 ps) checked_programs"
  by (simp add: checked_programs_def fail_stop_def checked_step_def setup_defs upt_rec)

lemma checked_fail_stop: "(name, ps) \<in> set checked_programs \<Longrightarrow> fail_stop 0 ps"
  using all_fail_stop by (auto simp: list_all_iff)

text \<open>
  C30. Start-up is fail-stop in these twelve programs: whatever the library calls return, if
  the program gets as far as its packet loop, then the library is initialised, the buffer
  pool exists, and port 0 was configured, got every one of its queues set up and was
  started, all successfully.
\<close>

theorem checked_programs_ready:
  assumes "(name, ps) \<in> set checked_programs" and "run_setup env ps [] = (Running, tr)"
  shows "ready 0 tr"
  by (rule fail_stop_sound[OF checked_fail_stop[OF assms(1)] assms(2)])

text \<open>An environment in which every call returns 1.\<close>

definition all_ok :: env where "all_ok tr c = 1"

theorem checked_programs_ready_witness:
  "(''rss_dpdk'', rss_setup) \<in> set checked_programs \<and>
   fst (run_setup all_ok rss_setup []) = Running \<and> ready 0 (snd (run_setup all_ok rss_setup []))"
proof -
  have m: "(''rss_dpdk'', rss_setup) \<in> set checked_programs" by (simp add: checked_programs_def)
  have r: "fst (run_setup all_ok rss_setup []) = Running"
    by (simp add: rss_setup_def RX_QUEUES_def all_ok_def stops_def upt_rec)
  then have "run_setup all_ok rss_setup [] = (Running, snd (run_setup all_ok rss_setup []))"
    by (metis prod.collapse)
  with checked_programs_ready[OF m this] m r show ?thesis by blast
qed

text \<open>The two programs whose sequence depends on the machine.\<close>

lemma dev_after_append: "dev_after p (xs @ ys) d = dev_after p ys (dev_after p xs d)"
  by (induction xs arbitrary: d) auto

lemma dev_after_rx_queues:
  "dev_after p (map (\<lambda>q. (RxQueue p q n, 0)) qs) (Configured nrx ntx rs ts) =
     Configured nrx ntx (rev qs @ rs) ts"
  by (induction qs arbitrary: rs) auto

lemma af_fail_stop: "fail_stop 0 (af_setup n m)"
  by (auto simp: fail_stop_def af_setup_def Let_def checked_step_def comp_def dev_after_append
      dev_after_rx_queues)

lemma dev_after_untouched:
  "\<forall>(c, r)\<in>set tr. \<not> touches p c \<Longrightarrow> dev_after p tr d = d"
  by (induction tr arbitrary: d) (auto simp: dev_step_untouched)

lemma l2fwd_port_started:
  assumes "distinct ports" and "p \<in> set ports" and "portmask AND push_bit p 1 \<noteq> 0"
  shows "dev_after p (map (\<lambda>(c, k). (c, 0)) (concat (map (l2fwd_port portmask) ports))) Closed = Started 1 1"
proof -
  from assms(2) obtain xs ys where ports: "ports = xs @ p # ys" by (meson split_list)
  with assms(1) have "p \<notin> set xs" "p \<notin> set ys" by auto
  then have "dev_after p (map (\<lambda>(c, k). (c, 0)) (concat (map (l2fwd_port portmask) zs))) d = d"
    if "zs = xs \<or> zs = ys" for zs d
    using that by (intro dev_after_untouched) (auto simp: l2fwd_port_def split: if_splits)
  then show ?thesis
    using assms(3) by (simp add: ports dev_after_append l2fwd_port_def)
qed

lemma l2fwd_fail_stop:
  assumes "distinct ports" and "p \<in> set ports" and "portmask AND push_bit p 1 \<noteq> 0"
  shows "fail_stop p (l2fwd_setup portmask ports)"
  using l2fwd_port_started[OF assms]
  by (auto simp: fail_stop_def l2fwd_setup_def checked_step_def l2fwd_port_def dev_after_append
      split: if_splits)

text \<open>
  The same for the two programs whose start-up depends on the machine: the RSS program
  for \<open>af_packet\<close>, whatever the number of lcores and of queues the device supports, and
  \<open>l2fwd_acl\<close>, for every port selected by the port mask.
\<close>

theorem machine_dependent_setups_ready:
  assumes "run_setup env (af_setup n m) [] = (Running, tr)"
    and "run_setup env' (l2fwd_setup portmask ports) [] = (Running, tr')"
    and "distinct ports" and "p \<in> set ports" and "portmask AND push_bit p 1 \<noteq> 0"
  shows "ready 0 tr \<and> ready p tr'"
  using fail_stop_sound[OF af_fail_stop assms(1)] fail_stop_sound[OF l2fwd_fail_stop[OF assms(3-5)] assms(2)]
  by blast

text \<open>An environment in which every call returns 1 except that \<open>rte_acl_build\<close> returns 0.\<close>

definition acl_ok :: env where
  "acl_ok tr c = (if c = LibCall ''rte_acl_build'' then 0 else 1)"

theorem machine_dependent_setups_ready_witness:
  "fst (run_setup acl_ok (af_setup 3 2) []) = Running \<and>
   fst (run_setup acl_ok (l2fwd_setup 5 [0, 1, 2]) []) = Running \<and>
   ready 0 (snd (run_setup acl_ok (af_setup 3 2) [])) \<and>
   ready 2 (snd (run_setup acl_ok (l2fwd_setup 5 [0, 1, 2]) []))"
proof -
  have r: "fst (run_setup acl_ok (af_setup 3 2) []) = Running"
    "fst (run_setup acl_ok (l2fwd_setup 5 [0, 1, 2]) []) = Running"
    by (simp_all add: af_setup_def af_rx_queues_def l2fwd_setup_def l2fwd_port_def acl_ok_def stops_def Let_def upt_rec)
  have "(5 :: u32) AND push_bit 2 1 \<noteq> 0" by simp
  moreover have "distinct [0, 1, 2 :: nat]" "2 \<in> set [0, 1, 2 :: nat]" by simp_all
  ultimately show ?thesis
    using machine_dependent_setups_ready[of acl_ok 3 2 "snd (run_setup acl_ok (af_setup 3 2) [])"
        acl_ok 5 "[0, 1, 2]" "snd (run_setup acl_ok (l2fwd_setup 5 [0, 1, 2]) [])" 2] r
    by (simp add: prod_eq_iff)
qed

subsection \<open>Queues and the lcores that poll them\<close>

text \<open>
  The launch loop both RSS programs share: worker lcores get queues 0, 1, ... while there
  are both, and the main lcore polls one more queue if one is left.
\<close>

fun launch_workers :: "nat \<Rightarrow> nat \<Rightarrow> nat list \<Rightarrow> (nat \<times> nat) list \<times> nat" where
  "launch_workers n q [] = ([], q)"
| "launch_workers n q (w # ws) =
     (if n \<le> q then ([], q)
      else case launch_workers n (q + 1) ws of (ls, q') \<Rightarrow> ((q, w) # ls, q'))"

definition rss_polling :: "nat list \<Rightarrow> nat \<Rightarrow> (nat \<times> nat) list" where
  "rss_polling workers main_lcore =
     (case launch_workers RX_QUEUES 0 workers of (ls, q) \<Rightarrow>
        ls @ (if q < RX_QUEUES then [(q, main_lcore)] else []))"

definition af_polling :: "nat list \<Rightarrow> nat \<Rightarrow> u16 \<Rightarrow> (nat \<times> nat) list" where
  "af_polling workers main_lcore max_rx_queues =
     (let used = unat (af_rx_queues (length workers + 1) max_rx_queues) in
      case launch_workers used 0 workers of (ls, q) \<Rightarrow>
        ls @ (if q < used then [(q, main_lcore)] else []))"

lemma launch_workers_eq:
  "q \<le> n \<Longrightarrow> launch_workers n q ws = (zip [q..<n] ws, q + min (n - q) (length ws))"
proof (induction ws arbitrary: q)
  case (Cons w ws)
  show ?case
  proof (cases "q < n")
    case True
    then have "[q..<n] = q # [Suc q..<n]" by (rule upt_conv_Cons)
    with True Cons.IH[of "q + 1"] show ?thesis by auto
  qed (use Cons.prems in simp)
qed simp

lemma polled_queues:
  "fst ` set (zip [0..<n] ws @ (if min n (length ws) < n then [(min n (length ws), m)] else [])) =
     {..<min n (length ws + 1)}"
proof -
  have "fst ` set (zip [0..<n] ws) = set (take (min n (length ws)) [0..<n])"
    by (metis length_map length_upt map_fst_zip_take set_map minus_nat.diff_0)
  also have "\<dots> = {..<min n (length ws)}" by (auto simp: take_upt)
  finally show ?thesis by (auto simp: min_def split: if_splits)
qed

lemma af_rx_queues_le: "unat (af_rx_queues (length ws + 1) m) \<le> max 1 (length ws)"
proof -
  have "unat (of_nat (length ws) :: u16) \<le> length ws" by (simp add: unat_of_nat)
  then show ?thesis by (auto simp: af_rx_queues_def Let_def word_less_nat_alt)
qed

text \<open>
  The RSS program for \<open>af_packet\<close> polls exactly the queues it configured, on any
  machine: every configured queue has an lcore and no lcore polls a queue that was not
  configured.
\<close>

theorem af_polls_every_queue:
  "fst ` set (af_polling workers main_lcore m) = {..<unat (af_rx_queues (length workers + 1) m)} \<and>
   0 < af_rx_queues (length workers + 1) m"
proof
  let ?n = "unat (af_rx_queues (length workers + 1) m)"
  have "?n \<le> length workers + 1" using af_rx_queues_le[of workers m] by simp
  then have "min ?n (length workers + 1) = ?n" by simp
  then show "fst ` set (af_polling workers main_lcore m) = {..<?n}"
    unfolding af_polling_def Let_def launch_workers_eq[OF le0] prod.case add_0 diff_zero polled_queues
    by simp
  show "0 < af_rx_queues (length workers + 1) m"
    by (auto simp: af_rx_queues_def Let_def word_gt_0)
qed

text \<open>
  The other RSS program configures four queues and the comment says that the main lcore
  handles what the workers leave; it polls all four if and only if there are at least three
  worker lcores. With fewer, the packets of the remaining queues are never received.
\<close>

theorem rss_polls_every_queue_iff:
  "fst ` set (rss_polling workers main_lcore) = {..<RX_QUEUES} \<longleftrightarrow> 3 \<le> length workers"
  unfolding rss_polling_def launch_workers_eq[OF le0] prod.case add_0 diff_zero polled_queues
  by (simp add: RX_QUEUES_def lessThan_eq_iff min_def)

subsection \<open>Programs that do not\<close>

definition nat_setup :: "step list" where
  "nat_setup =
     [(EalInit, ExitNeg ''EAL init failed''),
      (PoolCreate 8192 256, ExitZero ''Cannot create mbuf pool''),
      (DevConfigure 0 1 1 False, Ignored), (RxQueue 0 0 1024, Ignored), (TxQueue 0 0 1024, Ignored),
      (DevStart 0, Ignored), (Promiscuous 0, Ignored)]"

definition tun_echo_setup :: "step list" where
  "tun_echo_setup =
     [(EalInit, ExitNeg ''EAL init failed''), (CountPorts, ExitZero ''No ports found!''),
      (PoolCreate 8192 256, ExitZero ''Cannot create mbuf pool''),
      (DevConfigure 0 1 1 False, Ignored), (RxQueue 0 0 1024, Ignored), (TxQueue 0 0 1024, Ignored),
      (DevStart 0, Ignored)]"

definition swap_addr_setup :: "step list" where
  "swap_addr_setup =
     [(EalInit, ExitNeg ''EAL init failed''), (CountPorts, ExitZero ''No ports found!''),
      (PoolCreate 8192 256, ExitZero ''Cannot create mbuf pool''),
      (DevConfigure 0 1 1 False, Ignored), (RxQueue 0 0 1024, Ignored), (TxQueue 0 0 1024, Ignored),
      (DevStart 0, Ignored)]"

definition frontend_setup :: "step list" where
  "frontend_setup =
     [(EalInit, ExitNeg ''EAL init failed''), (PoolCreate 8192 256, ExitZero ''mbuf pool failed''),
      (DevConfigure 0 1 1 False, Ignored), (RxQueue 0 0 1024, Ignored), (TxQueue 0 0 1024, Ignored),
      (DevStart 0, Ignored)]"

text \<open>\<open>rxtx_callbacks\<close> creates the pool inside the argument list of the queue setup.\<close>

definition callback_setup :: "step list" where
  "callback_setup =
     [(EalInit, ExitNeg ''EAL init failed''), (DevConfigure 0 1 1 False, Ignored),
      (PoolCreate 8192 256, Ignored), (RxQueue 0 0 128, Ignored), (TxQueue 0 0 128, Ignored),
      (DevStart 0, Ignored), (AddRxCallback 0 0, Ignored)]"

definition graph_pipeline_setup :: "step list" where
  "graph_pipeline_setup =
     [(EalInit, ExitNeg ''EAL init failed''), (PoolCreate 8192 256, ExitZero ''mempool create failed''),
      (DevConfigure 0 1 1 False, Ignored), (RxQueue 0 0 1024, Ignored), (TxQueue 0 0 1024, Ignored),
      (DevStart 0, Ignored), (LibCall ''rte_graph_create'', ExitEq 65535 ''graph create failed''),
      (LibCall ''rte_graph_lookup'', Ignored)]"

definition rx_drop_setup :: "step list" where
  "rx_drop_setup =
     [(EalInit, ExitNeg ''EAL init failed''), (PoolCreate 8192 256, ExitZero ''Mbuf pool creation failed''),
      (DevConfigure 0 1 1 False, Ignored), (RxQueue 0 0 1024, Ignored), (TxQueue 0 0 1024, Ignored),
      (DevStart 0, Ignored), (LibCall ''rte_graph_create'', ExitEq 65535 ''Graph creation failed''),
      (LibCall ''rte_graph_lookup'', ExitZero ''Graph lookup failed'')]"

text \<open>\<open>eventdev/parsing_event\<close>, up to the launch of the worker.\<close>

definition parsing_event_setup :: "step list" where
  "parsing_event_setup =
     [(EalInit, ExitNeg ''EAL init failed''), (CountPorts, Ignored),
      (PoolCreate 8192 256, ExitZero ''mbuf pool create failed''),
      (DevConfigure 0 1 1 False, Ignored), (RxQueue 0 0 1024, Ignored), (TxQueue 0 0 1024, Ignored),
      (DevStart 0, Ignored), (Promiscuous 0, Ignored),
      (EventCall ''rte_event_dev_configure'' 0, Ignored),
      (EventCall ''rte_event_queue_setup'' 0, Ignored), (EventCall ''rte_event_queue_setup'' 1, Ignored),
      (EventCall ''rte_event_port_default_conf_get'' 0, Ignored), (EventCall ''rte_event_port_setup'' 0, Ignored),
      (EventCall ''rte_event_port_default_conf_get'' 1, Ignored), (EventCall ''rte_event_port_setup'' 1, Ignored),
      (EventCall ''rte_event_port_link'' 0, Ignored), (EventCall ''rte_event_dev_start'' 0, Ignored),
      (EventCall ''rte_event_eth_rx_adapter_create_ext'' 0, ExitNeg ''RX adapter create failed''),
      (EventCall ''rte_event_eth_rx_adapter_queue_add'' 0, Ignored),
      (EventCall ''rte_event_eth_rx_adapter_start'' 0, Ignored),
      (EventCall ''rte_event_eth_tx_adapter_create'' 0, Ignored),
      (EventCall ''rte_event_eth_tx_adapter_queue_add'' 1, Ignored),
      (EventCall ''rte_event_eth_tx_adapter_start'' 0, Ignored)]"

text \<open>Three programs check the port but not the initialisation of the library.\<close>

definition vhost_backend_setup :: "step list" where
  "vhost_backend_setup =
     [(EalInit, Ignored), (VhostRegister ''/tmp/vhost.sock'', ExitNeg ''vhost register failed''),
      (VhostStart ''/tmp/vhost.sock'', ExitNeg ''vhost start failed''),
      (PoolCreate 8192 256, ExitZero ''mbuf pool failed''),
      (DevConfigure 0 1 1 False, ExitNeg ''dev configure failed''),
      (RxQueue 0 0 1024, ExitNeg ''rx queue failed''), (TxQueue 0 0 1024, ExitNeg ''tx queue failed''),
      (DevStart 0, ExitNeg ''dev start failed'')]"

definition threaded_setup :: "step list" where
  "threaded_setup =
     [(EalInit, Ignored), (ValidPort 0, ExitNeg ''Invalid port id''), (DevInfo 0, Ignored),
      (DevConfigure 0 1 1 False, ExitNeg ''Port configure failed''),
      (PoolCreate 8192 256, ExitZero ''MBUF pool create failed''),
      (RxQueue 0 0 1024, ExitNeg ''RX queue setup failed''),
      (TxQueue 0 0 1024, ExitNeg ''TX queue setup failed''),
      (DevStart 0, ExitNeg ''Port start failed''),
      (RingCreate ''RING_RX_PARSE'' 1024, Ignored),
      (RingCreate ''RING_PARSE_TX'' 1024, ExitAnyZero 2 ''Ring creation failed''),
      (Launch ''rx_loop'' 1, Ignored), (Launch ''parser_loop'' 2, Ignored), (Launch ''tx_loop'' 3, Ignored)]"

definition nic_stats_setup :: "step list" where
  "nic_stats_setup =
     [(EalInit, Ignored), (ValidPort 0, ExitNeg ''Invalid port id''),
      (DevInfo 0, ExitNeg ''Error during getting device''),
      (DevConfigure 0 1 1 False, ExitNeg ''Port configure failed''),
      (PoolCreate 8192 256, ExitZero ''MBUF pool create failed''),
      (RxQueue 0 0 1024, ExitNeg ''RX queue setup failed''),
      (TxQueue 0 0 1024, ExitNeg ''TX queue setup failed''),
      (DevStart 0, ExitNeg ''Port start failed''),
      (RingCreate ''RING_RX_PARSE'' 1024, Ignored),
      (RingCreate ''RING_PARSE_TX'' 1024, ExitAnyZero 2 ''Ring creation failed''),
      (Launch ''rx_loop'' 1, Ignored), (Launch ''parser_loop'' 2, Ignored), (Launch ''tx_loop'' 3, Ignored)]"

text \<open>\<open>reordering/rx_burst/main.c\<close> configures a transmit queue and has its setup commented out.\<close>

definition reorder_init_port :: "nat \<Rightarrow> step list" where
  "reorder_init_port port_id =
     [(DevConfigure port_id 1 1 False, ExitNeg ''Port configure failed''),
      (RxQueue port_id 0 1024, ExitNeg ''RX queue setup failed''),
      (DevStart port_id, ExitNeg ''Port start failed'')]"

definition reorder_setup :: "step list" where
  "reorder_setup =
     [(EalInit, ExitNeg ''EAL failed''), (PoolCreate 1024 32, ExitZero ''mempool failed'')] @
     reorder_init_port 0 @ [(LibCall ''rte_reorder_create'', ExitZero ''reorder create failed'')]"

text \<open>An environment in which one call fails and every other returns 1.\<close>

definition fail_env :: "call \<Rightarrow> env" where
  "fail_env bad tr c = (if c = bad then -1 else 1)"

definition unready :: "env \<Rightarrow> step list \<Rightarrow> bool" where
  "unready env ps \<longleftrightarrow> fst (run_setup env ps []) = Running \<and> \<not> ready 0 (snd (run_setup env ps []))"

lemmas unready_setup_defs = nat_setup_def tun_echo_setup_def swap_addr_setup_def frontend_setup_def
  callback_setup_def graph_pipeline_setup_def rx_drop_setup_def parsing_event_setup_def
  vhost_backend_setup_def threaded_setup_def nic_stats_setup_def reorder_setup_def reorder_init_port_def

text \<open>
  The other programs are not fail-stop. Eight of them enter their packet loop although
  \<open>rte_eth_dev_start\<close> failed, three although \<open>rte_eal_init\<close> failed, and
  \<open>reordering/rx_burst/main.c\<close> starts its port with a configured transmit queue that was
  never set up, even when every call succeeds.
\<close>

theorem unchecked_programs_run_unready:
  "list_all (unready (fail_env (DevStart 0)))
     [nat_setup, tun_echo_setup, swap_addr_setup, frontend_setup, callback_setup,
      graph_pipeline_setup, rx_drop_setup, parsing_event_setup] \<and>
   list_all (unready (fail_env EalInit)) [vhost_backend_setup, threaded_setup, nic_stats_setup] \<and>
   unready all_ok reorder_setup"
  by (auto simp: unready_def unready_setup_defs fail_env_def all_ok_def stops_def ready_def)

end
