(* ===== verification/UdpBuild.thy ===== *)
theory UdpBuild
  imports StaticNat PacketParser
begin

text \<open>
  \<open>tranmit_packet/packet_creation/simple_tx.c\<close>: a UDP datagram is built in a buffer and the
  buffer is transmitted in an endless loop. The decoder of \<open>PacketParser\<close> reads back what
  the builder wrote.
\<close>

definition store_bytes :: "nat \<Rightarrow> u8 list \<Rightarrow> buffer \<Rightarrow> buffer" where
  "store_bytes off bs b = (\<lambda>i. if off \<le> i \<and> i < off + length bs then bs ! (i - off) else b i)"

text \<open>The payload, \<open>Hello from DPDK AF_PACKET!\<close> without its terminating zero.\<close>

definition udp_payload :: "u8 list" where
  "udp_payload = map of_char ''Hello from DPDK AF_PACKET!''"

text \<open>The Ethernet and IPv4 headers, the checksum field still 0.\<close>

definition eth_ip_headers :: "byteorder \<Rightarrow> nat \<Rightarrow> buffer \<Rightarrow> buffer" where
  "eth_ip_headers bo payload_len b =
     (let ip = ETH_LEN;
          b = store_bytes 0 [0xFF, 0xFF, 0xFF, 0xFF, 0xFF, 0xFF] b;
          b = store_bytes 6 [0x00, 0x15, 0x5d, 0x0e, 0x66, 0x03] b;
          b = store16 12 (cpu_to_be_16 bo RTE_ETHER_TYPE_IPV4) b;
          b = store8 ip 0x45 b;
          b = store8 (ip + 1) 0 b;
          b = store16 (ip + 2) (cpu_to_be_16 bo (of_nat (IPV4_LEN + UDP_LEN + payload_len))) b;
          b = store16 (ip + 4) 0 b;
          b = store16 (ip + 6) 0 b;
          b = store8 (ip + 8) 64 b;
          b = store8 (ip + 9) IPPROTO_UDP b;
          b = store32 (ip + 12) (cpu_to_be_32 bo 0x7F000001) b;
          b = store32 (ip + 16) (cpu_to_be_32 bo 0x7F000001) b
      in store16 (ip + 10) 0 b)"

definition build_udp_packet :: "byteorder \<Rightarrow> (buffer \<Rightarrow> u16) \<Rightarrow> packet \<Rightarrow> packet" where
  "build_udp_packet bo cksum m =
     (let payload_len = length udp_payload;
          pkt_len' = ETH_LEN + IPV4_LEN + UDP_LEN + payload_len;
          ip = ETH_LEN;
          udp = ETH_LEN + IPV4_LEN;
          b = eth_ip_headers bo payload_len (bytes m);
          b = store16 (ip + 10) (cksum (\<lambda>i. b (ip + i))) b;
          b = store16 udp (cpu_to_be_16 bo 1234) b;
          b = store16 (udp + 2) (cpu_to_be_16 bo 5678) b;
          b = store16 (udp + 4) (cpu_to_be_16 bo (of_nat (UDP_LEN + payload_len))) b;
          b = store16 (udp + 6) 0 b;
          b = store_bytes (udp + 8) udp_payload b
      in \<lparr>bytes = b, data_len = pkt_len', pkt_len = pkt_len'\<rparr>)"

lemma length_udp_payload [simp]: "length udp_payload = 26"
  by (simp add: udp_payload_def)

text \<open>The bytes of the frame other than the checksum.\<close>

definition udp_header_bytes :: "u8 list" where
  "udp_header_bytes =
     [0xFF, 0xFF, 0xFF, 0xFF, 0xFF, 0xFF, 0x00, 0x15, 0x5d, 0x0e, 0x66, 0x03, 0x08, 0x00,
      0x45, 0, 0, 54, 0, 0, 0, 0, 64, 17, 0, 0, 127, 0, 0, 1, 127, 0, 0, 1,
      0x04, 0xD2, 0x16, 0x2E, 0, 34, 0, 0]"

lemma bswap_consts:
  "bswap16 0x0800 = le16 8 0" "bswap16 54 = le16 0 54" "bswap16 1234 = le16 4 0xD2"
  "bswap16 5678 = le16 0x16 0x2E" "bswap16 34 = le16 0 34" "bswap32 0x7F000001 = le32 127 0 0 1"
  "(0::u16) = le16 0 0"
  by (simp_all add: bswap16_def bswap32_def be16_def be32_def le16_def le32_def)

lemma store16_le: "store16 i (le16 x y) b = b(i := x, i + 1 := y)"
  by (simp add: store16_def bytes)

lemma store32_le: "store32 i (le32 x y z u) b = b(i := x, i + 1 := y, i + 2 := z, i + 3 := u)"
  by (simp add: store32_def bytes)

lemma build_bytes:
  assumes "byteorder_ok bo" and "i < 42" and "i \<noteq> 24" and "i \<noteq> 25"
  shows "bytes (build_udp_packet bo cksum m) i = udp_header_bytes ! i"
proof -
  note bo = byteorder_ok.cpu_to_be_16[OF assms(1)] byteorder_ok.cpu_to_be_32[OF assms(1)]
  have upt: "[0..<42] = [0, 1, 2, 3, 4, 5, 6, 7, 8, 9, 10, 11, 12, 13, 14, 15, 16, 17, 18, 19, 20, 21, 22, 23, 24,
      25, 26, 27, 28, 29, 30, 31, 32, 33, 34, 35, 36, 37, 38, 39, 40, 41 :: nat]" by code_simp
  have "i \<in> set [0..<42]" using assms(2) by simp
  then have cases: "i \<in> set [0, 1, 2, 3, 4, 5, 6, 7, 8, 9, 10, 11, 12, 13, 14, 15, 16, 17, 18, 19, 20, 21, 22, 23, 24,
      25, 26, 27, 28, 29, 30, 31, 32, 33, 34, 35, 36, 37, 38, 39, 40, 41]" unfolding upt .
  show ?thesis
    using cases assms(3,4)
    unfolding build_udp_packet_def eth_ip_headers_def Let_def header_lens ether_consts proto_consts list.set insert_iff empty_iff
    by (elim disjE; simp add: bo bswap_consts store16_def store32_def store8_def
        store_bytes_def udp_header_bytes_def bytes)
qed

text \<open>
  C27. Round trip with the decoder of the pipeline programs: decoding a built packet prints
  the addresses and ports the builder put in, and nothing else, whatever the buffer held
  before. The addresses are 127.0.0.1 twice (the comments say 10.0.0.1 and 10.0.0.2).
\<close>

theorem build_parse_roundtrip:
  assumes "byteorder_ok bo"
  shows "parse_packet bo (bytes (build_udp_packet bo cksum m)) =
    [OutEthernet [0x00, 0x15, 0x5d, 0x0e, 0x66, 0x03] [0xFF, 0xFF, 0xFF, 0xFF, 0xFF, 0xFF],
     OutIPv4 [127, 0, 0, 1] [127, 0, 0, 1], OutUdp 1234 5678]"
proof -
  let ?b = "bytes (build_udp_packet bo cksum m)"
  note B = build_bytes[OF assms, of _ cksum m]
  note [simp] = byteorder_ok.be_to_cpu_16_load[OF assms]
  have upt6: "[0..<6] = [0, 1, 2, 3, 4, 5 :: nat]" by code_simp
  have macs: "read_bytes ?b 6 6 = [0x00, 0x15, 0x5d, 0x0e, 0x66, 0x03]"
    "read_bytes ?b 0 6 = [0xFF, 0xFF, 0xFF, 0xFF, 0xFF, 0xFF]"
    by (simp_all add: read_bytes_def upt6 B udp_header_bytes_def)
  have ty: "be16 (?b 12) (?b 13) = RTE_ETHER_TYPE_IPV4"
    by (simp add: B udp_header_bytes_def be16_def le16_def ether_consts)
  have ihl: "ihl_bytes (?b 14) = 20" by (simp add: B udp_header_bytes_def ihl_bytes_def)
  have ips: "dotted_raw (load32 ?b 26) = [127, 0, 0, 1]" "dotted_raw (load32 ?b 30) = [127, 0, 0, 1]"
    by (simp_all add: B udp_header_bytes_def load32_def le32_def dotted_raw_def)
  have udp: "?b 23 = IPPROTO_UDP" "be16 (?b 34) (?b 35) = 1234" "be16 (?b 36) (?b 37) = 5678"
    by (simp_all add: B udp_header_bytes_def be16_def le16_def proto_consts)
  show ?thesis
    using ty ihl ips udp macs
    by (simp add: parse_packet_def ether_type_def parse_ipv4_def header_lens Let_def ether_consts)
qed

definition blank_packet :: packet where
  "blank_packet = \<lparr>bytes = (\<lambda>_. 0xAA), data_len = 0, pkt_len = 0\<rparr>"

theorem build_parse_roundtrip_witness:
  "byteorder_ok le_host \<and>
   parse_packet le_host (bytes (build_udp_packet le_host ref_cksum blank_packet)) =
    [OutEthernet [0x00, 0x15, 0x5d, 0x0e, 0x66, 0x03] [0xFF, 0xFF, 0xFF, 0xFF, 0xFF, 0xFF],
     OutIPv4 [127, 0, 0, 1] [127, 0, 0, 1], OutUdp 1234 5678]"
  using build_parse_roundtrip[OF le_host.byteorder_ok_axioms] le_host.byteorder_ok_axioms by blast

lemma hdr_valid_cong:
  assumes "ihl_bytes (h 0) = 20" and "\<And>i. i < 20 \<Longrightarrow> h i = h' i"
  shows "hdr_valid h = hdr_valid h'"
proof -
  have "load16 h (2 * i) = load16 h' (2 * i)" if "i < 10" for i
    using that assms(2)[of "2 * i"] assms(2)[of "2 * i + 1"] by (intro load16_cong) auto
  then have "hdr_sum h = hdr_sum h'"
    using assms by (auto simp: hdr_sum_def intro: sum.cong)
  then show ?thesis by (simp add: hdr_valid_def)
qed

text \<open>
  The frame is consistent: its length is 68, the IPv4 and UDP length fields say what is
  behind them, and, with a checksum routine that keeps its contract, the IPv4 header
  checksum is valid.
\<close>

theorem build_udp_consistent:
  assumes "byteorder_ok bo" and "ipv4_cksum_ok cksum"
  shows "data_len (build_udp_packet bo cksum m) = 68 \<and> pkt_len (build_udp_packet bo cksum m) = 68 \<and>
    unat (be16 (bytes (build_udp_packet bo cksum m) 16) (bytes (build_udp_packet bo cksum m) 17)) = 68 - 14 \<and>
    unat (be16 (bytes (build_udp_packet bo cksum m) 38) (bytes (build_udp_packet bo cksum m) 39)) = 68 - 34 \<and>
    hdr_valid (ip_part (bytes (build_udp_packet bo cksum m)))"
proof -
  let ?b = "bytes (build_udp_packet bo cksum m)" and ?e = "eth_ip_headers bo 26 (bytes m)"
  let ?h = "\<lambda>i. ?e (14 + i)"
  note B = build_bytes[OF assms(1), of _ cksum m]
  have len: "unat (be16 (?b 16) (?b 17)) = 68 - 14" "unat (be16 (?b 38) (?b 39)) = 68 - 34"
    by (simp_all add: B udp_header_bytes_def be16_def le16_def)
  have e: "ihl_bytes (?h 0) = 20" "load16 ?h 10 = 0"
    by (simp_all add: eth_ip_headers_def Let_def header_lens store16_def store32_def store8_def
        ihl_bytes_def load16_def le16_def)
  have "hdr_valid (store16 10 (cksum ?h) ?h)"
    using e by (intro ipv4_cksum_ok.cksum_valid[OF assms(2)]) simp_all
  moreover have "ip_part ?b i = store16 10 (cksum ?h) ?h i" if "i < 20" for i
    using that by (simp add: ip_part_def build_udp_packet_def Let_def header_lens store_bytes_def
        store16_nth)
  moreover have "ihl_bytes (ip_part ?b 0) = 20"
    by (simp add: ip_part_def B udp_header_bytes_def ihl_bytes_def)
  ultimately have "hdr_valid (ip_part ?b)" using hdr_valid_cong[of "ip_part ?b"] by blast
  with len show ?thesis by (simp add: build_udp_packet_def Let_def header_lens)
qed

theorem build_udp_consistent_witness:
  "ipv4_cksum_ok ref_cksum \<and>
   hdr_valid (ip_part (bytes (build_udp_packet le_host ref_cksum blank_packet)))"
  using build_udp_consistent[OF le_host.byteorder_ok_axioms ref_cksum.ipv4_cksum_ok_axioms]
    ref_cksum.ipv4_cksum_ok_axioms by blast

subsection \<open>The transmit loop\<close>

definition simple_tx_pass :: "'n ethdev \<Rightarrow> mbuf \<Rightarrow> ('n, 'z) world_scheme \<Rightarrow> ('n, 'z) world_scheme" where
  "simple_tx_pass nd m w =
     (case eth_tx nd 0 0 [m] w of (k, w) \<Rightarrow> if k = 0 then pktmbuf_free m w else w)"

text \<open>
  The loop keeps using a buffer it no longer owns: the buffer is allocated once, and
  after \<open>k\<close> passes it has been handed to the driver or to the pool \<open>k\<close> times, whatever the
  driver does. From the second pass on this is a use after free.
\<close>

theorem simple_tx_reuses_buffer:
  assumes "ethdev_ok nd"
  shows "disposed ((simple_tx_pass nd m ^^ k) w) = disposed w + replicate_mset k m"
proof (induction k)
  case (Suc k)
  let ?w = "(simple_tx_pass nd m ^^ k) w"
  have "fst (eth_tx nd 0 0 [m] ?w) \<le> 1" using ethdev_ok.eth_tx_le[OF assms, of 0 0 "[m]" ?w] by simp
  then have "fst (eth_tx nd 0 0 [m] ?w) = 0 \<or> fst (eth_tx nd 0 0 [m] ?w) = 1" by linarith
  then have "disposed (simple_tx_pass nd m ?w) = add_mset m (disposed ?w)"
    by (auto simp: simple_tx_pass_def case_prod_beta ledger)
  with Suc.IH show ?case by simp
qed simp

theorem simple_tx_reuses_buffer_witness:
  "ethdev_ok script_dev \<and>
   disposed ((simple_tx_pass script_dev 7 ^^ 2) (start_world \<lparr>next_addr = 0, bursts = [], tx_caps = [1, 0]\<rparr>)) =
     {#7, 7#}"
proof -
  have "disposed (start_world s) = {#}" for s :: script by (simp add: disposed_def sent_bufs_def)
  then show ?thesis
    using simple_tx_reuses_buffer[OF script_dev.ethdev_ok_axioms, where m = 7 and k = 2
        and w = "start_world \<lparr>next_addr = 0, bursts = [], tx_caps = [1, 0]\<rparr>"]
      script_dev.ethdev_ok_axioms by (simp add: numeral_2_eq_2)
qed

end
