(* ===== verification/MacLearning.thy ===== *)
theory MacLearning
  imports Prelude
begin

text \<open>
  MAC learning: \<open>l2_forwarding/main.c\<close> (learn the source, look the destination up, forward
  or flood), \<open>hashing/mac_learning/main.c\<close> and \<open>hashing/sample/main.c\<close>. The table is an
  \<open>rte_hash\<close>, not under src/: its two operations are the argument \<open>ho\<close> over a table state,
  and their documented contract, a finite map of bounded size, is the locale \<open>hash_ok\<close>. An
  Ethernet address is the list of its six bytes; the stored pointer is a 64-bit value.
\<close>

record ('k, 'h) hash_ops =
  add_key_data :: "'k \<Rightarrow> u64 \<Rightarrow> 'h \<Rightarrow> int \<times> 'h"
  lookup_data :: "'k \<Rightarrow> 'h \<Rightarrow> u64 option"            \<comment> \<open>\<open>None\<close> is a negative result\<close>

locale hash_ok =
  fixes ho :: "('k, 'h) hash_ops" and tbl :: "'h \<Rightarrow> 'k \<Rightarrow> u64 option" and cap :: nat
  assumes add: "add_key_data ho k v h = (r, h') \<Longrightarrow> finite (dom (tbl h)) \<Longrightarrow>
      (if k \<in> dom (tbl h) \<or> card (dom (tbl h)) < cap then 0 \<le> r \<and> tbl h' = (tbl h)(k \<mapsto> v)
       else r < 0 \<and> tbl h' = tbl h)"
    and lookup: "lookup_data ho k h = tbl h k"
begin

lemma add_result:
  assumes "finite (dom (tbl h))" and "k \<in> dom (tbl h) \<or> card (dom (tbl h)) < cap"
  shows "tbl (snd (add_key_data ho k v h)) = (tbl h)(k \<mapsto> v)"
  using add[of k v h "fst (add_key_data ho k v h)" "snd (add_key_data ho k v h)"] assms by simp

end

text \<open>A table with that contract: an association list of at most \<open>cap\<close> entries.\<close>

definition alist_table :: "nat \<Rightarrow> ('k, ('k \<times> u64) list) hash_ops" where
  "alist_table cap = \<lparr>add_key_data = (\<lambda>k v h.
       if map_of h k \<noteq> None then (0, (k, v) # filter (\<lambda>e. fst e \<noteq> k) h)
       else if length (remdups (map fst h)) < cap then (0, (k, v) # h) else (-1, h)),
     lookup_data = (\<lambda>k h. map_of h k)\<rparr>"

lemma card_dom_map_of: "card (dom (map_of h)) = length (remdups (map fst h))"
  by (simp add: dom_map_of_conv_image_fst length_remdups_card_conv)

interpretation alist_table: hash_ok "alist_table cap" map_of cap
proof
  fix k :: 'a and v and h h' :: "('a \<times> u64) list" and r
  assume "add_key_data (alist_table cap) k v h = (r, h')"
  then have eq: "(r, h') = (if map_of h k \<noteq> None then (0, (k, v) # filter (\<lambda>e. fst e \<noteq> k) h)
       else if length (remdups (map fst h)) < cap then (0, (k, v) # h) else (-1, h))"
    by (simp add: alist_table_def)
  have "x \<noteq> k \<Longrightarrow> map_of (filter (\<lambda>e. fst e \<noteq> k) h) x = map_of h x" for x
    by (induction h) auto
  then have "map_of ((k, v) # filter (\<lambda>e. fst e \<noteq> k) h) = (map_of h)(k \<mapsto> v)"
    by (auto simp: fun_eq_iff)
  moreover have "map_of ((k, v) # h) = (map_of h)(k \<mapsto> v)" by simp
  ultimately show "if k \<in> dom (map_of h) \<or> card (dom (map_of h)) < cap
      then 0 \<le> r \<and> map_of h' = (map_of h)(k \<mapsto> v) else r < 0 \<and> map_of h' = map_of h"
    using eq unfolding card_dom_map_of by (auto split: if_splits simp del: map_of.simps)
qed (simp add: alist_table_def)

subsection \<open>The switch\<close>

type_synonym mac = "u8 list"

definition HASH_ENTRIES :: nat where "HASH_ENTRIES = 1024"
definition MAX_PORTS :: nat where "MAX_PORTS = 4"

datatype verdict = Forward u16 | Flood "nat list"

definition mac_learn :: "(mac, 'h) hash_ops \<Rightarrow> mac \<Rightarrow> u16 \<Rightarrow> 'h \<Rightarrow> 'h" where
  "mac_learn ho src_mac port table = snd (add_key_data ho src_mac (ucast port) table)"

definition mac_lookup :: "(mac, 'h) hash_ops \<Rightarrow> mac \<Rightarrow> 'h \<Rightarrow> u16 option" where
  "mac_lookup ho dst_mac table =
     (case lookup_data ho dst_mac table of Some v \<Rightarrow> Some (ucast v) | None \<Rightarrow> None)"

definition flood_packet :: "u16 \<Rightarrow> nat list" where
  "flood_packet in_port = filter (\<lambda>p. p \<noteq> unat in_port) [0..<MAX_PORTS]"

definition process_packet ::
    "(mac, 'h) hash_ops \<Rightarrow> mac \<Rightarrow> mac \<Rightarrow> u16 \<Rightarrow> 'h \<Rightarrow> verdict \<times> 'h" where
  "process_packet ho src dst in_port table =
     (let table = mac_learn ho src in_port table in
      case mac_lookup ho dst table of
        Some out_port \<Rightarrow> (Forward out_port, table)
      | None \<Rightarrow> (Flood (flood_packet in_port), table))"

fun process_all :: "(mac, 'h) hash_ops \<Rightarrow> (mac \<times> mac \<times> u16) list \<Rightarrow> 'h \<Rightarrow> verdict list" where
  "process_all ho [] table = []"
| "process_all ho ((src, dst, p) # ps) table =
     (case process_packet ho src dst p table of (v, table) \<Rightarrow> v # process_all ho ps table)"

text \<open>The three frames of \<open>main\<close>.\<close>

definition mac_A :: mac where "mac_A = [0xAA, 0xBB, 0xCC, 0xDD, 0xEE, 0x01]"
definition mac_B :: mac where "mac_B = [0xAA, 0xBB, 0xCC, 0xDD, 0xEE, 0x02]"
definition mac_C :: mac where "mac_C = [0xAA, 0xBB, 0xCC, 0xDD, 0xEE, 0x03]"

definition l2_main :: "(mac, 'h) hash_ops \<Rightarrow> 'h \<Rightarrow> verdict list" where
  "l2_main ho table = process_all ho [(mac_A, mac_C, 0), (mac_C, mac_A, 2), (mac_A, mac_C, 0)] table"

text \<open>The demonstration of \<open>hashing/mac_learning\<close>: the same two operations, without the switch.\<close>

definition ml_mac_learn :: "(mac, 'h) hash_ops \<Rightarrow> mac \<Rightarrow> u16 \<Rightarrow> 'h \<Rightarrow> 'h" where
  "ml_mac_learn ho src_mac port h = snd (add_key_data ho src_mac (ucast port) h)"

definition ml_mac_lookup :: "(mac, 'h) hash_ops \<Rightarrow> mac \<Rightarrow> 'h \<Rightarrow> u16 option" where
  "ml_mac_lookup ho dst_mac h =
     (case lookup_data ho dst_mac h of Some v \<Rightarrow> Some (ucast v) | None \<Rightarrow> None)"

definition ml_main :: "(mac, 'h) hash_ops \<Rightarrow> 'h \<Rightarrow> u16 option list" where
  "ml_main ho h =
     (let h = ml_mac_learn ho mac_A 1 h; h = ml_mac_learn ho mac_B 2 h
      in [ml_mac_lookup ho mac_A h, ml_mac_lookup ho mac_C h])"

text \<open>And of \<open>hashing/sample\<close>: key 50, value 500.\<close>

definition hash_sample_main :: "(u32, 'h) hash_ops \<Rightarrow> 'h \<Rightarrow> u32 option" where
  "hash_sample_main ho h =
     (let h = snd (add_key_data ho 50 500 h) in
      case lookup_data ho 50 h of Some v \<Rightarrow> Some (ucast v) | None \<Rightarrow> None)"

text \<open>\<open>print_mac\<close>, in two copies: the bytes with \<open>%02X\<close>, separated by colons.\<close>

definition hex_char :: "nat \<Rightarrow> char" where
  "hex_char d = char_of (if d < 10 then 48 + d else 55 + d)"

definition hex2 :: "u8 \<Rightarrow> string" where
  "hex2 b = [hex_char (unat b div 16), hex_char (unat b mod 16)]"

definition print_mac :: "mac \<Rightarrow> string" where
  "print_mac addr = hex2 (addr ! 0) @ '':'' @ hex2 (addr ! 1) @ '':'' @ hex2 (addr ! 2) @ '':'' @
     hex2 (addr ! 3) @ '':'' @ hex2 (addr ! 4) @ '':'' @ hex2 (addr ! 5)"

definition ml_print_mac :: "mac \<Rightarrow> string" where
  "ml_print_mac addr = hex2 (addr ! 0) @ '':'' @ hex2 (addr ! 1) @ '':'' @ hex2 (addr ! 2) @ '':'' @
     hex2 (addr ! 3) @ '':'' @ hex2 (addr ! 4) @ '':'' @ hex2 (addr ! 5)"

lemma hex_char_inj: "d < 16 \<Longrightarrow> e < 16 \<Longrightarrow> hex_char d = hex_char e \<longleftrightarrow> d = e"
  by (auto simp: hex_char_def split: if_splits dest!: arg_cong[where f = "of_char :: char \<Rightarrow> nat"])

lemma hex2_inj: "hex2 a = hex2 b \<longleftrightarrow> a = b"
proof -
  have "unat a < 2 ^ LENGTH(8)" "unat b < 2 ^ LENGTH(8)" by (rule unsigned_less)+
  then have "hex2 a = hex2 b \<longleftrightarrow> unat a div 16 = unat b div 16 \<and> unat a mod 16 = unat b mod 16"
    by (simp add: hex2_def hex_char_inj div_less_iff_less_mult)
  also have "\<dots> \<longleftrightarrow> unat a = unat b" by (metis mult_div_mod_eq)
  finally show ?thesis by (simp add: word_unat_eq_iff)
qed

text \<open>Two addresses printed alike are the same.\<close>

lemma print_mac_inj:
  assumes "length a = 6" and "length b = 6"
  shows "print_mac a = print_mac b \<longleftrightarrow> a = b"
proof
  have len: "length (hex2 x) = 2" for x by (simp add: hex2_def)
  assume "print_mac a = print_mac b"
  then have "a ! 0 = b ! 0 \<and> a ! 1 = b ! 1 \<and> a ! 2 = b ! 2 \<and> a ! 3 = b ! 3 \<and> a ! 4 = b ! 4 \<and> a ! 5 = b ! 5"
    by (simp add: print_mac_def len hex2_inj)
  moreover have "i < 6 \<Longrightarrow> i = 0 \<or> i = 1 \<or> i = 2 \<or> i = 3 \<or> i = 4 \<or> i = 5" for i :: nat by arith
  ultimately show "a = b" using assms by (intro nth_equalityI) auto
qed simp

subsection \<open>What a learning switch does\<close>

text \<open>The specification: the port each address was last seen on.\<close>

type_synonym seen = "mac \<Rightarrow> u16 option"

fun switch_spec :: "(mac \<times> mac \<times> u16) list \<Rightarrow> seen \<Rightarrow> verdict list" where
  "switch_spec [] s = []"
| "switch_spec ((src, dst, p) # ps) s =
     (case (s(src \<mapsto> p)) dst of
        Some q \<Rightarrow> Forward q
      | None \<Rightarrow> Flood (filter (\<lambda>q. q \<noteq> unat p) [0..<MAX_PORTS])) # switch_spec ps (s(src \<mapsto> p))"

lemma ucast_port: "ucast (ucast (p :: u16) :: u64) = p"
  by (rule bit_word_eqI) (auto simp: bit_simps dest: bit_imp_le_length)

lemma process_all_refines:
  assumes "hash_ok ho tbl cap" and "finite (dom (tbl h))"
    and "card (dom (tbl h) \<union> fst ` set ps) \<le> cap"
  shows "process_all ho ps h = switch_spec ps (\<lambda>m. map_option ucast (tbl h m))"
  using assms(2,3)
proof (induction ps arbitrary: h)
  case (Cons e ps)
  obtain src dst p where e: "e = (src, dst, p)" by (cases e)
  let ?h = "mac_learn ho src p h"
  have "src \<in> dom (tbl h) \<or> card (dom (tbl h)) < cap"
  proof (rule disjCI)
    assume "\<not> card (dom (tbl h)) < cap"
    then have "card (dom (tbl h) \<union> fst ` set (e # ps)) \<le> card (dom (tbl h))" using Cons.prems(2) by simp
    then have "dom (tbl h) \<union> fst ` set (e # ps) = dom (tbl h)"
      using Cons.prems(1) by (intro card_seteq[symmetric]) auto
    then show "src \<in> dom (tbl h)" by (auto simp: e)
  qed
  then have t: "tbl ?h = (tbl h)(src \<mapsto> ucast p)"
    unfolding mac_learn_def by (intro hash_ok.add_result[OF assms(1)] Cons.prems(1))
  then have "finite (dom (tbl ?h))" "dom (tbl ?h) \<union> fst ` set ps = dom (tbl h) \<union> fst ` set (e # ps)"
    using Cons.prems(1) by (auto simp: e)
  then have ih: "process_all ho ps ?h = switch_spec ps (\<lambda>m. map_option ucast (tbl ?h m))"
    using Cons.prems(2) by (intro Cons.IH) simp_all
  have s: "(\<lambda>m. map_option ucast (tbl ?h m)) = (\<lambda>m. map_option ucast (tbl h m))(src \<mapsto> p)"
    by (auto simp: t ucast_port)
  have l: "mac_lookup ho dst ?h = ((\<lambda>m. map_option ucast (tbl h m))(src \<mapsto> p)) dst"
    unfolding s[symmetric] by (simp add: mac_lookup_def hash_ok.lookup[OF assms(1)] map_option_case)
  show ?case
    using ih unfolding s
    by (simp add: e process_packet_def Let_def l flood_packet_def split: option.split)
qed simp



text \<open>
  The demonstrations print what they should: with any hash table of at least two
  entries that starts empty, \<open>l2_forwarding\<close> floods the first frame and then forwards to
  ports 0 and 2, \<open>mac_learning\<close> finds its first address on port 1 and not its third, and
  \<open>hashing/sample\<close> finds 500.
\<close>

theorem hash_demos:
  assumes "hash_ok ho tbl cap" and "tbl h = Map.empty" and "2 \<le> cap"
    and "hash_ok ho' tbl' cap'" and "tbl' h' = Map.empty" and "1 \<le> cap'"
  shows "l2_main ho h = [Flood [1, 2, 3], Forward 0, Forward 2] \<and>
    ml_main ho h = [Some 1, None] \<and> hash_sample_main ho' h' = Some 500"
proof (intro conjI)
  let ?ps = "[(mac_A, mac_C, 0), (mac_C, mac_A, 2), (mac_A, mac_C, 0)]"
  have "card (dom (tbl h) \<union> fst ` set ?ps) \<le> cap"
    using assms(2,3) by (simp add: mac_A_def mac_C_def insert_commute)
  then have "l2_main ho h = switch_spec ?ps (\<lambda>m. map_option ucast (tbl h m))"
    unfolding l2_main_def using assms(2) by (intro process_all_refines[OF assms(1)]) simp_all
  also have "\<dots> = switch_spec ?ps (\<lambda>_. None)" using assms(2) by simp
  also have "\<dots> = [Flood [1, 2, 3], Forward 0, Forward 2]" by code_simp
  finally show "l2_main ho h = [Flood [1, 2, 3], Forward 0, Forward 2]" .
  have ne: "mac_A \<noteq> mac_B" "mac_C \<noteq> mac_A" "mac_C \<noteq> mac_B" by (simp_all add: mac_A_def mac_B_def mac_C_def)
  note add = hash_ok.add_result[OF assms(1)] and look = hash_ok.lookup[OF assms(1)]
  have t1: "tbl (ml_mac_learn ho mac_A 1 h) = [mac_A \<mapsto> 1]"
    unfolding ml_mac_learn_def using assms(2,3) by (subst add) simp_all
  have "tbl (ml_mac_learn ho mac_B 2 (ml_mac_learn ho mac_A 1 h)) = [mac_A \<mapsto> 1, mac_B \<mapsto> 2]"
    unfolding ml_mac_learn_def[of ho mac_B] using assms(3) by (subst add) (simp_all add: t1)
  then show "ml_main ho h = [Some 1, None]"
    using ne by (simp add: ml_main_def Let_def ml_mac_lookup_def look)
  have "tbl' (snd (add_key_data ho' 50 500 h')) = [50 \<mapsto> 500]"
    using assms(5,6) by (subst hash_ok.add_result[OF assms(4)]) simp_all
  then show "hash_sample_main ho' h' = Some 500"
    by (simp add: hash_sample_main_def Let_def hash_ok.lookup[OF assms(4)])
qed

theorem hash_demos_witness:
  "l2_main (alist_table 1024) [] = [Flood [1, 2, 3], Forward 0, Forward 2] \<and>
   ml_main (alist_table 1024) [] = [Some 1, None] \<and> hash_sample_main (alist_table 1024) [] = Some 500"
  by (rule hash_demos[OF alist_table.hash_ok_axioms _ _ alist_table.hash_ok_axioms]) simp_all

end
