(* ===== verification/Lpm.thy ===== *)
theory Lpm
  imports Ethdev
begin

text \<open>
  Longest-prefix-match routing: \<open>longest_prefix_match_lpm/simple/main.c\<close>, which routes
  received packets, and \<open>longest_prefix_match_lpm/ipv4table/main.c\<close>. The table is an
  \<open>rte_lpm\<close>, not under src/: the operations are the argument \<open>lo\<close>, and the locale \<open>lpm_ok\<close>
  states what the library documents, a finite set of prefixes with a next hop each and a
  lookup that takes the longest one that matches.
\<close>

record 'l lpm_ops =
  lpm_add :: "u32 \<Rightarrow> nat \<Rightarrow> u32 \<Rightarrow> 'l \<Rightarrow> int \<times> 'l"
  lpm_lookup :: "u32 \<Rightarrow> 'l \<Rightarrow> u32 option"       \<comment> \<open>\<open>None\<close> is a result other than 0\<close>

text \<open>Rules are keyed by the leading bits of the prefix and its depth.\<close>

type_synonym rules = "u32 \<times> nat \<Rightarrow> u32 option"

definition prefix_of :: "u32 \<Rightarrow> nat \<Rightarrow> u32 \<times> nat" where
  "prefix_of ip depth = (drop_bit (32 - depth) ip, depth)"

definition depths :: "nat list" where
  "depths = [32, 31, 30, 29, 28, 27, 26, 25, 24, 23, 22, 21, 20, 19, 18, 17,
             16, 15, 14, 13, 12, 11, 10, 9, 8, 7, 6, 5, 4, 3, 2, 1]"

definition best_match :: "rules \<Rightarrow> u32 \<Rightarrow> u32 option" where
  "best_match R ip =
     (case filter (\<lambda>d. R (prefix_of ip d) \<noteq> None) depths of
        [] \<Rightarrow> None | d # _ \<Rightarrow> R (prefix_of ip d))"

locale lpm_ok =
  fixes lo :: "'l lpm_ops" and rules :: "'l \<Rightarrow> rules" and max_rules :: nat
  assumes add: "1 \<le> d \<Longrightarrow> d \<le> 32 \<Longrightarrow> finite (dom (rules l)) \<Longrightarrow> card (dom (rules l)) < max_rules \<Longrightarrow>
      0 \<le> fst (lpm_add lo ip d nh l) \<and>
      rules (snd (lpm_add lo ip d nh l)) = (rules l)(prefix_of ip d \<mapsto> nh)"
    and lookup: "lpm_lookup lo ip l = best_match (rules l) ip"

text \<open>A table with that contract: the prefixes as an association list.\<close>

definition alist_lpm :: "((u32 \<times> nat) \<times> u32) list lpm_ops" where
  "alist_lpm = \<lparr>lpm_add = (\<lambda>ip d nh l. (0, (prefix_of ip d, nh) # l)),
                 lpm_lookup = (\<lambda>ip l. best_match (map_of l) ip)\<rparr>"

interpretation alist_lpm: lpm_ok alist_lpm map_of max_rules
  by unfold_locales (simp_all add: alist_lpm_def)

subsection \<open>Tables\<close>

definition lpm_ip :: "u8 \<Rightarrow> u8 \<Rightarrow> u8 \<Rightarrow> u8 \<Rightarrow> u32" where
  "lpm_ip a b c d = push_bit 24 (ucast a) OR push_bit 16 (ucast b) OR push_bit 8 (ucast c) OR ucast d"

text \<open>\<open>init_lpm\<close>: the results of the four additions are ignored.\<close>

definition init_lpm :: "'l lpm_ops \<Rightarrow> 'l \<Rightarrow> 'l" where
  "init_lpm lo l =
     (let l = snd (lpm_add lo (lpm_ip 10 1 2 0) 24 1 l);
          l = snd (lpm_add lo (lpm_ip 10 1 0 0) 16 2 l);
          l = snd (lpm_add lo (lpm_ip 192 0 0 0) 8 3 l)
      in snd (lpm_add lo (lpm_ip 172 0 0 0) 4 4 l))"

definition ipv4table_main :: "'l lpm_ops \<Rightarrow> 'l \<Rightarrow> u32 option" where
  "ipv4table_main lo l =
     (let l = snd (lpm_add lo (lpm_ip 10 0 0 0) 8 1 l);
          l = snd (lpm_add lo (lpm_ip 10 1 0 0) 16 2 l);
          l = snd (lpm_add lo (lpm_ip 10 1 1 0) 24 3 l)
      in lpm_lookup lo (lpm_ip 10 1 1 25) l)"

lemma three_more:
  assumes "lpm_ok lo rules mx" and "rules l = Map.empty" and "4 \<le> mx"
    and "d1 \<in> {1..32}" and "d2 \<in> {1..32}" and "d3 \<in> {1..32}"
  shows "rules (snd (lpm_add lo p3 d3 n3 (snd (lpm_add lo p2 d2 n2 (snd (lpm_add lo p1 d1 n1 l)))))) =
    [prefix_of p1 d1 \<mapsto> n1, prefix_of p2 d2 \<mapsto> n2, prefix_of p3 d3 \<mapsto> n3]"
proof -
  note add = lpm_ok.add[OF assms(1), THEN conjunct2]
  have 1: "rules (snd (lpm_add lo p1 d1 n1 l)) = [prefix_of p1 d1 \<mapsto> n1]"
    using assms by (subst add) simp_all
  have 2: "rules (snd (lpm_add lo p2 d2 n2 (snd (lpm_add lo p1 d1 n1 l)))) =
      [prefix_of p1 d1 \<mapsto> n1, prefix_of p2 d2 \<mapsto> n2]"
    using assms by (subst add) (simp_all add: 1)
  have "card {prefix_of p2 d2, prefix_of p1 d1} \<le> 2"
    using card_length[of "[prefix_of p2 d2, prefix_of p1 d1]"] by simp
  then show ?thesis using assms by (subst add) (simp_all add: 2)
qed

text \<open>The routes of \<open>simple\<close> as a function of the address.\<close>

definition simple_route :: "u32 \<Rightarrow> u32 option" where
  "simple_route ip =
     (if drop_bit 8 ip = 0x0A0102 then Some 1
      else if drop_bit 16 ip = 0x0A01 then Some 2
      else if drop_bit 24 ip = 192 then Some 3
      else if drop_bit 28 ip = 0xA then Some 4
      else None)"

lemma best_match_simple:
  "best_match [prefix_of (lpm_ip 10 1 2 0) 24 \<mapsto> 1, prefix_of (lpm_ip 10 1 0 0) 16 \<mapsto> 2,
     prefix_of (lpm_ip 192 0 0 0) 8 \<mapsto> 3, prefix_of (lpm_ip 172 0 0 0) 4 \<mapsto> 4] ip = simple_route ip"
  by (simp add: best_match_def depths_def prefix_of_def lpm_ip_def simple_route_def)

text \<open>
  The routing table of \<open>simple\<close>, with any LPM library that keeps its contract and a
  table that starts empty: 10.1.2.0/24 goes to next hop 1, the rest of 10.1.0.0/16 to 2,
  192.0.0.0/8 to 3; the last route has depth 4, so it takes all of 160.0.0.0 to
  175.255.255.255 and not only 172.0.0.0/8 to next hop 4; any other address has no route.
  The table of \<open>ipv4table\<close> sends 10.1.1.25 to the next hop of its longest prefix, 3.
\<close>

theorem lpm_tables:
  assumes "lpm_ok lo rules mx" and "rules l = Map.empty" and "4 \<le> mx"
  shows "lpm_lookup lo ip (init_lpm lo l) = simple_route ip \<and> ipv4table_main lo l = Some 3"
proof
  let ?l3 = "snd (lpm_add lo (lpm_ip 192 0 0 0) 8 3 (snd (lpm_add lo (lpm_ip 10 1 0 0) 16 2
      (snd (lpm_add lo (lpm_ip 10 1 2 0) 24 1 l)))))"
  have r3: "rules ?l3 = [prefix_of (lpm_ip 10 1 2 0) 24 \<mapsto> 1, prefix_of (lpm_ip 10 1 0 0) 16 \<mapsto> 2,
      prefix_of (lpm_ip 192 0 0 0) 8 \<mapsto> 3]"
    by (rule three_more[OF assms]) simp_all
  have "card {x, y, z :: u32 \<times> nat} \<le> 3" for x y z
    using card_length[of "[x, y, z]"] by simp
  then have "card (dom (rules ?l3)) \<le> 3" unfolding r3 by simp
  then have "card (dom (rules ?l3)) < mx" using assms(3) by linarith
  then have "rules (init_lpm lo l) = [prefix_of (lpm_ip 10 1 2 0) 24 \<mapsto> 1,
      prefix_of (lpm_ip 10 1 0 0) 16 \<mapsto> 2, prefix_of (lpm_ip 192 0 0 0) 8 \<mapsto> 3,
      prefix_of (lpm_ip 172 0 0 0) 4 \<mapsto> 4]"
    unfolding init_lpm_def Let_def using r3
    by (subst lpm_ok.add[OF assms(1), THEN conjunct2]) simp_all
  then show "lpm_lookup lo ip (init_lpm lo l) = simple_route ip"
    by (simp add: lpm_ok.lookup[OF assms(1)] best_match_simple)
  have "best_match [prefix_of (lpm_ip 10 0 0 0) 8 \<mapsto> 1, prefix_of (lpm_ip 10 1 0 0) 16 \<mapsto> 2,
      prefix_of (lpm_ip 10 1 1 0) 24 \<mapsto> 3] (lpm_ip 10 1 1 25) = Some 3"
    by (simp add: best_match_def depths_def prefix_of_def lpm_ip_def)
  then show "ipv4table_main lo l = Some 3"
    unfolding ipv4table_main_def Let_def lpm_ok.lookup[OF assms(1)]
    by (subst three_more[OF assms]) simp_all
qed

theorem lpm_tables_witness:
  "lpm_ok alist_lpm map_of 1024 \<and>
   lpm_lookup alist_lpm 0x0A010203 (init_lpm alist_lpm []) = Some 1 \<and>
   lpm_lookup alist_lpm 0xA5000001 (init_lpm alist_lpm []) = Some 4 \<and>
   ipv4table_main alist_lpm [] = Some 3"
  using lpm_tables[OF alist_lpm.lpm_ok_axioms[of 1024], of "[]"] alist_lpm.lpm_ok_axioms
  by (simp add: simple_route_def)

subsection \<open>The router loop\<close>

text \<open>\<open>route_log\<close>: destination and next hop of each IPv4 packet, as printed.\<close>

record 'n lpm_world = "'n world" +
  route_log :: "(u32 \<times> u32 option) list"

definition lpm_is_ipv4 :: "byteorder \<Rightarrow> buffer \<Rightarrow> bool" where
  "lpm_is_ipv4 bo b \<longleftrightarrow> ether_type b = cpu_to_be_16 bo RTE_ETHER_TYPE_IPV4"

definition lpm_handler ::
    "'n ethdev \<Rightarrow> byteorder \<Rightarrow> 'l lpm_ops \<Rightarrow> 'l \<Rightarrow> nat \<Rightarrow> mbuf \<Rightarrow> 'n lpm_world \<Rightarrow> 'n lpm_world" where
  "lpm_handler nd bo lo table port m w =
     (let b = bytes (mem w m) in
      if \<not> lpm_is_ipv4 bo b then w
      else
        let dst_ip = be_to_cpu_32 bo (load32 b (ETH_LEN + 16))
        in snd (eth_tx nd port 0 [m]
             (w\<lparr>route_log := route_log w @ [(dst_ip, lpm_lookup lo dst_ip table)]\<rparr>)))"

definition lpm_pass ::
    "'n ethdev \<Rightarrow> byteorder \<Rightarrow> 'l lpm_ops \<Rightarrow> 'l \<Rightarrow> nat \<Rightarrow> 'n lpm_world \<Rightarrow> 'n lpm_world" where
  "lpm_pass nd bo lo table port w =
     (case eth_rx nd port 0 32 w of (pkts, w) \<Rightarrow>
        if pkts = [] then w else fold (lpm_handler nd bo lo table port) pkts w)"

text \<open>The buffers a pass drops on the floor: not IPv4, or refused by the driver.\<close>

definition lpm_drops ::
    "'n ethdev \<Rightarrow> byteorder \<Rightarrow> 'l lpm_ops \<Rightarrow> 'l \<Rightarrow> nat \<Rightarrow> mbuf \<Rightarrow> 'n lpm_world \<Rightarrow> bool" where
  "lpm_drops nd bo lo table port m w \<longleftrightarrow>
     sent (lpm_handler nd bo lo table port m w) = sent w"

fun lpm_lost_of ::
    "'n ethdev \<Rightarrow> byteorder \<Rightarrow> 'l lpm_ops \<Rightarrow> 'l \<Rightarrow> nat \<Rightarrow> mbuf list \<Rightarrow> 'n lpm_world \<Rightarrow> mbuf list" where
  "lpm_lost_of nd bo lo table port [] w = []"
| "lpm_lost_of nd bo lo table port (m # ms) w =
     (if lpm_drops nd bo lo table port m w then [m] else []) @
     lpm_lost_of nd bo lo table port ms (lpm_handler nd bo lo table port m w)"

definition lpm_lost ::
    "'n ethdev \<Rightarrow> byteorder \<Rightarrow> 'l lpm_ops \<Rightarrow> 'l \<Rightarrow> nat \<Rightarrow> 'n lpm_world \<Rightarrow> mbuf multiset" where
  "lpm_lost nd bo lo table port w =
     (case eth_rx nd port 0 32 w of (pkts, w) \<Rightarrow> mset (lpm_lost_of nd bo lo table port pkts w))"

lemma lpm_frame [frame]:
  "disposed (w\<lparr>route_log := r\<rparr>) = disposed w" "route_log (snd (eth_tx nd p q ms w)) = route_log w"
  "route_log (snd (eth_rx nd p q n w)) = route_log w"
  for w :: "'n lpm_world"
  by (simp_all add: disposed_def sent_bufs_def eth_tx_def eth_rx_def split: prod.split)

lemma lpm_handler_frame [frame]:
  "got (lpm_handler nd bo lo t p m w) = got w" "mem (lpm_handler nd bo lo t p m w) = mem w"
  by (simp_all add: lpm_handler_def Let_def frame)

lemma lpm_handler_ledger:
  "disposed (lpm_handler nd bo lo t p m w) =
     disposed w + (if lpm_drops nd bo lo t p m w then {#} else {#m#})"
proof -
  have "take k [m] = (if k = 0 then [] else [m])" for k by (cases k) auto
  then show ?thesis
    by (auto simp: lpm_drops_def lpm_handler_def Let_def frame ledger eth_tx_sent)
qed

lemma fold_lpm_ledger:
  "disposed (fold (lpm_handler nd bo lo t p) ms w) + mset (lpm_lost_of nd bo lo t p ms w) =
     disposed w + mset ms"
  by (induction ms arbitrary: w) (simp_all add: lpm_handler_ledger union_commute add.assoc)

lemma fold_lpm_frame [frame]:
  "got (fold (lpm_handler nd bo lo t p) ms w) = got w" "mem (fold (lpm_handler nd bo lo t p) ms w) = mem w"
  by (rule fold_frame, simp add: frame)+

interpretation lpm_router: packet_loop "lpm_pass nd bo lo t p" "lpm_lost nd bo lo t p"
proof
  fix w :: "'a lpm_world"
  have "disposed (fold (lpm_handler nd bo lo t p) (fst (eth_rx nd p 0 32 w)) (snd (eth_rx nd p 0 32 w))) +
      mset (lpm_lost_of nd bo lo t p (fst (eth_rx nd p 0 32 w)) (snd (eth_rx nd p 0 32 w))) =
      disposed w + mset (fst (eth_rx nd p 0 32 w))"
    by (simp add: fold_lpm_ledger ledger)
  then show "disposed (lpm_pass nd bo lo t p w) + lpm_lost nd bo lo t p w + mset (got w) =
      disposed w + mset (got (lpm_pass nd bo lo t p w))"
    by (cases "fst (eth_rx nd p 0 32 w) = []")
      (simp_all add: lpm_pass_def lpm_lost_def case_prod_beta frame ledger ac_simps)
qed

lemma lpm_lost_non_ipv4:
  "mset (filter (\<lambda>m. \<not> lpm_is_ipv4 bo (bytes (mem w m))) ms) \<subseteq># mset (lpm_lost_of nd bo lo t p ms w)"
proof (induction ms arbitrary: w)
  case (Cons m ms)
  have "lpm_drops nd bo lo t p m w" if "\<not> lpm_is_ipv4 bo (bytes (mem w m))"
    using that by (simp add: lpm_drops_def lpm_handler_def Let_def)
  moreover have "A \<subseteq># B \<Longrightarrow> A \<subseteq># add_mset m B" for A B
    by (metis add_mset_add_single mset_subset_eq_add_left subset_mset.order_trans)
  ultimately show ?case
    using Cons.IH[of "lpm_handler nd bo lo t p m w"] by (auto simp: frame)
qed simp

lemma fold_lpm_log:
  "route_log (fold (lpm_handler nd bo lo t p) ms w) = route_log w @
     map (\<lambda>m. let d = be_to_cpu_32 bo (load32 (bytes (mem w m)) 30) in (d, lpm_lookup lo d t))
       (filter (\<lambda>m. lpm_is_ipv4 bo (bytes (mem w m))) ms)"
  by (induction ms arbitrary: w) (simp_all add: frame, simp add: lpm_handler_def Let_def frame header_lens)

text \<open>
  C36. One pass of the router, with any driver and any traffic: it looks up and prints
  exactly the IPv4 packets of the burst, in order, each with its own destination; no buffer
  is disposed of twice; and the buffers the pass leaks, which stay outstanding for ever,
  include every non-IPv4 packet, since the \<open>continue\<close> skips both the transmission and the
  free.
\<close>

theorem lpm_pass_outcome:
  assumes "byteorder_ok bo" and "accounted w" and "eth_rx nd port 0 32 w = (pkts, w1)"
  shows "accounted (lpm_pass nd bo lo table port w) \<and>
    outstanding (lpm_pass nd bo lo table port w) = outstanding w + lpm_lost nd bo lo table port w \<and>
    mset (filter (\<lambda>m. be16 (bytes (mem w1 m) 12) (bytes (mem w1 m) 13) \<noteq> RTE_ETHER_TYPE_IPV4) pkts)
      \<subseteq># lpm_lost nd bo lo table port w \<and>
    route_log (lpm_pass nd bo lo table port w) = route_log w @
      map (\<lambda>m. let b = bytes (mem w1 m); d = be32 (b 30) (b 31) (b 32) (b 33)
               in (d, lpm_lookup lo d table))
        (filter (\<lambda>m. be16 (bytes (mem w1 m) 12) (bytes (mem w1 m) 13) = RTE_ETHER_TYPE_IPV4) pkts)"
proof (intro conjI)
  have ty: "lpm_is_ipv4 bo b \<longleftrightarrow> be16 (b 12) (b 13) = RTE_ETHER_TYPE_IPV4" for b
    using byteorder_ok.load16_eq_cpu_to_be[OF assms(1), of b 12 RTE_ETHER_TYPE_IPV4]
    by (simp add: lpm_is_ipv4_def ether_type_def)
  have dst: "be_to_cpu_32 bo (load32 b 30) = be32 (b 30) (b 31) (b 32) (b 33)" for b
    using byteorder_ok.be_to_cpu_32_load[OF assms(1), of b 30] by simp
  show "accounted (lpm_pass nd bo lo table port w)"
    "outstanding (lpm_pass nd bo lo table port w) = outstanding w + lpm_lost nd bo lo table port w"
    by (rule lpm_router.accounted_iter[OF assms(2)])+
  show "mset (filter (\<lambda>m. be16 (bytes (mem w1 m) 12) (bytes (mem w1 m) 13) \<noteq> RTE_ETHER_TYPE_IPV4) pkts)
      \<subseteq># lpm_lost nd bo lo table port w"
    using lpm_lost_non_ipv4[of bo w1 pkts nd lo table port] by (simp add: lpm_lost_def assms(3) ty)
  have "route_log w1 = route_log w" using lpm_frame(3)[of nd port 0 32 w] by (simp add: assms(3))
  then show "route_log (lpm_pass nd bo lo table port w) = route_log w @
      map (\<lambda>m. let b = bytes (mem w1 m); d = be32 (b 30) (b 31) (b 32) (b 33)
               in (d, lpm_lookup lo d table))
        (filter (\<lambda>m. be16 (bytes (mem w1 m) 12) (bytes (mem w1 m) 13) = RTE_ETHER_TYPE_IPV4) pkts)"
    by (cases "pkts = []") (simp_all add: lpm_pass_def assms(3) fold_lpm_log ty dst Let_def)
qed

text \<open>An ARP packet, then an IPv4 packet to 10.1.2.3.\<close>

definition lpm_script :: script where
  "lpm_script = \<lparr>next_addr = 1, bursts =
     [[\<lparr>bytes = (\<lambda>i. if i = 12 then 8 else if i = 13 then 6 else 0), data_len = 60, pkt_len = 60\<rparr>,
       \<lparr>bytes = (\<lambda>i. if i = 12 then 8 else if i = 30 then 10 else if i = 31 then 1
                    else if i = 32 then 2 else if i = 33 then 3 else 0), data_len = 60, pkt_len = 60\<rparr>]],
     tx_caps = []\<rparr>"

definition lpm_demo :: "script lpm_world" where
  "lpm_demo = world.extend (start_world lpm_script) \<lparr>route_log = []\<rparr>"

theorem lpm_pass_outcome_witness:
  "byteorder_ok le_host \<and> accounted lpm_demo \<and>
   {#1#} \<subseteq># outstanding (lpm_pass script_dev le_host alist_lpm (init_lpm alist_lpm []) 0 lpm_demo)"
proof -
  let ?w1 = "snd (eth_rx script_dev 0 0 32 lpm_demo)"
  have acc: "accounted lpm_demo"
    by (simp add: lpm_demo_def start_world_def world.defs accounted_def disposed_def sent_bufs_def)
  have "fst (eth_rx script_dev 0 0 32 lpm_demo) = [1, 2]" by code_simp
  then have e: "eth_rx script_dev 0 0 32 lpm_demo = ([1, 2], ?w1)" by (simp add: prod_eq_iff)
  have rx: "bytes (mem ?w1 1) 12 = 8" "bytes (mem ?w1 1) 13 = 6" "bytes (mem ?w1 2) 12 = 8" "bytes (mem ?w1 2) 13 = 0"
    by code_simp+
  have "be16 8 6 \<noteq> RTE_ETHER_TYPE_IPV4" "be16 8 0 = RTE_ETHER_TYPE_IPV4"
    by (simp_all add: be16_def le16_def ether_consts)
  then have "mset (filter (\<lambda>m. be16 (bytes (mem ?w1 m) 12) (bytes (mem ?w1 m) 13) \<noteq> RTE_ETHER_TYPE_IPV4)
      [1, 2]) = {#1#}" using rx by simp
  then have lost: "{#1#} \<subseteq># lpm_lost script_dev le_host alist_lpm (init_lpm alist_lpm []) 0 lpm_demo"
    and out: "outstanding (lpm_pass script_dev le_host alist_lpm (init_lpm alist_lpm []) 0 lpm_demo) =
      outstanding lpm_demo + lpm_lost script_dev le_host alist_lpm (init_lpm alist_lpm []) 0 lpm_demo"
    using lpm_pass_outcome[OF le_host.byteorder_ok_axioms acc e, where lo = alist_lpm
        and table = "init_lpm alist_lpm []"] by simp_all
  have "{#1#} \<subseteq># outstanding (lpm_pass script_dev le_host alist_lpm (init_lpm alist_lpm []) 0 lpm_demo)"
    unfolding out by (rule subset_mset.order_trans[OF lost]) simp
  then show ?thesis using acc le_host.byteorder_ok_axioms by simp
qed

end
