(* ===== verification/Reorder.thy ===== *)
theory Reorder
  imports Ring
begin

text \<open>
  Sequence numbers in packet buffers: \<open>reordering/dynamic_seqno/main.c\<close> numbers its first ten
  packets and stops; \<open>reordering/rx_burst/main.c\<close> and \<open>main2.c\<close> number every packet and pass
  it through a reorder buffer. The number is a dynamic field of the buffer; \<open>stamped\<close> records
  the writes to it, in order.
\<close>

subsection \<open>The first ten packets\<close>

record 'n seq_world = "'n world" +
  seq :: u32
  stamped :: "(mbuf \<times> u32) list"
  stopped :: bool

definition seqno_packet :: "mbuf \<Rightarrow> 'n seq_world \<Rightarrow> 'n seq_world" where
  "seqno_packet m w =
     pktmbuf_free m (if seq w < 10 then w\<lparr>stamped := stamped w @ [(m, seq w)], seq := seq w + 1\<rparr> else w)"

text \<open>One pass of \<open>lcore_main_loop\<close>; a stopped loop takes no further pass.\<close>

definition seqno_pass :: "'n ethdev \<Rightarrow> 'n seq_world \<Rightarrow> 'n seq_world" where
  "seqno_pass nd w =
     (if stopped w then w
      else case eth_rx nd 0 0 32 w of (pkts, w) \<Rightarrow>
        if pkts = [] then w
        else let w = fold seqno_packet pkts w
             in if 10 \<le> seq w then w\<lparr>stopped := True\<rparr> else w)"

lemma seq_frame [frame]:
  fixes w :: "'n seq_world"
  shows "disposed (w\<lparr>seq := s\<rparr>) = disposed w" "disposed (w\<lparr>stamped := st\<rparr>) = disposed w"
  "disposed (w\<lparr>stopped := b\<rparr>) = disposed w" "seq (pktmbuf_free m w) = seq w"
  "stamped (pktmbuf_free m w) = stamped w" "stopped (pktmbuf_free m w) = stopped w"
  "seq (snd (eth_rx nd p q n w)) = seq w" "stamped (snd (eth_rx nd p q n w)) = stamped w"
  "stopped (snd (eth_rx nd p q n w)) = stopped w"
  by (simp_all add: disposed_def sent_bufs_def pktmbuf_free_def eth_rx_def split: prod.split)

text \<open>The numbering after the packets \<open>ms\<close>.\<close>

definition numbered :: "mbuf list \<Rightarrow> 'n seq_world \<Rightarrow> bool" where
  "numbered ms w \<longleftrightarrow> seq w = of_nat (min 10 (length ms)) \<and>
     stamped w = zip (take 10 ms) (map of_nat [0..<10])"

lemma seqno_packet_numbered:
  assumes "numbered ms w"
  shows "numbered (ms @ [m]) (seqno_packet m w)"
proof (cases "length ms < 10")
  case True
  then have "seq w < 10" using assms by (simp add: numbered_def word_less_nat_alt unat_of_nat)
  moreover have "zip (ms @ [m]) (map of_nat [0..<10]) =
      zip ms (map of_nat [0..<10]) @ [(m, of_nat (length ms) :: u32)]"
  proof -
    have "[0..<10] = [0..<length ms] @ length ms # [Suc (length ms)..<10]"
      using True upt_add_eq_append[of 0 "length ms" "10 - length ms"] by (simp add: upt_conv_Cons)
    then show ?thesis by (simp add: zip_append1 zip_append2)
  qed
  moreover have "min 10 (length ms) = length ms" "min 10 (Suc (length ms)) = Suc (length ms)"
    using True by simp_all
  ultimately show ?thesis
    using assms True by (simp add: numbered_def seqno_packet_def frame)
next
  case False
  then have "\<not> seq w < 10" using assms by (simp add: numbered_def)
  then show ?thesis using assms False by (simp add: numbered_def seqno_packet_def frame)
qed

lemma fold_seqno_numbered: "numbered ms w \<Longrightarrow> numbered (ms @ pkts) (fold seqno_packet pkts w)"
proof (induction pkts arbitrary: ms w)
  case (Cons m pkts)
  from Cons.IH[OF seqno_packet_numbered[OF Cons.prems]] show ?case by simp
qed simp

lemma fold_seqno_frame [frame]:
  "got (fold seqno_packet pkts w) = got w" "stopped (fold seqno_packet pkts w) = stopped w"
  by (rule fold_frame, simp add: seqno_packet_def frame)+

lemma fold_seqno_ledger: "disposed (fold seqno_packet pkts w) = disposed w + mset pkts"
  by (induction pkts arbitrary: w) (simp_all add: seqno_packet_def ledger frame)

interpretation seqno: leak_free_loop "seqno_pass nd"
  by unfold_locales
    (simp add: seqno_pass_def case_prod_beta Let_def fold_seqno_ledger ledger frame ac_simps)

definition seqno_inv :: "'n seq_world \<Rightarrow> bool" where
  "seqno_inv w \<longleftrightarrow> numbered (got w) w \<and> (stopped w \<longleftrightarrow> 10 \<le> length (got w))"

lemma seqno_pass_inv:
  assumes "seqno_inv w"
  shows "seqno_inv (seqno_pass nd w)"
proof (cases "stopped w \<or> fst (eth_rx nd 0 0 32 w) = []")
  case True
  then show ?thesis
    using assms by (auto simp: seqno_pass_def seqno_inv_def numbered_def case_prod_beta frame)
next
  case False
  let ?pkts = "fst (eth_rx nd 0 0 32 w)" and ?w = "snd (eth_rx nd 0 0 32 w)"
  let ?w' = "fold seqno_packet ?pkts ?w"
  have "numbered (got w) ?w" using assms by (simp add: seqno_inv_def numbered_def frame)
  then have n: "numbered (got w @ ?pkts) ?w'" by (rule fold_seqno_numbered)
  then have "10 \<le> seq ?w' \<longleftrightarrow> 10 \<le> length (got w @ ?pkts)"
    by (auto simp: numbered_def word_le_nat_alt unat_of_nat min_def)
  moreover have "seqno_pass nd w = (if 10 \<le> seq ?w' then ?w'\<lparr>stopped := True\<rparr> else ?w')"
    using False by (simp add: seqno_pass_def case_prod_beta Let_def)
  moreover have "\<not> stopped ?w'" using False by (simp add: frame)
  ultimately show ?thesis using n by (auto simp: seqno_inv_def numbered_def frame)
qed

text \<open>
  The numbering program, with any driver: after any number of passes the numbers 0, 1,
  ... have been written to the first ten packets received (fewer when fewer have arrived),
  in order of arrival, and to no other; the loop has stopped exactly when ten packets have
  arrived; and every packet received has been freed exactly once.
\<close>

theorem seqno_loop:
  assumes "balanced w" and "got w = []" and "seq w = 0" and "stamped w = []" and "\<not> stopped w"
  shows "stamped ((seqno_pass nd ^^ k) w) =
           zip (take 10 (got ((seqno_pass nd ^^ k) w))) (map of_nat [0..<10]) \<and>
         (stopped ((seqno_pass nd ^^ k) w) \<longleftrightarrow> 10 \<le> length (got ((seqno_pass nd ^^ k) w))) \<and>
         balanced ((seqno_pass nd ^^ k) w)"
proof -
  have "seqno_inv w" using assms(2-5) by (simp add: seqno_inv_def numbered_def)
  then have "seqno_inv ((seqno_pass nd ^^ k) w)" by (induction k) (simp_all add: seqno_pass_inv)
  then show ?thesis
    using seqno.balanced_run[OF assms(1)] by (auto simp: seqno_inv_def numbered_def)
qed

definition seq_start :: "script \<Rightarrow> script seq_world" where
  "seq_start s = world.extend (start_world s) \<lparr>seq = 0, stamped = [], stopped = False\<rparr>"

definition seq_script :: script where
  "seq_script = \<lparr>next_addr = 1, bursts = [replicate 4 \<lparr>bytes = (\<lambda>_. 0), data_len = 60, pkt_len = 60\<rparr>],
     tx_caps = []\<rparr>"

lemma seq_start_ok: "balanced (seq_start s)" "got (seq_start s) = []" "seq (seq_start s) = 0"
    "stamped (seq_start s) = []" "\<not> stopped (seq_start s)"
  by (simp_all add: seq_start_def start_world_def world.defs balanced_def disposed_def sent_bufs_def)

theorem seqno_loop_witness:
  "got ((seqno_pass script_dev ^^ 2) (seq_start seq_script)) = [1, 2, 3, 4] \<and>
   stamped ((seqno_pass script_dev ^^ 2) (seq_start seq_script)) = [(1, 0), (2, 1), (3, 2), (4, 3)] \<and>
   balanced ((seqno_pass script_dev ^^ 2) (seq_start seq_script))"
proof -
  have "got ((seqno_pass script_dev ^^ 2) (seq_start seq_script)) = [1, 2, 3, 4]" by code_simp
  moreover have "zip (take 10 [1, 2, 3, 4 :: nat]) (map of_nat [0..<10]) =
      [(1, 0), (2, 1), (3, 2), (4, 3 :: u32)]" by code_simp
  ultimately show ?thesis
    using seqno_loop[OF seq_start_ok, of 2 script_dev seq_script] by simp
qed

subsection \<open>The reorder buffer\<close>

text \<open>
  \<open>rte_reorder\<close> is not under src/: inserting and draining are the fields of the argument
  \<open>ro\<close>. Insertion reads the number of the buffer, which the model passes to it. Its
  documented contract, for the use the programs make of it: \<open>pending\<close> are the packets a
  drain returns, with their numbers; \<open>ready r s\<close> says that \<open>s\<close> continues the sequence and
  that nothing is held behind a gap. A number that continues the sequence is accepted while
  fewer than \<open>window\<close> packets are pending.
\<close>

record 'r reorder_ops =
  insert_packet :: "mbuf \<Rightarrow> u32 \<Rightarrow> 'r \<Rightarrow> bool \<times> 'r"   \<comment> \<open>\<open>False\<close> is a negative return value\<close>
  drain_packets :: "nat \<Rightarrow> 'r \<Rightarrow> mbuf list \<times> 'r"

locale reorder_ok =
  fixes ro :: "'r reorder_ops"
    and pending :: "'r \<Rightarrow> (mbuf \<times> u32) list"
    and ready :: "'r \<Rightarrow> u32 \<Rightarrow> bool"
    and window :: "'r \<Rightarrow> nat"
  assumes ins: "insert_packet ro m s r = (ok, r') \<Longrightarrow> ready r s \<Longrightarrow> length (pending r) < window r \<Longrightarrow>
      ok \<and> pending r' = pending r @ [(m, s)] \<and> ready r' (s + 1) \<and> window r' = window r"
    and drn: "drain_packets ro n r = (ms, r') \<Longrightarrow>
      ms = map fst (take n (pending r)) \<and> pending r' = drop n (pending r) \<and>
      window r' = window r \<and> (ready r s \<longrightarrow> ready r' s)"

record ('n, 'r) reorder_world = "'n world" +
  rbuf :: 'r
  seq_counter :: u32
  seqns :: "mbuf \<Rightarrow> u32"
  drained :: "u32 list"              \<comment> \<open>the numbers printed for the packets drained\<close>

definition reorder_packet :: "'r reorder_ops \<Rightarrow> mbuf \<Rightarrow> ('n, 'r) reorder_world \<Rightarrow> ('n, 'r) reorder_world" where
  "reorder_packet ro m w =
     (let s = seq_counter w;
          w = w\<lparr>seq_counter := s + 1, seqns := (seqns w)(m := s)\<rparr>
      in case insert_packet ro m (seqns w m) (rbuf w) of (ok, r) \<Rightarrow>
        let w = w\<lparr>rbuf := r\<rparr> in if ok then w else pktmbuf_free m w)"

definition drained_packet :: "mbuf \<Rightarrow> ('n, 'r) reorder_world \<Rightarrow> ('n, 'r) reorder_world" where
  "drained_packet m w = pktmbuf_free m (w\<lparr>drained := drained w @ [seqns w m]\<rparr>)"

text \<open>One pass, for a burst size; nothing is drained in a pass that receives nothing.\<close>

definition rx_reorder_pass ::
    "'n ethdev \<Rightarrow> 'r reorder_ops \<Rightarrow> nat \<Rightarrow> ('n, 'r) reorder_world \<Rightarrow> ('n, 'r) reorder_world" where
  "rx_reorder_pass nd ro burst w =
     (case eth_rx nd 0 0 burst w of (pkts, w) \<Rightarrow>
        if pkts = [] then w
        else let w = fold (reorder_packet ro) pkts w
             in case drain_packets ro burst (rbuf w) of (out, r) \<Rightarrow>
                  fold drained_packet out (w\<lparr>rbuf := r\<rparr>))"

definition reorder_main_pass where
  "reorder_main_pass nd ro = rx_reorder_pass nd ro 8"

definition reorder_main2_pass where
  "reorder_main2_pass nd ro = rx_reorder_pass nd ro 32"

lemma reorder_frame [frame]:
  fixes w :: "('n, 'r) reorder_world"
  shows "rbuf (snd (eth_rx nd p q n w)) = rbuf w" "seq_counter (snd (eth_rx nd p q n w)) = seq_counter w"
  "drained (snd (eth_rx nd p q n w)) = drained w"
  by (simp_all add: eth_rx_def split: prod.split)

lemma drained_packet_frame [frame]:
  "rbuf (drained_packet m w) = rbuf w" "seq_counter (drained_packet m w) = seq_counter w"
  "seqns (drained_packet m w) = seqns w" "got (drained_packet m w) = got w"
  "sent (drained_packet m w) = sent w" "freed (drained_packet m w) = freed w @ [m]"
  "drained (drained_packet m w) = drained w @ [seqns w m]"
  by (simp_all add: drained_packet_def pktmbuf_free_def)

lemma fold_drained [frame]:
  "rbuf (fold drained_packet ms w) = rbuf w" "seq_counter (fold drained_packet ms w) = seq_counter w"
  "got (fold drained_packet ms w) = got w" "sent (fold drained_packet ms w) = sent w"
  "freed (fold drained_packet ms w) = freed w @ ms"
  "drained (fold drained_packet ms w) = drained w @ map (seqns w) ms"
  by (induction ms arbitrary: w) (simp_all add: frame)

text \<open>The numbers given to \<open>n\<close> packets when the counter stands at \<open>c\<close>.\<close>

fun numbers :: "u32 \<Rightarrow> nat \<Rightarrow> u32 list" where
  "numbers c 0 = []"
| "numbers c (Suc n) = c # numbers (c + 1) n"

lemma length_numbers [simp]: "length (numbers c n) = n"
  by (induction n arbitrary: c) auto

lemma numbers_add: "numbers c (m + n) = numbers c m @ numbers (c + of_nat m) n"
  by (induction m arbitrary: c) (auto simp: ac_simps)

lemma numbers_nth: "i < n \<Longrightarrow> numbers c n ! i = c + of_nat i"
proof (induction n arbitrary: c i)
  case (Suc n)
  then show ?case by (cases i) auto
qed simp

context reorder_ok
begin

lemma reorder_packet_accepted:
  assumes "ready (rbuf w) (seq_counter w)" and "length (pending (rbuf w)) < window (rbuf w)"
  shows "\<exists>r. reorder_packet ro m w =
      w\<lparr>seq_counter := seq_counter w + 1, seqns := (seqns w)(m := seq_counter w), rbuf := r\<rparr> \<and>
    pending r = pending (rbuf w) @ [(m, seq_counter w)] \<and> ready r (seq_counter w + 1) \<and>
    window r = window (rbuf w)"
  using ins[OF prod.collapse[symmetric] assms, of m]
  by (intro exI[of _ "snd (insert_packet ro m (seq_counter w) (rbuf w))"])
    (simp add: reorder_packet_def Let_def case_prod_beta)

lemma fold_reorder_packet:
  assumes "ready (rbuf w) (seq_counter w)" and "distinct ms"
    and "length (pending (rbuf w)) + length ms \<le> window (rbuf w)"
  shows "\<exists>r g. fold (reorder_packet ro) ms w =
      w\<lparr>seq_counter := seq_counter w + of_nat (length ms), seqns := g, rbuf := r\<rparr> \<and>
    pending r = pending (rbuf w) @ zip ms (numbers (seq_counter w) (length ms)) \<and>
    ready r (seq_counter w + of_nat (length ms)) \<and> window r = window (rbuf w) \<and>
    map g ms = numbers (seq_counter w) (length ms) \<and> (\<forall>m. m \<notin> set ms \<longrightarrow> g m = seqns w m)"
  using assms
proof (induction ms arbitrary: w)
  case Nil
  then show ?case by (intro exI[of _ "rbuf w"] exI[of _ "seqns w"]) simp
next
  case (Cons m ms)
  have "length (pending (rbuf w)) < window (rbuf w)" using Cons.prems(3) by simp
  then obtain r where r: "reorder_packet ro m w =
      w\<lparr>seq_counter := seq_counter w + 1, seqns := (seqns w)(m := seq_counter w), rbuf := r\<rparr>"
      "pending r = pending (rbuf w) @ [(m, seq_counter w)]" "ready r (seq_counter w + 1)"
      "window r = window (rbuf w)"
    using reorder_packet_accepted[OF Cons.prems(1)] by blast
  let ?w = "reorder_packet ro m w"
  have "ready (rbuf ?w) (seq_counter ?w)" "distinct ms"
    "length (pending (rbuf ?w)) + length ms \<le> window (rbuf ?w)"
    using Cons.prems r by simp_all
  from Cons.IH[OF this] obtain r' g where "fold (reorder_packet ro) ms ?w =
      ?w\<lparr>seq_counter := seq_counter ?w + of_nat (length ms), seqns := g, rbuf := r'\<rparr>"
    "pending r' = pending (rbuf ?w) @ zip ms (numbers (seq_counter ?w) (length ms))"
    "ready r' (seq_counter ?w + of_nat (length ms))" "window r' = window (rbuf ?w)"
    "map g ms = numbers (seq_counter ?w) (length ms)" "\<forall>m. m \<notin> set ms \<longrightarrow> g m = seqns ?w m"
    by blast
  then show ?case using r Cons.prems(2)
    by (intro exI[of _ r'] exI[of _ g]) (simp add: ac_simps)
qed

text \<open>What holds between passes: nothing is pending and every packet has been printed.\<close>

definition in_step :: "('n, 'r) reorder_world \<Rightarrow> bool" where
  "in_step w \<longleftrightarrow> pending (rbuf w) = [] \<and> ready (rbuf w) (of_nat (length (got w))) \<and>
     seq_counter w = of_nat (length (got w)) \<and> drained w = numbers 0 (length (got w)) \<and>
     freed w = got w \<and> sent w = []"

lemma rx_reorder_pass_in_step:
  assumes dev: "ethdev_ok nd" and win: "n \<le> window (rbuf w)" and inv: "in_step w"
  shows "in_step (rx_reorder_pass nd ro n w) \<and>
    window (rbuf (rx_reorder_pass nd ro n w)) = window (rbuf w)"
proof (cases "fst (eth_rx nd 0 0 n w) = []")
  case True
  then show ?thesis using inv
    by (simp add: rx_reorder_pass_def case_prod_beta in_step_def frame)
next
  case False
  define ms and v where "ms = fst (eth_rx nd 0 0 n w)" and "v = snd (eth_rx nd 0 0 n w)"
  have v: "rbuf v = rbuf w" "seq_counter v = seq_counter w" "drained v = drained w"
    "got v = got w @ ms" "freed v = freed w" "sent v = sent w"
    by (simp_all add: v_def ms_def frame)
  have len: "length ms \<le> n" and dist: "distinct ms"
    using dev by (simp_all add: ms_def ethdev_ok.eth_rx_length ethdev_ok.eth_rx_distinct)
  have inv': "ready (rbuf v) (seq_counter v)" "pending (rbuf v) = []"
    using inv v by (simp_all add: in_step_def)
  have "length (pending (rbuf v)) + length ms \<le> window (rbuf v)" using len win v inv' by simp
  from fold_reorder_packet[OF inv'(1) dist this] obtain r g where f:
    "fold (reorder_packet ro) ms v =
      v\<lparr>seq_counter := seq_counter v + of_nat (length ms), seqns := g, rbuf := r\<rparr>"
    "pending r = zip ms (numbers (seq_counter v) (length ms))"
    "ready r (seq_counter v + of_nat (length ms))" "window r = window (rbuf v)"
    "map g ms = numbers (seq_counter v) (length ms)"
    using inv'(2) by auto
  obtain out r' where d: "drain_packets ro n r = (out, r')" by fastforce
  have out: "out = ms" "pending r' = []" "window r' = window r"
    "ready r' (seq_counter v + of_nat (length ms))"
    using drn[OF d] f(2,3) len by simp_all
  have "rx_reorder_pass nd ro n w = fold drained_packet ms
      (v\<lparr>seq_counter := seq_counter v + of_nat (length ms), seqns := g, rbuf := r'\<rparr>)"
    using False d out(1) f(1) by (simp add: rx_reorder_pass_def case_prod_beta Let_def ms_def v_def)
  then show ?thesis using inv out f v
    by (simp add: in_step_def frame numbers_add)
qed

lemma rx_reorder_run_in_step:
  assumes "ethdev_ok nd" and "n \<le> window (rbuf w)" and "in_step w"
  shows "in_step ((rx_reorder_pass nd ro n ^^ k) w)"
proof -
  have "in_step ((rx_reorder_pass nd ro n ^^ k) w) \<and>
      window (rbuf ((rx_reorder_pass nd ro n ^^ k) w)) = window (rbuf w)"
  proof (induction k)
    case (Suc k)
    then show ?case using rx_reorder_pass_in_step[OF assms(1), of n] assms(2) by simp
  qed (use assms in simp)
  then show ?thesis ..
qed

end

text \<open>A buffer with that contract: the window, the next number, the pending packets.\<close>

type_synonym seq_buffer = "nat \<times> u32 option \<times> (mbuf \<times> u32) list"

definition seq_reorder :: "seq_buffer reorder_ops" where
  "seq_reorder =
     \<lparr>insert_packet = (\<lambda>m s (win, next_seq, q).
        if (next_seq = None \<or> next_seq = Some s) \<and> length q < win then (True, (win, Some (s + 1), q @ [(m, s)]))
        else (False, (win, next_seq, q))),
      drain_packets = (\<lambda>n (win, next_seq, q). (map fst (take n q), (win, next_seq, drop n q)))\<rparr>"

interpretation seq_reorder: reorder_ok seq_reorder "\<lambda>(win, e, q). q"
    "\<lambda>(win, e, q) s. e \<in> {None, Some s}" "\<lambda>(win, e, q). win"
  by unfold_locales (auto simp: seq_reorder_def split: if_splits)

definition reorder_start :: "nat \<Rightarrow> script \<Rightarrow> (script, seq_buffer) reorder_world" where
  "reorder_start win s = world.extend (start_world s)
     \<lparr>rbuf = (win, None, []), seq_counter = 0, seqns = (\<lambda>_. 0), drained = []\<rparr>"

text \<open>
  C20. The two reorder programs (burst 8 with window 8, burst 32 with window 128), with any
  driver and any reorder buffer that meet their documentation: after any number of passes
  the reorder buffer has refused no packet and holds none; the numbers printed are 0, 1, 2,
  ... (modulo \<open>2^32\<close>), one for each packet received; and the packets have been freed exactly
  once each, in order of arrival.
\<close>

theorem reorder_in_order:
  assumes "ethdev_ok nd" and "reorder_ok ro pending ready window"
    and "pending (rbuf w) = []" and "ready (rbuf w) 0" and "seq_counter w = 0"
    and "got w = []" and "freed w = []" and "sent w = []" and "drained w = []"
    and "pass = reorder_main_pass nd ro \<and> window (rbuf w) = 8 \<or>
         pass = reorder_main2_pass nd ro \<and> window (rbuf w) = 128"
  shows "freed ((pass ^^ k) w) = got ((pass ^^ k) w) \<and>
         drained ((pass ^^ k) w) = numbers 0 (length (got ((pass ^^ k) w))) \<and>
         pending (rbuf ((pass ^^ k) w)) = [] \<and> sent ((pass ^^ k) w) = []"
proof -
  have "reorder_ok.in_step pending ready w"
    using assms(3-9) by (simp add: reorder_ok.in_step_def[OF assms(2)])
  then have "reorder_ok.in_step pending ready ((pass ^^ k) w)"
    using assms(10) reorder_ok.rx_reorder_run_in_step[OF assms(2,1)]
    by (auto simp: reorder_main_pass_def reorder_main2_pass_def)
  then show ?thesis by (simp add: reorder_ok.in_step_def[OF assms(2)])
qed

lemma rx_reorder_pass_rx:
  "got (rx_reorder_pass nd ro n w) = got w @ fst (eth_rx nd 0 0 n w)"
  "nic (rx_reorder_pass nd ro n w) = nic (snd (eth_rx nd 0 0 n w))"
proof -
  have ins: "got (fold (reorder_packet ro) ms v) = got v" "nic (fold (reorder_packet ro) ms v) = nic v" for ms v
    by (rule fold_frame, simp add: reorder_packet_def Let_def case_prod_beta frame pktmbuf_free_def)+
  have out: "nic (fold drained_packet ms v) = nic v" for ms v
    by (rule fold_frame) (simp add: drained_packet_def frame)
  show "got (rx_reorder_pass nd ro n w) = got w @ fst (eth_rx nd 0 0 n w)"
    "nic (rx_reorder_pass nd ro n w) = nic (snd (eth_rx nd 0 0 n w))"
    by (simp_all add: rx_reorder_pass_def case_prod_beta Let_def ins out frame)
qed

lemma reorder_start_ok:
  "case_prod (\<lambda>win (e, q). q) (rbuf (reorder_start win s)) = []"
  "case_prod (\<lambda>win (e, q) s. e \<in> {None, Some s}) (rbuf (reorder_start win s)) 0"
  "seq_counter (reorder_start win s) = 0" "got (reorder_start win s) = []"
  "freed (reorder_start win s) = []" "sent (reorder_start win s) = []"
  "drained (reorder_start win s) = []" "nic (reorder_start win s) = s"
  by (simp_all add: reorder_start_def start_world_def world.defs)

theorem reorder_in_order_witness:
  "freed ((reorder_main_pass script_dev seq_reorder ^^ 2) (reorder_start 8 seq_script)) = [1, 2, 3, 4] \<and>
   drained ((reorder_main_pass script_dev seq_reorder ^^ 2) (reorder_start 8 seq_script)) = [0, 1, 2, 3]"
proof -
  let ?w = "(reorder_main_pass script_dev seq_reorder ^^ 2) (reorder_start 8 seq_script)"
  have a: "reorder_main_pass script_dev seq_reorder = reorder_main_pass script_dev seq_reorder \<and>
      case_prod (\<lambda>win (e :: u32 option, q :: (mbuf \<times> u32) list). win) (rbuf (reorder_start 8 seq_script)) = 8 \<or>
      reorder_main_pass script_dev seq_reorder = reorder_main2_pass script_dev seq_reorder \<and>
      case_prod (\<lambda>win (e :: u32 option, q :: (mbuf \<times> u32) list). win) (rbuf (reorder_start 8 seq_script)) = 128"
    by (simp add: reorder_start_def start_world_def world.defs)
  have "[1..<5] = [1, 2, 3, 4 :: nat]" by code_simp
  then have g: "got ?w = [1, 2, 3, 4]"
    by (simp add: numeral_2_eq_2 reorder_main_pass_def rx_reorder_pass_rx script_rx
        reorder_start_ok seq_script_def)
  have n: "numbers 0 (length [1, 2, 3, 4 :: nat]) = [0, 1, 2, 3]" by code_simp
  from reorder_in_order[OF script_dev.ethdev_ok_axioms seq_reorder.reorder_ok_axioms reorder_start_ok(1-7) a, of 2]
  show ?thesis unfolding g n by blast
qed

end
