(* ===== verification/Acl.thy ===== *)
theory Acl
  imports Ethdev "HOL-Library.Sublist"
begin

text \<open>
  The packet filters under \<open>ACL/\<close>: the keys they build from a packet, the field layouts and
  rules they hand to the classifier, and the receive loops of \<open>exp\<close>, \<open>real_packet_acl\<close> and
  \<open>l2fwd_acl\<close>. The classifier \<open>rte_acl\<close> is not under src/: \<open>cls fields rules data\<close> is the result
  of \<open>rte_acl_classify\<close> on a context built from those fields and rules, and what its
  documentation says of that result is the locale \<open>acl_ok\<close>.
\<close>

subsection \<open>The vocabulary of the classifier\<close>

datatype field_type = Bitmask | Mask | Range

record field_def =
  f_type :: field_type
  f_size :: nat
  f_input :: nat
  f_offset :: nat

record acl_rule =
  priority :: nat
  category_mask :: u32
  userdata :: u32
  rule_fields :: "(u64 \<times> u64) list"     \<comment> \<open>\<open>value\<close> and \<open>mask_range\<close> of each field\<close>

text \<open>Rules are in host byte order, the data in network byte order.\<close>

definition field_of :: "field_def \<Rightarrow> buffer \<Rightarrow> u64" where
  "field_of d data =
     (if f_size d = 1 then ucast (data (f_offset d))
      else if f_size d = 2 then ucast (be16 (data (f_offset d)) (data (f_offset d + 1)))
      else ucast (be32 (data (f_offset d)) (data (f_offset d + 1)) (data (f_offset d + 2))
             (data (f_offset d + 3))))"

definition field_match :: "field_def \<Rightarrow> u64 \<times> u64 \<Rightarrow> buffer \<Rightarrow> bool" where
  "field_match d vm data =
     (case f_type d of
        Bitmask \<Rightarrow> field_of d data AND snd vm = fst vm AND snd vm
      | Mask \<Rightarrow> drop_bit (8 * f_size d - unat (snd vm)) (field_of d data) =
                drop_bit (8 * f_size d - unat (snd vm)) (fst vm)
      | Range \<Rightarrow> fst vm \<le> field_of d data \<and> field_of d data \<le> snd vm)"

definition rule_match :: "field_def list \<Rightarrow> acl_rule \<Rightarrow> buffer \<Rightarrow> bool" where
  "rule_match ds r data \<longleftrightarrow> list_all2 (\<lambda>d vm. field_match d vm data) ds (rule_fields r)"

text \<open>Category 0: the user data of the matching rule of highest priority, or 0.\<close>

definition best_rule :: "field_def list \<Rightarrow> acl_rule list \<Rightarrow> buffer \<Rightarrow> acl_rule option" where
  "best_rule ds rs data =
     fold (\<lambda>r best. if category_mask r AND 1 = 0 \<or> \<not> rule_match ds r data then best
        else case best of None \<Rightarrow> Some r
          | Some b \<Rightarrow> if priority b < priority r then Some r else Some b) rs None"

definition acl_result :: "field_def list \<Rightarrow> acl_rule list \<Rightarrow> buffer \<Rightarrow> u32" where
  "acl_result ds rs data = (case best_rule ds rs data of None \<Rightarrow> 0 | Some r \<Rightarrow> userdata r)"

text \<open>
  The layout the documentation asks for: the first field is one byte long, and the others
  fall, by input index, into groups of four consecutive bytes.
\<close>

definition group_ok :: "field_def list \<Rightarrow> nat \<Rightarrow> bool" where
  "group_ok ds i =
     (let g = filter (\<lambda>d. f_input d = i) ds
      in sum_list (map f_size g) = 4 \<and>
         (\<forall>k < length g. f_offset (g ! k) = f_offset (g ! 0) + sum_list (map f_size (take k g))))"

definition layout_ok :: "field_def list \<Rightarrow> bool" where
  "layout_ok ds =
     (case ds of [] \<Rightarrow> False
      | d # ds' \<Rightarrow> f_size d = 1 \<and> list_all (\<lambda>e. f_input e \<noteq> f_input d \<and> group_ok ds' (f_input e)) ds')"

type_synonym classifier = "field_def list \<Rightarrow> acl_rule list \<Rightarrow> buffer \<Rightarrow> u32"

locale acl_ok =
  fixes cls :: classifier
  assumes cls: "layout_ok ds \<Longrightarrow> distinct (map priority rs) \<Longrightarrow> cls ds rs data = acl_result ds rs data"

interpretation acl_ref: acl_ok acl_result
  by unfold_locales simp

subsection \<open>Keys, layouts and rules\<close>

text \<open>\<open>struct pkt_key\<close>: protocol 0, addresses 4 and 8, ports 12 and 14, 16 bytes.\<close>

definition exp_fields :: "field_def list" where
  "exp_fields =
     [\<lparr>f_type = Bitmask, f_size = 1, f_input = 0, f_offset = 0\<rparr>,
      \<lparr>f_type = Mask, f_size = 4, f_input = 1, f_offset = 4\<rparr>,
      \<lparr>f_type = Mask, f_size = 4, f_input = 2, f_offset = 8\<rparr>,
      \<lparr>f_type = Range, f_size = 2, f_input = 3, f_offset = 12\<rparr>,
      \<lparr>f_type = Range, f_size = 2, f_input = 3, f_offset = 14\<rparr>]"

definition l2fwd_fields :: "field_def list" where
  "l2fwd_fields =
     [\<lparr>f_type = Bitmask, f_size = 1, f_input = 0, f_offset = 0\<rparr>,
      \<lparr>f_type = Mask, f_size = 4, f_input = 1, f_offset = 4\<rparr>,
      \<lparr>f_type = Mask, f_size = 4, f_input = 2, f_offset = 8\<rparr>,
      \<lparr>f_type = Range, f_size = 2, f_input = 3, f_offset = 12\<rparr>,
      \<lparr>f_type = Range, f_size = 2, f_input = 3, f_offset = 14\<rparr>]"

text \<open>\<open>real_packet_acl\<close> and the programs after it give the last port an input index of its own.\<close>

definition real_fields :: "field_def list" where
  "real_fields =
     [\<lparr>f_type = Bitmask, f_size = 1, f_input = 0, f_offset = 0\<rparr>,
      \<lparr>f_type = Mask, f_size = 4, f_input = 1, f_offset = 4\<rparr>,
      \<lparr>f_type = Mask, f_size = 4, f_input = 2, f_offset = 8\<rparr>,
      \<lparr>f_type = Range, f_size = 2, f_input = 3, f_offset = 12\<rparr>,
      \<lparr>f_type = Range, f_size = 2, f_input = 4, f_offset = 14\<rparr>]"

definition dual_fields :: "field_def list" where
  "dual_fields =
     [\<lparr>f_type = Bitmask, f_size = 1, f_input = 0, f_offset = 0\<rparr>,
      \<lparr>f_type = Mask, f_size = 4, f_input = 1, f_offset = 4\<rparr>,
      \<lparr>f_type = Mask, f_size = 4, f_input = 2, f_offset = 8\<rparr>,
      \<lparr>f_type = Range, f_size = 2, f_input = 3, f_offset = 12\<rparr>,
      \<lparr>f_type = Range, f_size = 2, f_input = 4, f_offset = 14\<rparr>]"

text \<open>\<open>muti_rule\<close> lays its fields over an IPv4 header and the ports behind it.\<close>

definition multi_fields :: "field_def list" where
  "multi_fields =
     [\<lparr>f_type = Bitmask, f_size = 1, f_input = 0, f_offset = 9\<rparr>,
      \<lparr>f_type = Mask, f_size = 4, f_input = 1, f_offset = 12\<rparr>,
      \<lparr>f_type = Mask, f_size = 4, f_input = 2, f_offset = 16\<rparr>,
      \<lparr>f_type = Range, f_size = 2, f_input = 3, f_offset = 20\<rparr>,
      \<lparr>f_type = Range, f_size = 2, f_input = 4, f_offset = 22\<rparr>]"

definition exp_rule :: acl_rule where
  "exp_rule = \<lparr>priority = 10, category_mask = 1, userdata = 1,
     rule_fields = [(ucast IPPROTO_TCP, 0xFF), (ucast (ipv4_of 172 17 166 200), 32), (0, 0),
       (0, 65535), (0, 65535)]\<rparr>"

definition real_rule :: acl_rule where
  "real_rule = \<lparr>priority = 10, category_mask = 1, userdata = 1,
     rule_fields = [(ucast IPPROTO_UDP, 0xFF), (0, 0), (ucast (ipv4_of 239 255 255 250), 32),
       (0, 65535), (1900, 1900)]\<rparr>"

definition l2fwd_rule :: "byteorder \<Rightarrow> acl_rule" where
  "l2fwd_rule bo = \<lparr>priority = 10, category_mask = 1, userdata = 1,
     rule_fields = [(ucast IPPROTO_TCP, 0xFF), (ucast (be_to_cpu_32 bo (ipv4_of 172 17 166 200)), 32),
       (0, 0), (0, 65535), (0, 65535)]\<rparr>"

definition add_rule ::
    "u8 \<Rightarrow> u32 \<Rightarrow> u32 \<Rightarrow> u32 \<Rightarrow> u32 \<Rightarrow> u16 \<Rightarrow> u16 \<Rightarrow> u16 \<Rightarrow> u16 \<Rightarrow> u32 \<Rightarrow> u32 \<Rightarrow> acl_rule" where
  "add_rule proto src src_mask dst dst_mask sport_low sport_high dport_low dport_high prio ud =
     \<lparr>priority = unat prio, category_mask = 1, userdata = ud,
      rule_fields = [(ucast proto, 0xFF), (ucast src, ucast src_mask), (ucast dst, ucast dst_mask),
        (ucast sport_low, ucast sport_high), (ucast dport_low, ucast dport_high)]\<rparr>"

definition multi_rules :: "acl_rule list" where
  "multi_rules =
     [add_rule IPPROTO_UDP 0 0 0 0 0 65535 53 53 100 1,
      add_rule IPPROTO_TCP 0 0 0 0 0 65535 80 80 90 2,
      add_rule 0 0 0 0 0 0 65535 0 65535 1 0]"

definition ACTION_ALLOW :: u32 where "ACTION_ALLOW = 777"
definition ACTION_DROP :: u32 where "ACTION_DROP = 0"

definition dual_rules :: "acl_rule list" where
  "dual_rules =
     [\<lparr>priority = 100, category_mask = 1, userdata = ACTION_ALLOW,
       rule_fields = [(ucast IPPROTO_TCP, 0xFF), (ucast (ipv4_of 140 82 112 21), 32),
         (ucast (ipv4_of 172 17 166 200), 32), (443, 443), (42960, 42960)]\<rparr>,
      \<lparr>priority = 1, category_mask = 1, userdata = ACTION_DROP,
       rule_fields = replicate 5 (0, 0)\<rparr>]"

definition dual_key :: "byteorder \<Rightarrow> buffer" where
  "dual_key bo =
     store16 14 (cpu_to_be_16 bo 42960) (store16 12 (cpu_to_be_16 bo 443)
       (store32 8 (cpu_to_be_32 bo (ipv4_of 172 17 166 200))
         (store32 4 (cpu_to_be_32 bo (ipv4_of 140 82 112 21))
           (store8 0 IPPROTO_TCP (\<lambda>_. 0)))))"

text \<open>One round of the loop of \<open>dual_rule_implementation\<close>: the number it prints and whether it
  reports a match.\<close>

definition dual_round :: "byteorder \<Rightarrow> classifier \<Rightarrow> u32 \<times> bool" where
  "dual_round bo cls =
     (let res = cls dual_fields dual_rules (dual_key bo) in (res, res = ACTION_ALLOW))"

subsection \<open>The receive loops\<close>

text \<open>
  The key of \<open>exp\<close> and \<open>real_packet_acl\<close> copies the header fields as they lie in the packet;
  \<open>l2fwd_acl\<close> converts each to host order first. \<open>ptr\<close> is the offset of the IPv4 header.
\<close>

definition packet_key :: "buffer \<Rightarrow> nat \<Rightarrow> buffer" where
  "packet_key b ptr =
     (let proto = b (ptr + 9);
          key = store32 8 (load32 b (ptr + 16)) (store32 4 (load32 b (ptr + 12)) (store8 0 proto (\<lambda>_. 0)));
          l4 = ptr + ihl_bytes (b ptr)
      in if proto = IPPROTO_TCP \<or> proto = IPPROTO_UDP
         then store16 14 (load16 b (l4 + 2)) (store16 12 (load16 b l4) key) else key)"

definition host_key :: "byteorder \<Rightarrow> buffer \<Rightarrow> nat \<Rightarrow> buffer" where
  "host_key bo b ptr =
     (let proto = b (ptr + 9);
          key = store32 8 (be_to_cpu_32 bo (load32 b (ptr + 16)))
            (store32 4 (be_to_cpu_32 bo (load32 b (ptr + 12))) (store8 0 proto (\<lambda>_. 0)));
          l4 = ptr + ihl_bytes (b ptr)
      in if proto = IPPROTO_TCP \<or> proto = IPPROTO_UDP
         then store16 14 (be_to_cpu_16 bo (load16 b (l4 + 2)))
           (store16 12 (be_to_cpu_16 bo (load16 b l4)) key) else key)"

text \<open>What \<open>exp\<close> and \<open>real_packet_acl\<close> print of a packet: protocol, addresses, verdict.\<close>

record 'n filter_world = "'n world" +
  verdicts :: "(u8 \<times> u32 \<times> u32 \<times> bool) list"

definition filter_packet ::
    "byteorder \<Rightarrow> classifier \<Rightarrow> field_def list \<Rightarrow> acl_rule list \<Rightarrow> mbuf \<Rightarrow> 'n filter_world \<Rightarrow> 'n filter_world" where
  "filter_packet bo cls ds rs m w =
     (let b = bytes (mem w m);
          eth_type = ether_type b;
          tagged = (eth_type = cpu_to_be_16 bo RTE_ETHER_TYPE_VLAN);
          ptr = (if tagged then ETH_LEN + VLAN_LEN else ETH_LEN);
          eth_type' = (if tagged then load16 b (ptr - 2) else eth_type)
      in if eth_type' \<noteq> cpu_to_be_16 bo RTE_ETHER_TYPE_IPV4 then pktmbuf_free m w
         else
           let key = packet_key b ptr;
               s = be_to_cpu_32 bo (load32 key 4);
               d = be_to_cpu_32 bo (load32 key 8);
               res = cls ds rs key
           in pktmbuf_free m (w\<lparr>verdicts := verdicts w @ [(key 0, s, d, res \<noteq> 0)]\<rparr>))"

definition exp_pass :: "'n ethdev \<Rightarrow> byteorder \<Rightarrow> classifier \<Rightarrow> 'n filter_world \<Rightarrow> 'n filter_world" where
  "exp_pass nd bo cls w =
     (case eth_rx nd 0 0 32 w of (bufs, w) \<Rightarrow>
        if bufs = [] then w else fold (filter_packet bo cls exp_fields [exp_rule]) bufs w)"

definition real_pass :: "'n ethdev \<Rightarrow> byteorder \<Rightarrow> classifier \<Rightarrow> 'n filter_world \<Rightarrow> 'n filter_world" where
  "real_pass nd bo cls w =
     (case eth_rx nd 0 0 32 w of (bufs, w) \<Rightarrow>
        if bufs = [] then w else fold (filter_packet bo cls real_fields [real_rule]) bufs w)"

text \<open>
  \<open>l2fwd_acl\<close> sends a matching packet back on its port, without looking at whether the driver
  took it, and visits every port of the mask until a signal sets \<open>force_quit\<close>.
\<close>

definition l2fwd_packet ::
    "'n ethdev \<Rightarrow> byteorder \<Rightarrow> classifier \<Rightarrow> nat \<Rightarrow> mbuf \<Rightarrow> ('n, 'z) world_scheme \<Rightarrow> ('n, 'z) world_scheme" where
  "l2fwd_packet nd bo cls port_id m w =
     (let b = bytes (mem w m)
      in if ether_type b \<noteq> cpu_to_be_16 bo RTE_ETHER_TYPE_IPV4 then pktmbuf_free m w
         else if cls l2fwd_fields [l2fwd_rule bo] (host_key bo b ETH_LEN) \<noteq> 0
              then snd (eth_tx nd port_id 0 [m] w)
              else pktmbuf_free m w)"

definition l2fwd_port_pass ::
    "'n ethdev \<Rightarrow> byteorder \<Rightarrow> classifier \<Rightarrow> u32 \<Rightarrow> nat \<Rightarrow> ('n, 'z) world_scheme \<Rightarrow> ('n, 'z) world_scheme" where
  "l2fwd_port_pass nd bo cls portmask port_id w =
     (if portmask AND push_bit port_id 1 = 0 then w
      else case eth_rx nd port_id 0 32 w of (bufs, w) \<Rightarrow>
        if bufs = [] then w else fold (l2fwd_packet nd bo cls port_id) bufs w)"

definition l2fwd_pass ::
    "'n ethdev \<Rightarrow> byteorder \<Rightarrow> classifier \<Rightarrow> u32 \<Rightarrow> nat list \<Rightarrow> bool \<Rightarrow> ('n, 'z) world_scheme \<Rightarrow> ('n, 'z) world_scheme" where
  "l2fwd_pass nd bo cls portmask ports force_quit w =
     (if force_quit then w else fold (l2fwd_port_pass nd bo cls portmask) ports w)"

subsection \<open>What the rules mean\<close>

lemma unat_wide [simp]:
  "unat (ucast (p :: u8) :: u64) = unat p" "unat (ucast (h :: u16) :: u64) = unat h"
  "unat (ucast (x :: u32) :: u64) = unat x"
proof -
  have "unat p < 2 ^ 64" "unat h < 2 ^ 64" "unat x < 2 ^ 64"
    using unsigned_less[of p] unsigned_less[of h] unsigned_less[of x]
    by (auto intro: less_le_trans)
  then show "unat (ucast p :: u64) = unat p" "unat (ucast h :: u64) = unat h"
    "unat (ucast x :: u64) = unat x"
    by (simp_all add: unsigned_ucast_eq take_bit_nat_eq_self)
qed

lemma wide_inject [simp]:
  "(ucast (p :: u8) :: u64) = ucast p' \<longleftrightarrow> p = p'" "(ucast (h :: u16) :: u64) = ucast h' \<longleftrightarrow> h = h'"
  "(ucast (x :: u32) :: u64) = ucast x' \<longleftrightarrow> x = x'"
  by (simp_all only: word_unat_eq_iff unat_wide)

lemma proto_field: "(ucast (p :: u8) :: u64) AND 0xFF = ucast c AND 0xFF \<longleftrightarrow> p = c"
proof -
  have "(ucast x :: u64) AND 0xFF = ucast x" for x :: u8
  proof -
    have "(ucast x :: u64) AND mask 8 = ucast x"
      by (rule bit_word_eqI) (auto simp: bit_simps dest: bit_u8_less)
    then show ?thesis by (simp add: mask_eq_exp_minus_1)
  qed
  then show ?thesis by simp
qed

lemma bswap32_eq: "bswap32 x = bswap32 y \<longleftrightarrow> x = y"
  by (metis bswap32_bswap32)

lemma addr_any: "drop_bit 32 (ucast (x :: u32) :: u64) = 0"
  by (rule bit_word_eqI) (auto simp: bit_simps dest: bit_imp_le_length)

lemma port_any: "(ucast (h :: u16) :: u64) \<le> 65535"
proof -
  have "unat h < 2 ^ LENGTH(16)" by (rule unsigned_less)
  then show ?thesis by (simp add: word_le_nat_alt)
qed

lemma port_one: "(ucast k :: u64) \<le> ucast h \<and> (ucast h :: u64) \<le> ucast k \<longleftrightarrow> h = (k :: u16)"
  by (auto simp: word_le_nat_alt intro: word_unat_eq_iff[THEN iffD2])

text \<open>One rule of category 1: its number if it matches.\<close>

lemma acl_result_one:
  "acl_result ds [r] data =
     (if category_mask r AND 1 \<noteq> 0 \<and> rule_match ds r data then userdata r else 0)"
  by (simp add: acl_result_def best_rule_def)

lemma layouts: "layout_ok exp_fields" "layout_ok l2fwd_fields" "\<not> layout_ok real_fields"
    "\<not> layout_ok dual_fields" "\<not> layout_ok multi_fields"
  by code_simp+

text \<open>The fields of the two kinds of key, as the classifier reads them.\<close>

lemma packet_key_bytes:
  "packet_key b ptr 0 = b (ptr + 9)"
  "be32 (packet_key b ptr 4) (packet_key b ptr 5) (packet_key b ptr 6) (packet_key b ptr 7) =
     be32 (b (ptr + 12)) (b (ptr + 13)) (b (ptr + 14)) (b (ptr + 15))"
  "be32 (packet_key b ptr 8) (packet_key b ptr 9) (packet_key b ptr 10) (packet_key b ptr 11) =
     be32 (b (ptr + 16)) (b (ptr + 17)) (b (ptr + 18)) (b (ptr + 19))"
  "b (ptr + 9) = IPPROTO_TCP \<or> b (ptr + 9) = IPPROTO_UDP \<Longrightarrow>
   be16 (packet_key b ptr 14) (packet_key b ptr 15) =
     be16 (b (ptr + ihl_bytes (b ptr) + 2)) (b (ptr + ihl_bytes (b ptr) + 3))"
  by (simp_all add: packet_key_def Let_def store8_def store16_def store32_def load16_def load32_def
      bytes ac_simps numeral_3_eq_3)

text \<open>
  What a filter looks for, read off the bytes of the frame: \<open>net_off\<close> is the offset of the
  IPv4 header, behind at most one VLAN tag.
\<close>

definition net_off :: "buffer \<Rightarrow> nat" where
  "net_off b = (if be16 (b 12) (b 13) = RTE_ETHER_TYPE_VLAN then 18 else 14)"

definition carries_ipv4 :: "buffer \<Rightarrow> bool" where
  "carries_ipv4 b \<longleftrightarrow> be16 (b (net_off b - 2)) (b (net_off b - 1)) = RTE_ETHER_TYPE_IPV4"

definition src_at :: "buffer \<Rightarrow> nat \<Rightarrow> u32" where
  "src_at b p = be32 (b (p + 12)) (b (p + 13)) (b (p + 14)) (b (p + 15))"

definition dst_at :: "buffer \<Rightarrow> nat \<Rightarrow> u32" where
  "dst_at b p = be32 (b (p + 16)) (b (p + 17)) (b (p + 18)) (b (p + 19))"

definition exp_wanted :: "buffer \<Rightarrow> nat \<Rightarrow> bool" where
  "exp_wanted b p \<longleftrightarrow> b (p + 9) = IPPROTO_TCP \<and> src_at b p = ipv4_of 172 17 166 200"

definition ssdp_wanted :: "buffer \<Rightarrow> nat \<Rightarrow> bool" where
  "ssdp_wanted b p \<longleftrightarrow> b (p + 9) = IPPROTO_UDP \<and> dst_at b p = ipv4_of 239 255 255 250 \<and>
     be16 (b (p + ihl_bytes (b p) + 2)) (b (p + ihl_bytes (b p) + 3)) = 1900"

lemma exp_match: "rule_match exp_fields exp_rule (packet_key b p) \<longleftrightarrow> exp_wanted b p"
  by (simp add: rule_match_def exp_fields_def exp_rule_def field_match_def field_of_def
      packet_key_bytes proto_field addr_any port_any exp_wanted_def src_at_def)

lemma ssdp_match: "rule_match real_fields real_rule (packet_key b p) \<longleftrightarrow> ssdp_wanted b p"
proof (cases "b (p + 9) = IPPROTO_UDP")
  case True
  then show ?thesis
    using port_one[of 1900]
    by (simp add: rule_match_def real_fields_def real_rule_def field_match_def field_of_def
        packet_key_bytes proto_field addr_any port_any ssdp_wanted_def dst_at_def)
qed (simp add: rule_match_def real_fields_def real_rule_def field_match_def field_of_def
      packet_key_bytes proto_field ssdp_wanted_def)

context byteorder_ok
begin

lemma host_key_bytes:
  "host_key bo b ptr 0 = b (ptr + 9)"
  "be32 (host_key bo b ptr 4) (host_key bo b ptr 5) (host_key bo b ptr 6) (host_key bo b ptr 7) =
     bswap32 (src_at b ptr)"
  by (simp_all add: host_key_def Let_def store8_def store16_def store32_def src_at_def bswap32_def
      be32_def le32_bytes ac_simps)

lemma l2fwd_match: "rule_match l2fwd_fields (l2fwd_rule bo) (host_key bo b p) \<longleftrightarrow> exp_wanted b p"
  by (simp add: rule_match_def l2fwd_fields_def l2fwd_rule_def field_match_def field_of_def
      host_key_bytes proto_field addr_any port_any exp_wanted_def be_to_cpu_32 bswap32_eq)

lemma vlan_iff: "ether_type b = cpu_to_be_16 bo RTE_ETHER_TYPE_VLAN \<longleftrightarrow> net_off b = 18"
  by (simp add: ether_type_def load16_eq_cpu_to_be net_off_def)

lemma ipv4_iff:
  "(if net_off b = 18 then load16 b 16 else ether_type b) \<noteq> cpu_to_be_16 bo RTE_ETHER_TYPE_IPV4
     \<longleftrightarrow> \<not> carries_ipv4 b"
  by (simp add: ether_type_def load16_eq_cpu_to_be net_off_def carries_ipv4_def)

end

definition report :: "(buffer \<Rightarrow> nat \<Rightarrow> bool) \<Rightarrow> buffer \<Rightarrow> u8 \<times> u32 \<times> u32 \<times> bool" where
  "report P b = (b (net_off b + 9), src_at b (net_off b), dst_at b (net_off b), P b (net_off b))"

context byteorder_ok
begin

lemma filter_packet_eq:
  assumes "\<forall>b p. (cls ds rs (packet_key b p) \<noteq> 0) = P b p"
  shows "filter_packet bo cls ds rs m w =
    pktmbuf_free m (if carries_ipv4 (bytes (mem w m))
      then w\<lparr>verdicts := verdicts w @ [report P (bytes (mem w m))]\<rparr> else w)"
proof -
  let ?b = "bytes (mem w m)"
  have "(if net_off ?b = 18 then ETH_LEN + VLAN_LEN else ETH_LEN) = net_off ?b"
    by (simp add: net_off_def header_lens)
  moreover have "(if net_off ?b = 18 then load16 ?b (net_off ?b - 2) else ether_type ?b) =
      (if net_off ?b = 18 then load16 ?b 16 else ether_type ?b)" by simp
  ultimately show ?thesis
    unfolding filter_packet_def Let_def vlan_iff
    by (simp only: ipv4_iff assms[rule_format] be_to_cpu_32_load) (simp add: report_def packet_key_bytes src_at_def dst_at_def)
qed

lemma fold_filter_packet:
  assumes "\<forall>b p. (cls ds rs (packet_key b p) \<noteq> 0) = P b p"
  shows "verdicts (fold (filter_packet bo cls ds rs) ms w) = verdicts w @
      map (report P) (filter carries_ipv4 (map (\<lambda>m. bytes (mem w m)) ms))"
    "freed (fold (filter_packet bo cls ds rs) ms w) = freed w @ ms"
    "sent (fold (filter_packet bo cls ds rs) ms w) = sent w"
    "got (fold (filter_packet bo cls ds rs) ms w) = got w"
  by (induction ms arbitrary: w) (simp_all add: filter_packet_eq[where cls = cls and ds = ds and rs = rs and P = P, OF assms] pktmbuf_free_def)

lemma l2fwd_packet_eq:
  assumes "acl_ok cls"
  shows "l2fwd_packet nd bo cls p m w =
    (if be16 (bytes (mem w m) 12) (bytes (mem w m) 13) = RTE_ETHER_TYPE_IPV4 \<and> exp_wanted (bytes (mem w m)) 14
     then snd (eth_tx nd p 0 [m] w) else pktmbuf_free m w)"
proof -
  have "cls l2fwd_fields [l2fwd_rule bo] (host_key bo b ETH_LEN) \<noteq> 0 \<longleftrightarrow> exp_wanted b 14" for b
    by (simp add: acl_ok.cls[OF assms] layouts acl_result_one l2fwd_match ETH_LEN_def)
      (simp add: l2fwd_rule_def)
  then show ?thesis
    by (simp add: l2fwd_packet_def Let_def ether_type_def load16_eq_cpu_to_be)
qed

end

definition l2_wanted :: "buffer \<Rightarrow> bool" where
  "l2_wanted b \<longleftrightarrow> be16 (b 12) (b 13) = RTE_ETHER_TYPE_IPV4 \<and> exp_wanted b 14"

lemma eth_tx_one:
  "sent (snd (eth_tx nd p q [m] w)) = sent w \<or>
   sent (snd (eth_tx nd p q [m] w)) = sent w @ [(p, q, m, mem w m)]"
  by (cases "fst (eth_tx nd p q [m] w)") (simp_all add: eth_tx_sent)

lemma fold_l2fwd_packet:
  assumes "byteorder_ok bo" and "acl_ok cls"
  shows "freed (fold (l2fwd_packet nd bo cls p) ms w) =
      freed w @ filter (\<lambda>m. \<not> l2_wanted (bytes (mem w m))) ms \<and>
    (\<exists>sb. subseq sb (filter (\<lambda>m. l2_wanted (bytes (mem w m))) ms) \<and>
      sent (fold (l2fwd_packet nd bo cls p) ms w) = sent w @ map (\<lambda>m. (p, 0, m, mem w m)) sb)"
proof (induction ms arbitrary: w)
  case Nil
  then show ?case by (intro conjI exI[of _ "[]"]) simp_all
next
  case (Cons m ms)
  let ?w = "l2fwd_packet nd bo cls p m w"
  have eq: "?w = (if l2_wanted (bytes (mem w m)) then snd (eth_tx nd p 0 [m] w) else pktmbuf_free m w)"
    by (simp add: byteorder_ok.l2fwd_packet_eq[OF assms] l2_wanted_def)
  then have mem: "mem ?w = mem w" by (simp add: frame)
  from Cons.IH[of ?w] obtain sb where
    sb: "subseq sb (filter (\<lambda>m. l2_wanted (bytes (mem w m))) ms)"
      "sent (fold (l2fwd_packet nd bo cls p) ms ?w) = sent ?w @ map (\<lambda>m. (p, 0, m, mem w m)) sb"
    and fr: "freed (fold (l2fwd_packet nd bo cls p) ms ?w) =
      freed ?w @ filter (\<lambda>m. \<not> l2_wanted (bytes (mem w m))) ms"
    by (auto simp: mem)
  show ?case
  proof (intro conjI)
    show "freed (fold (l2fwd_packet nd bo cls p) (m # ms) w) =
        freed w @ filter (\<lambda>m. \<not> l2_wanted (bytes (mem w m))) (m # ms)"
      using fr eq by (simp add: frame)
    show "\<exists>sb. subseq sb (filter (\<lambda>m. l2_wanted (bytes (mem w m))) (m # ms)) \<and>
        sent (fold (l2fwd_packet nd bo cls p) (m # ms) w) = sent w @ map (\<lambda>m. (p, 0, m, mem w m)) sb"
    proof (cases "l2_wanted (bytes (mem w m)) \<and> sent ?w \<noteq> sent w")
      case True
      then have "sent ?w = sent w @ [(p, 0, m, mem w m)]" using eq eth_tx_one[of nd p 0 m w] by auto
      then show ?thesis using sb True by (intro exI[of _ "m # sb"]) simp
    next
      case False
      then have "sent ?w = sent w" using eq by (auto simp: frame)
      then show ?thesis using sb by (intro exI[of _ sb]) (auto intro: subseq_order.trans list_emb_Cons)
    qed
  qed
qed

subsection \<open>Properties\<close>

lemma filter_frame [frame]:
  fixes w :: "'n filter_world"
  shows "verdicts (snd (eth_rx nd p q n w)) = verdicts w"
  by (simp add: eth_rx_def split: prod.split)

text \<open>
  The two packet filters print the right verdict for each packet, for any classifier
  that keeps its documented contract, any driver and any traffic: one pass reports exactly
  the IPv4 packets of the burst, those behind a VLAN tag included, in order of arrival and
  with their protocol and addresses; \<open>exp\<close> reports a match exactly for TCP packets from
  172.17.166.200, and \<open>real_packet_acl\<close>, provided the classifier takes its layout as written,
  exactly for UDP packets to port 1900 of 239.255.255.250; every packet is freed once and
  none is sent.
\<close>

theorem acl_filters_report:
  assumes "byteorder_ok bo" and "acl_ok cls"
    and "cls real_fields [real_rule] = acl_result real_fields [real_rule]"
  shows "\<exists>bufs w1. eth_rx nd 0 0 32 w = (bufs, w1) \<and>
    verdicts (exp_pass nd bo cls w) = verdicts w @
      map (report exp_wanted) (filter carries_ipv4 (map (\<lambda>m. bytes (mem w1 m)) bufs)) \<and>
    verdicts (real_pass nd bo cls w) = verdicts w @
      map (report ssdp_wanted) (filter carries_ipv4 (map (\<lambda>m. bytes (mem w1 m)) bufs)) \<and>
    freed (exp_pass nd bo cls w) = freed w @ bufs \<and> freed (real_pass nd bo cls w) = freed w @ bufs \<and>
    sent (exp_pass nd bo cls w) = sent w \<and> sent (real_pass nd bo cls w) = sent w"
proof -
  obtain bufs w1 where rx: "eth_rx nd 0 0 32 w = (bufs, w1)" by (cases "eth_rx nd 0 0 32 w")
  then have w1: "verdicts w1 = verdicts w" "freed w1 = freed w" "sent w1 = sent w"
    by (metis frame snd_conv)+
  have exp: "\<forall>b p. (cls exp_fields [exp_rule] (packet_key b p) \<noteq> 0) = exp_wanted b p"
    by (simp add: acl_ok.cls[OF assms(2)] layouts acl_result_one exp_match) (simp add: exp_rule_def)
  have real: "\<forall>b p. (cls real_fields [real_rule] (packet_key b p) \<noteq> 0) = ssdp_wanted b p"
    by (simp add: assms(3) acl_result_one ssdp_match) (simp add: real_rule_def)
  show ?thesis
    using byteorder_ok.fold_filter_packet[where cls = cls and ds = exp_fields and rs = "[exp_rule]"
          and P = exp_wanted, OF assms(1) exp, of bufs w1]
      byteorder_ok.fold_filter_packet[where cls = cls and ds = real_fields and rs = "[real_rule]"
          and P = ssdp_wanted, OF assms(1) real, of bufs w1] rx w1
    by (intro exI[of _ bufs] exI[of _ w1]) (simp add: exp_pass_def real_pass_def)
qed

text \<open>A TCP segment from 172.17.166.200, then an ARP packet.\<close>

definition acl_script :: script where
  "acl_script = \<lparr>next_addr = 1, bursts =
     [[\<lparr>bytes = buffer_of [0, 0, 0, 0, 0, 0, 0, 0, 0, 0, 0, 0, 8, 0, 0x45, 0, 0, 40, 0, 0, 0, 0, 64, 6, 0, 0,
          172, 17, 166, 200, 10, 0, 0, 1], data_len = 54, pkt_len = 54\<rparr>,
       \<lparr>bytes = buffer_of [0, 0, 0, 0, 0, 0, 0, 0, 0, 0, 0, 0, 8, 6], data_len = 42, pkt_len = 42\<rparr>]],
     tx_caps = []\<rparr>"

definition acl_demo :: "script filter_world" where
  "acl_demo = world.extend (start_world acl_script) \<lparr>verdicts = []\<rparr>"

theorem acl_filters_report_witness:
  "freed (exp_pass script_dev le_host acl_result acl_demo) = [1, 2] \<and>
   sent (real_pass script_dev le_host acl_result acl_demo) = []"
proof -
  have s: "freed acl_demo = []" "sent acl_demo = []" "nic acl_demo = acl_script"
    by (simp_all add: acl_demo_def start_world_def world.defs)
  have "fst (eth_rx script_dev 0 0 32 acl_demo) = [1, 2]"
    unfolding script_rx s by (simp add: acl_script_def upt_less)
  then show ?thesis
    using acl_filters_report[OF le_host.byteorder_ok_axioms acl_ref.acl_ok_axioms refl,
        of script_dev acl_demo] s by auto
qed

lemma l2fwd_port_outcome:
  assumes "byteorder_ok bo" and "acl_ok cls" and "portmask AND push_bit p 1 \<noteq> 0"
  shows "\<exists>bufs w1 sb. eth_rx nd p 0 32 w = (bufs, w1) \<and>
      subseq sb (filter (\<lambda>m. l2_wanted (bytes (mem w1 m))) bufs) \<and>
      sent (l2fwd_port_pass nd bo cls portmask p w) = sent w @ map (\<lambda>m. (p, 0, m, mem w1 m)) sb \<and>
      freed (l2fwd_port_pass nd bo cls portmask p w) =
        freed w @ filter (\<lambda>m. \<not> l2_wanted (bytes (mem w1 m))) bufs"
proof -
  obtain bufs w1 where rx: "eth_rx nd p 0 32 w = (bufs, w1)" by (cases "eth_rx nd p 0 32 w")
  then have "sent w1 = sent w" "freed w1 = freed w" by (metis frame snd_conv)+
  then show ?thesis
    using fold_l2fwd_packet[OF assms(1,2), of nd p bufs w1] rx assms(3)
    by (auto simp: l2fwd_port_pass_def intro!: exI[of _ bufs] exI[of _ w1])
qed

abbreviation good_tx :: "u32 \<Rightarrow> nat list \<Rightarrow> nat \<times> nat \<times> mbuf \<times> packet \<Rightarrow> bool" where
  "good_tx portmask ports \<equiv>
     (\<lambda>(p, q, m, c). l2_wanted (bytes c) \<and> p \<in> set ports \<and> portmask AND push_bit p 1 \<noteq> 0)"

lemma subseq_filterD: "subseq xs (filter P ys) \<Longrightarrow> x \<in> set xs \<Longrightarrow> P x"
  by (erule list_emb_set, assumption) simp

lemma l2fwd_port_good:
  assumes "byteorder_ok bo" and "acl_ok cls" and "p \<in> set ports"
  shows "\<exists>l. sent (l2fwd_port_pass nd bo cls portmask p w) = sent w @ l \<and>
    list_all (good_tx portmask ports) l"
proof (cases "portmask AND push_bit p 1 = 0")
  case True
  then show ?thesis by (simp add: l2fwd_port_pass_def)
next
  case False
  from l2fwd_port_outcome[OF assms(1,2) False, of nd w] obtain bufs w1 sb where
    o: "eth_rx nd p 0 32 w = (bufs, w1)" "subseq sb (filter (\<lambda>m. l2_wanted (bytes (mem w1 m))) bufs)"
    "sent (l2fwd_port_pass nd bo cls portmask p w) = sent w @ map (\<lambda>m. (p, 0, m, mem w1 m)) sb"
    by (elim exE conjE)
  have "list_all (good_tx portmask ports) (map (\<lambda>m. (p, 0, m, mem w1 m)) sb)"
    unfolding list_all_iff using subseq_filterD[OF o(2)] assms(3) False by simp
  then show ?thesis using o(3) by (intro exI conjI)
qed

lemma l2fwd_fold_good:
  assumes "byteorder_ok bo" and "acl_ok cls" and "set ps \<subseteq> set ports"
  shows "\<exists>l. sent (fold (l2fwd_port_pass nd bo cls portmask) ps w) = sent w @ l \<and>
    list_all (good_tx portmask ports) l"
  using assms(3)
proof (induction ps arbitrary: w)
  case (Cons p ps)
  have "p \<in> set ports" "set ps \<subseteq> set ports" using Cons.prems by simp_all
  from l2fwd_port_good[OF assms(1,2) this(1)] obtain l where
    l: "sent (l2fwd_port_pass nd bo cls portmask p w) = sent w @ l" "list_all (good_tx portmask ports) l"
    by blast
  from Cons.IH[OF \<open>set ps \<subseteq> set ports\<close>] obtain l' where
    "sent (fold (l2fwd_port_pass nd bo cls portmask) ps (l2fwd_port_pass nd bo cls portmask p w)) =
      sent (l2fwd_port_pass nd bo cls portmask p w) @ l'" "list_all (good_tx portmask ports) l'"
    by blast
  with l show ?case by (intro exI[of _ "l @ l'"]) simp
qed simp



text \<open>
  What the two multi-rule tables mean, field by field as they are written. In
  \<open>muti_rule\<close>, UDP to port 53 gives 1, TCP to port 80 gives 2 and everything else 0; but the
  rule commented as catch-all matches protocol 0 only, since its protocol mask is 0xFF. In
  \<open>dual_rule_implementation\<close> the key of the program hits the first rule, and the wildcard
  rule matches only when both ports are 0, since its port ranges are 0 to 0. The layouts of
  these two programs and of \<open>real_packet_acl\<close> give the two port fields different input
  indexes, against the grouping the documentation asks for; \<open>exp\<close> and \<open>l2fwd_acl\<close> follow it.
\<close>

theorem acl_rule_sets:
  assumes "byteorder_ok bo"
  shows "acl_result multi_fields multi_rules b =
      (if b 9 = IPPROTO_UDP \<and> be16 (b 22) (b 23) = 53 then 1
       else if b 9 = IPPROTO_TCP \<and> be16 (b 22) (b 23) = 80 then 2 else 0) \<and>
    (rule_match multi_fields (multi_rules ! 2) b \<longleftrightarrow> b 9 = 0) \<and>
    dual_round bo acl_result = (ACTION_ALLOW, True) \<and>
    (rule_match dual_fields (dual_rules ! 1) b \<longleftrightarrow> be16 (b 12) (b 13) = 0 \<and> be16 (b 14) (b 15) = 0) \<and>
    layout_ok exp_fields \<and> layout_ok l2fwd_fields \<and>
    \<not> layout_ok real_fields \<and> \<not> layout_ok dual_fields \<and> \<not> layout_ok multi_fields"
proof (intro conjI)
  have m: "rule_match multi_fields (add_rule pr 0 0 0 0 0 65535 lo hi prio ud) b \<longleftrightarrow>
      b 9 = pr \<and> (ucast lo :: u64) \<le> ucast (be16 (b 22) (b 23)) \<and> (ucast (be16 (b 22) (b 23)) :: u64) \<le> ucast hi"
    for pr lo hi prio ud
    by (simp add: rule_match_def multi_fields_def add_rule_def field_match_def field_of_def
        proto_field addr_any port_any)
  have r: "rule_match multi_fields (add_rule IPPROTO_UDP 0 0 0 0 0 65535 53 53 100 1) b \<longleftrightarrow>
        b 9 = IPPROTO_UDP \<and> be16 (b 22) (b 23) = 53"
      "rule_match multi_fields (add_rule IPPROTO_TCP 0 0 0 0 0 65535 80 80 90 2) b \<longleftrightarrow>
        b 9 = IPPROTO_TCP \<and> be16 (b 22) (b 23) = 80"
      "rule_match multi_fields (add_rule 0 0 0 0 0 0 65535 0 65535 1 0) b \<longleftrightarrow> b 9 = 0"
    unfolding m port_one using port_any[of "be16 (b 22) (b 23)"] by simp_all
  have sel: "category_mask (add_rule pr a b' c d e f g h prio ud) = 1"
      "priority (add_rule pr a b' c d e f g h prio ud) = unat prio"
      "userdata (add_rule pr a b' c d e f g h prio ud) = ud" for pr a b' c d e f g h prio ud
    by (simp_all add: add_rule_def)
  have d: "IPPROTO_UDP \<noteq> IPPROTO_TCP" "IPPROTO_UDP \<noteq> 0" "IPPROTO_TCP \<noteq> 0"
    by (simp_all add: proto_consts)
  show "acl_result multi_fields multi_rules b =
      (if b 9 = IPPROTO_UDP \<and> be16 (b 22) (b 23) = 53 then 1
       else if b 9 = IPPROTO_TCP \<and> be16 (b 22) (b 23) = 80 then 2 else 0)"
    unfolding acl_result_def best_rule_def multi_rules_def
    using d by (auto simp: r sel)
  show "rule_match multi_fields (multi_rules ! 2) b \<longleftrightarrow> b 9 = 0"
    by (simp add: multi_rules_def r)
  have five: "replicate 5 x = [x, x, x, x, x]" for x :: "u64 \<times> u64" by (simp add: numeral_eq_Suc)
  have zero_port: "(ucast (h :: u16) :: u64) = 0 \<longleftrightarrow> h = 0" for h
    using wide_inject(2)[of h 0] by simp
  have "bo = le_host" using assms by (cases bo) (auto simp: byteorder_ok_def le_host_def)
  then show "dual_round bo acl_result = (ACTION_ALLOW, True)" by (simp only:) code_simp
  show "rule_match dual_fields (dual_rules ! 1) b \<longleftrightarrow> be16 (b 12) (b 13) = 0 \<and> be16 (b 14) (b 15) = 0"
    by (simp add: rule_match_def dual_fields_def dual_rules_def field_match_def field_of_def addr_any five
        zero_port)
qed (rule layouts)+

theorem acl_rule_sets_witness:
  "acl_result multi_fields multi_rules ((\<lambda>_. 0)(9 := IPPROTO_UDP, 23 := 53)) = 1"
  using acl_rule_sets[OF le_host.byteorder_ok_axioms, of "(\<lambda>_. 0)(9 := IPPROTO_UDP, 23 := 53)"]
  by (simp add: be16_def le16_def)

end
