(* ===== verification/Graph.thy ===== *)
theory Graph
  imports Ethdev
begin

text \<open>
  The graph library, on which the programs under \<open>graph/\<close> run. Nodes and edges are the
  programs'; which node is visited next is the library's choice and stays open: a walk sets
  every source node pending and then visits pending nodes, in any order, until none is left.
  A visit hands a node the objects enqueued to it since its last visit; enqueuing sets the
  next node pending, even with no objects.
\<close>

record ('v, 'o, 's) graph_app =
  sources :: "'v list"
  next_nodes :: "'v \<Rightarrow> 'v list"
  process :: "'v \<Rightarrow> 'o list \<Rightarrow> 's \<Rightarrow> (nat \<times> 'o list) list \<times> 's"

type_synonym ('v, 'o) streams = "'v \<Rightarrow> 'o list option"

definition node_enqueue :: "'v list \<Rightarrow> nat \<times> 'o list \<Rightarrow> ('v, 'o) streams \<Rightarrow> ('v, 'o) streams" where
  "node_enqueue nexts eo pend =
     (case eo of (e, objs) \<Rightarrow>
        pend(nexts ! e := Some ((case pend (nexts ! e) of None \<Rightarrow> [] | Some old \<Rightarrow> old) @ objs)))"

definition visit ::
    "('v, 'o, 's) graph_app \<Rightarrow> 'v \<Rightarrow> ('v, 'o) streams \<times> 's \<Rightarrow> ('v, 'o) streams \<times> 's" where
  "visit g n ps =
     (case ps of (pend, s) \<Rightarrow>
        case pend n of None \<Rightarrow> ps
        | Some objs \<Rightarrow> (case process g n objs s of (outs, s') \<Rightarrow>
            (fold (node_enqueue (next_nodes g n)) outs (pend(n := None)), s')))"

inductive graph_step ::
    "('v, 'o, 's) graph_app \<Rightarrow> ('v, 'o) streams \<times> 's \<Rightarrow> ('v, 'o) streams \<times> 's \<Rightarrow> bool"
  for g where
  visit_pending: "pend n = Some objs \<Longrightarrow> graph_step g (pend, s) (visit g n (pend, s))"

inductive_cases graph_stepE: "graph_step g ps ps'"

definition walk_start :: "('v, 'o, 's) graph_app \<Rightarrow> 's \<Rightarrow> ('v, 'o) streams \<times> 's" where
  "walk_start g s = ((\<lambda>n. if n \<in> set (sources g) then Some [] else None), s)"

definition quiet :: "('v, 'o) streams \<Rightarrow> bool" where
  "quiet pend \<longleftrightarrow> pend = (\<lambda>_. None)"

definition graph_walk :: "('v, 'o, 's) graph_app \<Rightarrow> 's \<Rightarrow> 's \<Rightarrow> bool" where
  "graph_walk g s s' \<longleftrightarrow> (graph_step g)\<^sup>*\<^sup>* (walk_start g s) ((\<lambda>_. None), s')"

lemma graph_walk_invariant:
  assumes "graph_walk g s s'" and "I (walk_start g s)"
    and "\<And>pend t n objs. I (pend, t) \<Longrightarrow> pend n = Some objs \<Longrightarrow> I (visit g n (pend, t))"
  shows "I ((\<lambda>_. None), s')"
proof -
  have "I ps" if "(graph_step g)\<^sup>*\<^sup>* (walk_start g s) ps" for ps
    using that by (induction rule: rtranclp_induct) (auto elim!: graph_stepE intro: assms(2,3))
  then show ?thesis using assms(1) by (simp add: graph_walk_def)
qed

lemma not_stuck:
  assumes "\<not> quiet pend"
  shows "\<exists>ps. graph_step g (pend, s) ps"
proof -
  obtain n objs where "pend n = Some objs" using assms by (auto simp: quiet_def fun_eq_iff)
  then have "graph_step g (pend, s) (visit g n (pend, s))" by (rule visit_pending)
  then show ?thesis ..
qed

subsection \<open>A scheduler\<close>

text \<open>
  Visiting the nodes of a list in turn: one choice the library may make, for concrete runs.
\<close>

definition sched_walk :: "('v, 'o, 's) graph_app \<Rightarrow> 'v list \<Rightarrow> 's \<Rightarrow> ('v, 'o) streams \<times> 's" where
  "sched_walk g ns s = fold (visit g) ns (walk_start g s)"

lemma visit_steps: "(graph_step g)\<^sup>*\<^sup>* ps (visit g n ps)"
proof -
  obtain pend s where ps: "ps = (pend, s)" by (cases ps)
  show ?thesis
  proof (cases "pend n")
    case None
    then show ?thesis by (simp add: ps visit_def)
  next
    case (Some objs)
    then show ?thesis unfolding ps by (blast intro: visit_pending)
  qed
qed

lemma fold_visit_steps: "(graph_step g)\<^sup>*\<^sup>* ps (fold (visit g) ns ps)"
proof (induction ns arbitrary: ps)
  case (Cons n ns)
  from rtranclp_trans[OF visit_steps Cons.IH] show ?case by simp
qed simp

lemma sched_walk_walk:
  assumes "list_all (\<lambda>n. fst (sched_walk g ns s) n = None) all" and "set all = UNIV"
  shows "graph_walk g s (snd (sched_walk g ns s))"
proof -
  have "fst (sched_walk g ns s) = (\<lambda>_. None)" using assms by (auto simp: list_all_iff)
  then have "sched_walk g ns s = ((\<lambda>_. None), snd (sched_walk g ns s))" by (metis prod.collapse)
  then show ?thesis using fold_visit_steps[of g "walk_start g s" ns]
    by (simp add: graph_walk_def sched_walk_def)
qed

text \<open>
  When at most one node is pending at any time there is no choice: \<open>forced\<close> lists the visits,
  and a walk has exactly one outcome.
\<close>

fun forced :: "('v, 'o, 's) graph_app \<Rightarrow> 'v list \<Rightarrow> ('v, 'o) streams \<times> 's \<Rightarrow> bool" where
  "forced g [] ps = (fst ps = (\<lambda>_. None))"
| "forced g (n # ns) ps = (fst ps n \<noteq> None \<and> (fst ps)(n := None) = (\<lambda>_. None) \<and> forced g ns (visit g n ps))"

lemma forced_steps:
  assumes "(graph_step g)\<^sup>*\<^sup>* ps ps'" and "forced g ns ps" and "fst ps' = (\<lambda>_. None)"
  shows "ps' = fold (visit g) ns ps"
  using assms
proof (induction arbitrary: ns rule: converse_rtranclp_induct)
  case base
  then show ?case by (cases ns) auto
next
  case (step ps qs)
  then obtain pend s n objs where ps: "ps = (pend, s)" "pend n = Some objs" "qs = visit g n ps"
    by (auto elim: graph_stepE)
  obtain m ms where ns: "ns = m # ms" using step.prems(1) ps(1,2) by (cases ns) (auto dest: fun_cong)
  then have "(pend(m := None)) n = None" using step.prems(1) ps(1) by (metis forced.simps(2) fst_conv)
  then have "n = m" using ps(2) by (auto split: if_splits)
  then show ?case using step.IH[of ms] step.prems ns ps(3) by simp
qed

lemma forced_quiet: "forced g ns ps \<Longrightarrow> fst (fold (visit g) ns ps) = (\<lambda>_. None)"
  by (induction ns arbitrary: ps) auto

lemma forced_walk:
  assumes "forced g ns (walk_start g s)"
  shows "graph_walk g s s' \<longleftrightarrow> s' = snd (sched_walk g ns s)"
proof
  assume "graph_walk g s s'"
  from forced_steps[OF this[unfolded graph_walk_def] assms] show "s' = snd (sched_walk g ns s)"
    unfolding sched_walk_def by (metis fst_conv snd_conv)
next
  assume "s' = snd (sched_walk g ns s)"
  then have "fold (visit g) ns (walk_start g s) = ((\<lambda>_. None), s')"
    using forced_quiet[OF assms] by (metis prod.collapse sched_walk_def)
  then show "graph_walk g s s'"
    using fold_visit_steps[of g "walk_start g s" ns] by (simp add: graph_walk_def)
qed

text \<open>A loop around a relation: \<open>while (cond) rte_graph_walk(graph)\<close>.\<close>

inductive loop :: "('s \<Rightarrow> bool) \<Rightarrow> ('s \<Rightarrow> 's \<Rightarrow> bool) \<Rightarrow> 's \<Rightarrow> 's \<Rightarrow> bool" for c R where
  loop_done: "\<not> c s \<Longrightarrow> loop c R s s"
| loop_again: "c s \<Longrightarrow> R s t \<Longrightarrow> loop c R t u \<Longrightarrow> loop c R s u"

inductive_cases loopE: "loop c R s u"

lemma loop_invariant:
  assumes "loop c R s u" and "I s" and "\<And>s t. I s \<Longrightarrow> c s \<Longrightarrow> R s t \<Longrightarrow> I t"
  shows "I u \<and> \<not> c u"
  using assms(1,2) by (induction) (auto intro: assms(3))

lemma loop_unfold:
  assumes "\<And>t. R s t \<longleftrightarrow> t = f s"
  shows "loop c R s u \<longleftrightarrow> (if c s then loop c R (f s) u else u = s)"
  using assms by (auto elim: loopE intro: loop.intros)

subsection \<open>Acyclic graphs\<close>

text \<open>
  Nodes listed so that every edge leads further down the list, every node enqueuing along
  its own edges only. Then a walk ends, whatever the order of the visits.
\<close>

fun topo :: "('v, 'o, 's) graph_app \<Rightarrow> 'v list \<Rightarrow> bool" where
  "topo g [] = True"
| "topo g (n # ns) = (set (next_nodes g n) \<subseteq> set ns \<and> n \<notin> set ns \<and> topo g ns)"

fun weight :: "'v list \<Rightarrow> ('v, 'o) streams \<Rightarrow> nat" where
  "weight [] pend = 0"
| "weight (n # ns) pend = (if pend n = None then 0 else 2 ^ length ns) + weight ns pend"

lemma weight_bound: "weight ns pend < 2 ^ length ns"
  by (induction ns) auto

lemma weight_cong: "(\<And>n. n \<in> set ns \<Longrightarrow> (pend n = None) = (pend' n = None)) \<Longrightarrow> weight ns pend = weight ns pend'"
  by (induction ns) auto

lemma fold_enqueue_other:
  assumes "\<And>e objs. (e, objs) \<in> set outs \<Longrightarrow> nexts ! e \<noteq> m"
  shows "fold (node_enqueue nexts) outs pend m = pend m"
  using assms
proof (induction outs arbitrary: pend)
  case (Cons eo outs)
  obtain e objs where eo: "eo = (e, objs)" by (cases eo)
  have "fold (node_enqueue nexts) outs (node_enqueue nexts eo pend) m = node_enqueue nexts eo pend m"
    by (rule Cons.IH) (use Cons.prems in auto)
  moreover have "nexts ! e \<noteq> m" using Cons.prems[of e objs] by (simp add: eo)
  then have "node_enqueue nexts eo pend m = pend m" by (simp add: eo node_enqueue_def)
  ultimately show ?case by simp
qed simp

locale acyclic_graph =
  fixes g :: "('v, 'o, 's) graph_app" and nodes :: "'v list"
  assumes edges: "process g n objs s = (outs, s') \<Longrightarrow> (e, os) \<in> set outs \<Longrightarrow> e < length (next_nodes g n)"
    and order: "topo g nodes"
    and all_nodes: "set nodes = UNIV"
begin

lemma visit_other:
  assumes "pend n = Some objs" and "m \<notin> set (next_nodes g n)" and "m \<noteq> n"
  shows "fst (visit g n (pend, s)) m = pend m"
proof -
  obtain outs s' where p: "process g n objs s = (outs, s')" by fastforce
  have "next_nodes g n ! e \<noteq> m" if "(e, os) \<in> set outs" for e os
    using edges[OF p that] assms(2) by (auto dest: nth_mem)
  then show ?thesis using assms p by (simp add: visit_def fold_enqueue_other)
qed

lemma visit_self:
  assumes "pend n = Some objs" and "n \<notin> set (next_nodes g n)"
  shows "fst (visit g n (pend, s)) n = None"
proof -
  obtain outs s' where p: "process g n objs s = (outs, s')" by fastforce
  have "next_nodes g n ! e \<noteq> n" if "(e, os) \<in> set outs" for e os
    using edges[OF p that] assms(2) by (auto dest: nth_mem)
  then show ?thesis using assms p by (simp add: visit_def fold_enqueue_other)
qed

lemma visit_weight:
  assumes "pend n = Some objs"
  shows "weight nodes (fst (visit g n (pend, s))) < weight nodes pend"
proof -
  have "weight ns (fst (visit g n (pend, s))) < weight ns pend" if "topo g ns" "n \<in> set ns" for ns
    using that
  proof (induction ns)
    case (Cons m ns)
    show ?case
    proof (cases "n = m")
      case True
      then have "n \<notin> set (next_nodes g n)" using Cons.prems by auto
      then show ?thesis
        using True visit_self[of pend n objs s, OF assms] weight_bound[of ns "fst (visit g n (pend, s))"] assms by simp
    next
      case False
      then have "n \<in> set ns" using Cons.prems by simp
      have "set (next_nodes g n) \<subseteq> set ns" using \<open>n \<in> set ns\<close> Cons.prems(1)
      proof -
        have "topo g ks \<Longrightarrow> n \<in> set ks \<Longrightarrow> set (next_nodes g n) \<subseteq> set ks" for ks
          by (induction ks) auto
        then show ?thesis using Cons.prems(1) \<open>n \<in> set ns\<close> by simp
      qed
      then have "m \<notin> set (next_nodes g n)" using Cons.prems(1) by auto
      then have "fst (visit g n (pend, s)) m = pend m" using visit_other[of pend n objs m s, OF assms] False by blast
      then show ?thesis using Cons \<open>n \<in> set ns\<close> by simp
    qed
  qed simp
  then show ?thesis using order all_nodes by blast
qed

text \<open>No run of visits is longer than \<open>2 ^ length nodes\<close>, and only a quiet graph is stuck.\<close>

lemma steps_weight:
  assumes "(graph_step g ^^ k) (pend, s) (pend', s')"
  shows "k + weight nodes pend' \<le> weight nodes pend"
  using assms
proof (induction k arbitrary: pend' s')
  case (Suc k)
  then obtain p t where "(graph_step g ^^ k) (pend, s) (p, t)" and st: "graph_step g (p, t) (pend', s')"
    by (metis prod.collapse relpowp_Suc_E)
  then have "k + weight nodes p \<le> weight nodes pend" using Suc.IH by blast
  moreover from st have "weight nodes pend' < weight nodes p"
    by (metis fst_conv graph_stepE prod.inject visit_weight)
  ultimately show ?case by simp
qed simp

lemma steps_bound:
  assumes "(graph_step g ^^ k) (pend, s) ps"
  shows "k < 2 ^ length nodes"
proof -
  have "(graph_step g ^^ k) (pend, s) (fst ps, snd ps)" using assms by simp
  from steps_weight[OF this] show ?thesis using weight_bound[of nodes pend] by linarith
qed

lemma completes: "\<exists>s'. (graph_step g)\<^sup>*\<^sup>* (pend, s) ((\<lambda>_. None), s')"
proof (induction "weight nodes pend" arbitrary: pend s rule: less_induct)
  case less
  show ?case
  proof (cases "quiet pend")
    case True
    then show ?thesis by (auto simp: quiet_def)
  next
    case False
    then obtain n objs where n: "pend n = Some objs" by (auto simp: quiet_def fun_eq_iff)
    let ?v = "visit g n (pend, s)"
    have "\<exists>s'. (graph_step g)\<^sup>*\<^sup>* (fst ?v, snd ?v) ((\<lambda>_. None), s')"
      by (rule less) (rule visit_weight[of pend n objs, OF n])
    then show ?thesis using visit_pending[of pend n objs g s, OF n]
      by (auto intro: converse_rtranclp_into_rtranclp)
  qed
qed

lemma walk_exists: "\<exists>s'. graph_walk g s s'"
  using completes by (simp add: graph_walk_def walk_start_def)

end

subsection \<open>What is pending\<close>

definition objs_at :: "('v, 'o) streams \<Rightarrow> 'v \<Rightarrow> 'o list" where
  "objs_at pend n = (case pend n of None \<Rightarrow> [] | Some objs \<Rightarrow> objs)"

fun held :: "'v list \<Rightarrow> ('v, 'o) streams \<Rightarrow> 'o multiset" where
  "held [] pend = {#}"
| "held (n # ns) pend = mset (objs_at pend n) + held ns pend"

lemma objs_at_simps [simp]:
  "objs_at (pend(n := None)) m = (if m = n then [] else objs_at pend m)"
  "objs_at (node_enqueue nexts (e, objs) pend) m =
     (if m = nexts ! e then objs_at pend m @ objs else objs_at pend m)"
  "pend n = Some os \<Longrightarrow> objs_at pend n = os"
  by (auto simp: objs_at_def node_enqueue_def split: option.split)

lemma held_quiet [simp]: "held ns (\<lambda>_. None) = {#}"
  by (induction ns) (simp_all add: objs_at_def)

lemma held_take:
  assumes "distinct ns" and "n \<in> set ns"
  shows "held ns (pend(n := None)) + mset (objs_at pend n) = held ns pend"
proof -
  have "held ns (pend(n := None)) + (if n \<in> set ns then mset (objs_at pend n) else {#}) = held ns pend"
    using assms(1) by (induction ns) (auto simp: ac_simps)
  then show ?thesis using assms(2) by simp
qed

lemma held_enqueue:
  assumes "distinct ns" and "nexts ! e \<in> set ns"
  shows "held ns (node_enqueue nexts (e, objs) pend) = held ns pend + mset objs"
proof -
  have "held ns (node_enqueue nexts (e, objs) pend) =
      held ns pend + (if nexts ! e \<in> set ns then mset objs else {#})"
    using assms(1) by (induction ns) (auto simp: ac_simps)
  then show ?thesis using assms(2) by simp
qed

lemma held_enqueue_all:
  assumes "distinct ns" and "list_all (\<lambda>(e, objs). nexts ! e \<in> set ns) outs"
  shows "held ns (fold (node_enqueue nexts) outs pend) = held ns pend + mset (concat (map snd outs))"
  using assms(2) by (induction outs arbitrary: pend) (auto simp: held_enqueue[OF assms(1)] ac_simps)

lemma objs_at_enqueue_all:
  assumes "list_all (\<lambda>(e, objs). list_all (P (nexts ! e)) objs) outs" and "list_all (P n) (objs_at pend n)"
  shows "list_all (P n) (objs_at (fold (node_enqueue nexts) outs pend) n)"
  using assms
proof (induction outs arbitrary: pend)
  case (Cons eo outs)
  obtain e objs where eo: "eo = (e, objs)" by (cases eo)
  have "list_all (P n) (objs_at (fold (node_enqueue nexts) outs (node_enqueue nexts eo pend)) n)"
    by (rule Cons.IH) (use Cons.prems in \<open>auto simp: eo\<close>)
  then show ?case by simp
qed simp

lemma held_objs: "n \<in> set ns \<Longrightarrow> mset (objs_at pend n) \<subseteq># held ns pend"
  by (induction ns) (auto intro: subset_mset.order_trans)

lemma topo_distinct: "topo g ns \<Longrightarrow> distinct ns"
  by (induction ns) auto

end
