(* ===== verification/GraphPackets.thy ===== *)
theory GraphPackets
  imports Graph EchoApps
begin

text \<open>
  The two graph programs that forward packets, \<open>graph/pipeline/pipeline.c\<close> and
  \<open>graph/rx_drop_sample/sample/main.c\<close>: their node functions, edges, and one interface they
  share, a packet graph, in which a single source receives, every other node hands on or
  disposes of exactly what it is given, and each edge carries one kind of packet.

  \<open>refused\<close> are the buffers a node offered to the driver, did not get rid of, and dropped on
  the floor; \<open>overrun\<close> says that a node wrote past one of its local arrays.
\<close>

record 'n graph_world = "'n world" +
  refused :: "mbuf list"
  overrun :: bool

lemma graph_frame [frame]:
  fixes w :: "'n graph_world"
  shows "refused (snd (eth_rx nd p q n w)) = refused w" "overrun (snd (eth_rx nd p q n w)) = overrun w"
    "refused (snd (eth_tx nd p q ms w)) = refused w" "overrun (snd (eth_tx nd p q ms w)) = overrun w"
    "refused (pktmbuf_free m w) = refused w" "overrun (pktmbuf_free m w) = overrun w"
  by (simp_all add: eth_rx_def eth_tx_def pktmbuf_free_def split: prod.split)

lemma free_all_graph_frame [frame]:
  fixes w :: "'n graph_world"
  shows "refused (free_all ms w) = refused w" "overrun (free_all ms w) = overrun w"
  unfolding free_all_def by (rule fold_frame, simp add: frame)+

subsection \<open>Packet graphs\<close>

text \<open>\<open>wanted\<close> packets may be sent; only packets \<open>ok\<close> for a node come to it.\<close>

definition node_keeps ::
    "('v \<Rightarrow> packet \<Rightarrow> bool) \<Rightarrow> (packet \<Rightarrow> bool) \<Rightarrow> 'v list \<Rightarrow> mbuf list \<Rightarrow> 'n graph_world \<Rightarrow>
     (nat \<times> mbuf list) list \<times> 'n graph_world \<Rightarrow> bool" where
  "node_keeps ok wanted nexts objs s r \<longleftrightarrow>
     (case r of (outs, s') \<Rightarrow>
       mem s' = mem s \<and> got s' = got s \<and> (length objs \<le> 32 \<longrightarrow> overrun s' = overrun s) \<and>
       list_all (\<lambda>(e, os). list_all (\<lambda>m. ok (nexts ! e) (mem s m)) os) outs \<and>
       (\<exists>sb fr rf. sent s' = sent s @ map (\<lambda>m. (0, 0, m, mem s m)) sb \<and> freed s' = freed s @ fr \<and>
          refused s' = refused s @ rf \<and> list_all (\<lambda>m. wanted (mem s m)) (sb @ rf) \<and>
          mset sb + mset fr + mset rf + mset (concat (map snd outs)) = mset objs))"

locale packet_graph = acyclic_graph g nodes
  for g :: "('v, mbuf, 'n graph_world) graph_app" and nodes :: "'v list" +
  fixes nd :: "'n ethdev" and rxn :: 'v
    and ok :: "'v \<Rightarrow> packet \<Rightarrow> bool" and wanted :: "packet \<Rightarrow> bool"
  assumes dev: "ethdev_ok nd"
    and source: "sources g = [rxn]" and no_way_back: "rxn \<notin> set (next_nodes g n)"
    and rx: "process g rxn objs s =
      (let (pkts, s) = eth_rx nd 0 0 32 s in (if pkts = [] then [] else [(0, pkts)], s))"
    and rx_ok: "ok (next_nodes g rxn ! 0) c"
    and keeps: "n \<noteq> rxn \<Longrightarrow> list_all (\<lambda>m. ok n (mem s m)) objs \<Longrightarrow>
      node_keeps ok wanted (next_nodes g n) objs s (process g n objs s)"
begin

text \<open>A walk from \<open>w\<close> after the source has been visited.\<close>

definition walked :: "'n graph_world \<Rightarrow> ('v, mbuf) streams \<times> 'n graph_world \<Rightarrow> bool" where
  "walked w ps \<longleftrightarrow> (case ps of (pend, s) \<Rightarrow> case eth_rx nd 0 0 32 w of (bufs, w1) \<Rightarrow>
     pend rxn = None \<and> mem s = mem w1 \<and> got s = got w1 \<and> overrun s = overrun w \<and>
     (\<forall>n. list_all (\<lambda>m. ok n (mem w1 m)) (objs_at pend n)) \<and>
     (\<exists>sb fr rf. sent s = sent w @ map (\<lambda>m. (0, 0, m, mem w1 m)) sb \<and> freed s = freed w @ fr \<and>
        refused s = refused w @ rf \<and> list_all (\<lambda>m. wanted (mem w1 m)) (sb @ rf) \<and>
        mset sb + mset fr + mset rf + held nodes pend = mset bufs))"

lemma distinct_nodes: "distinct nodes"
  using order by (rule topo_distinct)

lemma outs_in_nodes:
  assumes "process g n objs s = (outs, s')"
  shows "list_all (\<lambda>(e, os). next_nodes g n ! e \<in> set nodes) outs"
  using all_nodes by (auto simp: list_all_iff)

lemma walked_rx: "walked w (visit g rxn (walk_start g w))"
proof -
  obtain bufs w1 where rxw: "eth_rx nd 0 0 32 w = (bufs, w1)" by fastforce
  let ?pend = "(\<lambda>n. if n = rxn then Some [] else None) :: ('v, mbuf) streams"
  have start: "walk_start g w = (?pend, w)" by (auto simp: walk_start_def source)
  have none: "?pend(rxn := None) = (\<lambda>_. None)" by auto
  let ?outs = "if bufs = [] then [] else [(0, bufs)]"
  have p: "process g rxn [] w = (?outs, w1)" by (simp add: rx rxw)
  then have v: "visit g rxn (walk_start g w) =
      (fold (node_enqueue (next_nodes g rxn)) ?outs (\<lambda>_. None), w1)"
    unfolding start visit_def by (simp add: none)
  have w1: "overrun w1 = overrun w" "sent w1 = sent w" "freed w1 = freed w" "refused w1 = refused w"
    using rxw by (metis frame snd_conv)+
  have "next_nodes g rxn ! 0 \<noteq> rxn" if "bufs \<noteq> []"
  proof -
    have "0 < length (next_nodes g rxn)" using edges[OF p, of 0 bufs] that by simp
    then have "next_nodes g rxn ! 0 \<in> set (next_nodes g rxn)" by (rule nth_mem)
    then show ?thesis using no_way_back[of rxn] by metis
  qed
  then have quiet_rx: "fold (node_enqueue (next_nodes g rxn)) ?outs (\<lambda>_. None) rxn = None"
    by (cases "bufs = []") (simp_all add: node_enqueue_def eq_commute[of rxn])
  have oks: "list_all (\<lambda>m. ok n (mem w1 m)) (objs_at (fold (node_enqueue (next_nodes g rxn)) ?outs (\<lambda>_. None)) n)" for n
    by (rule objs_at_enqueue_all[where P = "\<lambda>n m. ok n (mem w1 m)"])
      (auto simp: rx_ok list_all_iff objs_at_def)
  have h: "held nodes (fold (node_enqueue (next_nodes g rxn)) ?outs (\<lambda>_. None)) = mset bufs"
    using held_enqueue_all[OF distinct_nodes outs_in_nodes[OF p], of "\<lambda>_. None"] by simp
  show ?thesis
    unfolding v walked_def prod.case rxw
    using quiet_rx oks h w1 by (intro conjI allI exI[of _ "[]"]) simp_all
qed

lemma walked_visit:
  assumes "walked w (pend, s)" and "pend n = Some objs"
  shows "walked w (visit g n (pend, s))"
proof -
  obtain bufs w1 where rxw: "eth_rx nd 0 0 32 w = (bufs, w1)" by fastforce
  from assms(1) obtain sb fr rf where a: "pend rxn = None" "mem s = mem w1" "got s = got w1"
    "overrun s = overrun w" "\<forall>n. list_all (\<lambda>m. ok n (mem w1 m)) (objs_at pend n)"
    "sent s = sent w @ map (\<lambda>m. (0, 0, m, mem w1 m)) sb" "freed s = freed w @ fr"
    "refused s = refused w @ rf" "list_all (\<lambda>m. wanted (mem w1 m)) (sb @ rf)"
    "mset sb + mset fr + mset rf + held nodes pend = mset bufs"
    unfolding walked_def prod.case rxw by (elim conjE exE)
  have n: "n \<noteq> rxn" using a(1) assms(2) by auto
  have objs: "objs_at pend n = objs" using assms(2) by simp
  obtain outs s' where p: "process g n objs s = (outs, s')" by fastforce
  have "list_all (\<lambda>m. ok n (mem s m)) objs" using a(2,5) objs by metis
  from keeps[OF n this] obtain sb' fr' rf' where b: "mem s' = mem s" "got s' = got s"
    "length objs \<le> 32 \<longrightarrow> overrun s' = overrun s"
    "list_all (\<lambda>(e, os). list_all (\<lambda>m. ok (next_nodes g n ! e) (mem s m)) os) outs"
    "sent s' = sent s @ map (\<lambda>m. (0, 0, m, mem s m)) sb'" "freed s' = freed s @ fr'"
    "refused s' = refused s @ rf'" "list_all (\<lambda>m. wanted (mem s m)) (sb' @ rf')"
    "mset sb' + mset fr' + mset rf' + mset (concat (map snd outs)) = mset objs"
    unfolding node_keeps_def p prod.case by (elim conjE exE)
  let ?pend = "fold (node_enqueue (next_nodes g n)) outs (pend(n := None))"
  have "held nodes (pend(n := None)) + mset objs = held nodes pend"
    using held_take[OF distinct_nodes, of n pend] all_nodes objs by simp
  then have tk: "mset sb + mset fr + mset rf + (held nodes (pend(n := None)) + mset objs) = mset bufs"
    using a(10) by simp
  have en: "held nodes ?pend = held nodes (pend(n := None)) + mset (concat (map snd outs))"
    by (rule held_enqueue_all[OF distinct_nodes outs_in_nodes[OF p]])
  have bal: "mset (sb @ sb') + mset (fr @ fr') + mset (rf @ rf') + held nodes ?pend = mset bufs"
    unfolding en mset_append tk[symmetric] b(9)[symmetric] by (simp only: ac_simps)
  have "size (mset objs) \<le> size (mset bufs)" unfolding tk[symmetric] by simp
  moreover have "length bufs \<le> 32" using ethdev_ok.eth_rx_length[OF dev, of 0 0 32 w] rxw by simp
  ultimately have over: "overrun s' = overrun w" using b(3) a(4) by simp
  have oks: "list_all (\<lambda>m. ok k (mem w1 m)) (objs_at ?pend k)" for k
    by (rule objs_at_enqueue_all[where P = "\<lambda>n m. ok n (mem w1 m)"])
      (use a(2,5) b(4) in \<open>auto simp: list_all_iff\<close>)
  have v: "visit g n (pend, s) = (?pend, s')" using p assms(2) by (simp add: visit_def)
  have "next_nodes g n ! e \<noteq> rxn" if "(e, os) \<in> set outs" for e os
    using edges[OF p that] no_way_back[of n] by (auto dest: nth_mem)
  then have "?pend rxn = None" using a(1) n by (subst fold_enqueue_other) auto
  then show ?thesis
    unfolding v walked_def prod.case rxw
    using oks over a b bal by (intro conjI allI exI[of _ "sb @ sb'"] exI[of _ "fr @ fr'"] exI[of _ "rf @ rf'"]) auto
qed

text \<open>What one walk does, whatever order the library visits the nodes in.\<close>

lemma walk_outcome:
  assumes "graph_walk g w w'"
  shows "\<exists>bufs w1 sb fr rf. eth_rx nd 0 0 32 w = (bufs, w1) \<and> got w' = got w @ bufs \<and>
    overrun w' = overrun w \<and> sent w' = sent w @ map (\<lambda>m. (0, 0, m, mem w1 m)) sb \<and>
    freed w' = freed w @ fr \<and> refused w' = refused w @ rf \<and> list_all (\<lambda>m. wanted (mem w1 m)) (sb @ rf) \<and>
    mset sb + mset fr + mset rf = mset bufs"
proof -
  obtain bufs w1 where rxw: "eth_rx nd 0 0 32 w = (bufs, w1)" by fastforce
  let ?I = "\<lambda>ps. ps = walk_start g w \<or> walked w ps"
  have "?I ((\<lambda>_. None), w')"
  proof (rule graph_walk_invariant[OF assms])
    fix pend t n objs
    assume a: "(pend, t) = walk_start g w \<or> walked w (pend, t)" and n: "pend n = Some objs"
    from a show "visit g n (pend, t) = walk_start g w \<or> walked w (visit g n (pend, t))"
    proof
      assume st: "(pend, t) = walk_start g w"
      then have "n = rxn" using n by (auto simp: walk_start_def source split: if_splits)
      then show ?thesis using walked_rx[of w] st by metis
    qed (use walked_visit n in blast)
  qed simp
  moreover have "((\<lambda>_. None), w') \<noteq> walk_start g w"
    by (auto simp: walk_start_def source fun_eq_iff)
  ultimately have "walked w ((\<lambda>_. None), w')" by blast
  moreover have "got w1 = got w @ bufs" using rxw by (metis eth_rx_frame(3) fst_conv snd_conv)
  ultimately show ?thesis unfolding walked_def prod.case rxw held_quiet by auto
qed

end

subsection \<open>\<open>graph/pipeline\<close>\<close>

datatype pipe_node = RxNode | L2Node | Ipv4Node | Ipv6Node | TxNode | DropNode

definition rx_node_process ::
    "'n ethdev \<Rightarrow> mbuf list \<Rightarrow> 'n graph_world \<Rightarrow> (nat \<times> mbuf list) list \<times> 'n graph_world" where
  "rx_node_process nd objs w =
     (case eth_rx nd 0 0 32 w of (pkts, w) \<Rightarrow> (if pkts \<noteq> [] then [(0, pkts)] else [], w))"

text \<open>The packets are sorted into three local arrays of 32 entries each.\<close>

definition l2_node_process ::
    "byteorder \<Rightarrow> mbuf list \<Rightarrow> 'n graph_world \<Rightarrow> (nat \<times> mbuf list) list \<times> 'n graph_world" where
  "l2_node_process bo objs w =
     (let eth_type = (\<lambda>m. be_to_cpu_16 bo (ether_type (bytes (mem w m))));
          ipv4 = filter (\<lambda>m. eth_type m = RTE_ETHER_TYPE_IPV4) objs;
          ipv6 = filter (\<lambda>m. eth_type m = RTE_ETHER_TYPE_IPV6) objs;
          drops = filter (\<lambda>m. eth_type m \<noteq> RTE_ETHER_TYPE_IPV4 \<and> eth_type m \<noteq> RTE_ETHER_TYPE_IPV6) objs
      in ((if ipv4 \<noteq> [] then [(0, ipv4)] else []) @
          (if ipv6 \<noteq> [] then [(1, ipv6)] else []) @
          (if drops \<noteq> [] then [(2, drops)] else []),
          w\<lparr>overrun := overrun w \<or> 32 < length ipv4 \<or> 32 < length ipv6 \<or> 32 < length drops\<rparr>))"

definition ipv4_node_process :: "mbuf list \<Rightarrow> 'n graph_world \<Rightarrow> (nat \<times> mbuf list) list \<times> 'n graph_world" where
  "ipv4_node_process objs w = ([(0, objs)], w)"

definition ipv6_node_process :: "mbuf list \<Rightarrow> 'n graph_world \<Rightarrow> (nat \<times> mbuf list) list \<times> 'n graph_world" where
  "ipv6_node_process objs w = ([(0, objs)], w)"

definition tx_node_process ::
    "'n ethdev \<Rightarrow> mbuf list \<Rightarrow> 'n graph_world \<Rightarrow> (nat \<times> mbuf list) list \<times> 'n graph_world" where
  "tx_node_process nd objs w = ([], tx_or_free nd 0 0 objs w)"

definition drop_node_process :: "mbuf list \<Rightarrow> 'n graph_world \<Rightarrow> (nat \<times> mbuf list) list \<times> 'n graph_world" where
  "drop_node_process objs w = ([], free_all objs w)"

fun pipeline_next :: "pipe_node \<Rightarrow> pipe_node list" where
  "pipeline_next RxNode = [L2Node]"
| "pipeline_next L2Node = [Ipv4Node, Ipv6Node, DropNode]"
| "pipeline_next Ipv4Node = [TxNode]"
| "pipeline_next Ipv6Node = [TxNode]"
| "pipeline_next _ = []"

definition pipeline_app :: "'n ethdev \<Rightarrow> byteorder \<Rightarrow> (pipe_node, mbuf, 'n graph_world) graph_app" where
  "pipeline_app nd bo =
     \<lparr>sources = [RxNode], next_nodes = pipeline_next,
      process = (\<lambda>n. case n of
          RxNode \<Rightarrow> rx_node_process nd
        | L2Node \<Rightarrow> l2_node_process bo
        | Ipv4Node \<Rightarrow> ipv4_node_process
        | Ipv6Node \<Rightarrow> ipv6_node_process
        | TxNode \<Rightarrow> tx_node_process nd
        | DropNode \<Rightarrow> drop_node_process)\<rparr>"

subsection \<open>\<open>graph/rx_drop_sample\<close>\<close>

datatype drop_app_node = SRx | SIpv4 | STx | SDrop

definition sample_rx_process ::
    "'n ethdev \<Rightarrow> mbuf list \<Rightarrow> 'n graph_world \<Rightarrow> (nat \<times> mbuf list) list \<times> 'n graph_world" where
  "sample_rx_process nd objs w =
     (case eth_rx nd 0 0 32 w of (pkts, w) \<Rightarrow> (if 0 < length pkts then [(0, pkts)] else [], w))"

definition sample_ipv4_process ::
    "byteorder \<Rightarrow> mbuf list \<Rightarrow> 'n graph_world \<Rightarrow> (nat \<times> mbuf list) list \<times> 'n graph_world" where
  "sample_ipv4_process bo objs w =
     (map (\<lambda>m. if ether_type (bytes (mem w m)) = cpu_to_be_16 bo RTE_ETHER_TYPE_IPV4
               then (0, [m]) else (1, [m])) objs, w)"

text \<open>The result of the transmission is not looked at.\<close>

definition sample_tx_process ::
    "'n ethdev \<Rightarrow> mbuf list \<Rightarrow> 'n graph_world \<Rightarrow> (nat \<times> mbuf list) list \<times> 'n graph_world" where
  "sample_tx_process nd objs w =
     (case eth_tx nd 0 0 objs w of (k, w) \<Rightarrow> ([], w\<lparr>refused := refused w @ drop k objs\<rparr>))"

definition sample_drop_process :: "mbuf list \<Rightarrow> 'n graph_world \<Rightarrow> (nat \<times> mbuf list) list \<times> 'n graph_world" where
  "sample_drop_process objs w = ([], free_all objs w)"

fun sample_next :: "drop_app_node \<Rightarrow> drop_app_node list" where
  "sample_next SRx = [SIpv4]"
| "sample_next SIpv4 = [STx, SDrop]"
| "sample_next _ = []"

definition sample_app :: "'n ethdev \<Rightarrow> byteorder \<Rightarrow> (drop_app_node, mbuf, 'n graph_world) graph_app" where
  "sample_app nd bo =
     \<lparr>sources = [SRx], next_nodes = sample_next,
      process = (\<lambda>n. case n of
          SRx \<Rightarrow> sample_rx_process nd
        | SIpv4 \<Rightarrow> sample_ipv4_process bo
        | STx \<Rightarrow> sample_tx_process nd
        | SDrop \<Rightarrow> sample_drop_process)\<rparr>"

subsection \<open>Both are packet graphs\<close>

definition carries :: "u16 \<Rightarrow> packet \<Rightarrow> bool" where
  "carries t c \<longleftrightarrow> be16 (bytes c 12) (bytes c 13) = t"

definition is_ip :: "packet \<Rightarrow> bool" where
  "is_ip c \<longleftrightarrow> carries RTE_ETHER_TYPE_IPV4 c \<or> carries RTE_ETHER_TYPE_IPV6 c"

fun pipeline_ok :: "pipe_node \<Rightarrow> packet \<Rightarrow> bool" where
  "pipeline_ok Ipv4Node c = carries RTE_ETHER_TYPE_IPV4 c"
| "pipeline_ok Ipv6Node c = carries RTE_ETHER_TYPE_IPV6 c"
| "pipeline_ok TxNode c = is_ip c"
| "pipeline_ok DropNode c = (\<not> is_ip c)"
| "pipeline_ok _ c = True"

fun sample_ok :: "drop_app_node \<Rightarrow> packet \<Rightarrow> bool" where
  "sample_ok STx c = carries RTE_ETHER_TYPE_IPV4 c"
| "sample_ok SDrop c = (\<not> carries RTE_ETHER_TYPE_IPV4 c)"
| "sample_ok _ c = True"

lemma tx_or_free_outcome:
  fixes w :: "'n graph_world"
  shows "sent (tx_or_free nd p q ms w) =
      sent w @ map (\<lambda>m. (p, q, m, mem w m)) (take (fst (eth_tx nd p q ms w)) ms)"
    "freed (tx_or_free nd p q ms w) = freed w @ drop (fst (eth_tx nd p q ms w)) ms"
    "refused (tx_or_free nd p q ms w) = refused w" "overrun (tx_or_free nd p q ms w) = overrun w"
  by (simp_all add: tx_or_free_def case_prod_beta frame eth_tx_sent)

lemma mset_three: "mset (filter P xs) + (mset (filter Q xs) + mset (filter (\<lambda>x. \<not> P x \<and> \<not> Q x) xs)) = mset xs"
  if "\<And>x. \<not> (P x \<and> Q x)"
  using that by (induction xs) auto

lemma outs_mset:
  "mset (concat (map snd ((if a \<noteq> [] then [(i, a)] else []) @ (if b \<noteq> [] then [(j, b)] else []) @
     (if c \<noteq> [] then [(k, c)] else [])))) = mset a + (mset b + mset c)"
  by (cases "a = []"; cases "b = []"; cases "c = []") simp_all

lemma l2_node_keeps:
  assumes "byteorder_ok bo"
  shows "node_keeps pipeline_ok is_ip [Ipv4Node, Ipv6Node, DropNode] objs s (l2_node_process bo objs s)"
proof -
  let ?t = "\<lambda>m. be16 (bytes (mem s m) 12) (bytes (mem s m) 13)"
  have t: "be_to_cpu_16 bo (ether_type (bytes (mem s m))) = ?t m" for m
    by (simp add: byteorder_ok.be_to_cpu_16_load[OF assms] ether_type_def)
  define a b c where "a = filter (\<lambda>m. ?t m = RTE_ETHER_TYPE_IPV4) objs"
    and "b = filter (\<lambda>m. ?t m = RTE_ETHER_TYPE_IPV6) objs"
    and "c = filter (\<lambda>m. ?t m \<noteq> RTE_ETHER_TYPE_IPV4 \<and> ?t m \<noteq> RTE_ETHER_TYPE_IPV6) objs"
  have sum: "mset a + (mset b + mset c) = mset objs"
    unfolding a_def b_def c_def by (rule mset_three) (simp add: ether_consts)
  have len: "length a \<le> length objs" "length b \<le> length objs" "length c \<le> length objs"
    by (simp_all add: a_def b_def c_def)
  have kinds: "list_all (\<lambda>m. carries RTE_ETHER_TYPE_IPV4 (mem s m)) a"
    "list_all (\<lambda>m. carries RTE_ETHER_TYPE_IPV6 (mem s m)) b" "list_all (\<lambda>m. \<not> is_ip (mem s m)) c"
    by (simp_all add: a_def b_def c_def list_all_iff carries_def is_ip_def)
  have r: "l2_node_process bo objs s =
      ((if a \<noteq> [] then [(0, a)] else []) @ (if b \<noteq> [] then [(1, b)] else []) @
        (if c \<noteq> [] then [(2, c)] else []),
       s\<lparr>overrun := overrun s \<or> 32 < length a \<or> 32 < length b \<or> 32 < length c\<rparr>)"
    unfolding l2_node_process_def Let_def t a_def b_def c_def by (rule refl)
  show ?thesis
    unfolding node_keeps_def r prod.case outs_mset
    using sum len kinds by (intro conjI exI[of _ "[]"]) auto
qed

lemma tx_node_keeps:
  assumes "list_all (\<lambda>m. wanted (mem s m)) objs"
  shows "node_keeps ok wanted nexts objs s (tx_node_process nd objs s)"
proof -
  let ?k = "fst (eth_tx nd 0 0 objs s)"
  have "list_all (\<lambda>m. wanted (mem s m)) (take ?k objs)"
    using assms by (auto simp: list_all_iff dest: in_set_takeD)
  then show ?thesis
    unfolding node_keeps_def tx_node_process_def prod.case
    by (intro conjI exI[of _ "take ?k objs"] exI[of _ "drop ?k objs"] exI[of _ "[]"])
      (simp_all add: tx_or_free_outcome frame)
qed

lemma drop_node_keeps: "node_keeps ok wanted nexts objs s ([], free_all objs s)"
  unfolding node_keeps_def prod.case
  by (intro conjI exI[of _ "[]"] exI[of _ objs]) (simp_all add: frame)

lemma hand_on_keeps:
  assumes "list_all (\<lambda>m. ok (nexts ! 0) (mem s m)) objs"
  shows "node_keeps ok wanted nexts objs s ([(0, objs)], s)"
  unfolding node_keeps_def prod.case
  using assms by (intro conjI exI[of _ "[]"]) simp_all

lemma pipeline_packet_graph:
  fixes nd :: "'n ethdev"
  assumes "ethdev_ok nd" and "byteorder_ok bo"
  shows "packet_graph (pipeline_app nd bo) [RxNode, L2Node, Ipv4Node, Ipv6Node, TxNode, DropNode]
    nd RxNode pipeline_ok is_ip"
proof unfold_locales
  fix n objs s outs s' e os
  assume "process (pipeline_app nd bo) n objs s = (outs, s')" "(e, os) \<in> set outs"
  then show "e < length (next_nodes (pipeline_app nd bo) n)"
    by (cases n) (auto simp: pipeline_app_def rx_node_process_def l2_node_process_def Let_def
        ipv4_node_process_def ipv6_node_process_def tx_node_process_def drop_node_process_def
        split: prod.splits if_splits)
next
  show "topo (pipeline_app nd bo) [RxNode, L2Node, Ipv4Node, Ipv6Node, TxNode, DropNode]"
    by (simp add: pipeline_app_def)
next
  show "set [RxNode, L2Node, Ipv4Node, Ipv6Node, TxNode, DropNode] = UNIV"
    using pipe_node.exhaust by auto
next
  fix n
  show "RxNode \<notin> set (next_nodes (pipeline_app nd bo) n)" by (cases n) (simp_all add: pipeline_app_def)
next
  fix n objs and s :: "'n graph_world"
  have to_tx: "node_keeps pipeline_ok is_ip [TxNode] objs s ([(0, objs)], s)"
    if "list_all (\<lambda>m. carries t (mem s m)) objs" "t = RTE_ETHER_TYPE_IPV4 \<or> t = RTE_ETHER_TYPE_IPV6" for t
    using that by (intro hand_on_keeps) (auto simp: list_all_iff is_ip_def)
  assume "n \<noteq> RxNode" "list_all (\<lambda>m. pipeline_ok n (mem s m)) objs"
  then show "node_keeps pipeline_ok is_ip (next_nodes (pipeline_app nd bo) n) objs s
      (process (pipeline_app nd bo) n objs s)"
    using l2_node_keeps[OF assms(2)] to_tx by (cases n)
      (simp_all add: pipeline_app_def ipv4_node_process_def ipv6_node_process_def
        drop_node_process_def drop_node_keeps tx_node_keeps)
qed (use assms in \<open>simp_all add: pipeline_app_def rx_node_process_def case_prod_beta ethdev_ok_def\<close>)

lemma sample_ipv4_keeps:
  assumes "byteorder_ok bo"
  shows "node_keeps sample_ok (carries RTE_ETHER_TYPE_IPV4) [STx, SDrop] objs s (sample_ipv4_process bo objs s)"
proof -
  have t: "ether_type (bytes (mem s m)) = cpu_to_be_16 bo RTE_ETHER_TYPE_IPV4 \<longleftrightarrow>
      carries RTE_ETHER_TYPE_IPV4 (mem s m)" for m
    by (simp add: byteorder_ok.load16_eq_cpu_to_be[OF assms] ether_type_def carries_def)
  have "mset (concat (map (snd \<circ> (\<lambda>m. if P m then (0, [m]) else (1, [m]))) objs)) = mset objs" for P
    by (induction objs) auto
  then show ?thesis
    unfolding node_keeps_def sample_ipv4_process_def prod.case t
    by (intro conjI exI[of _ "[]"]) (auto simp: list_all_iff)
qed

lemma sample_tx_keeps:
  assumes "list_all (\<lambda>m. wanted (mem s m)) objs"
  shows "node_keeps ok wanted nexts objs s (sample_tx_process nd objs s)"
proof -
  let ?k = "fst (eth_tx nd 0 0 objs s)"
  have "list_all (\<lambda>m. wanted (mem s m)) (take ?k objs @ drop ?k objs)" using assms by simp
  then show ?thesis
    unfolding node_keeps_def sample_tx_process_def case_prod_beta fst_conv snd_conv
    by (intro conjI exI[of _ "take ?k objs"] exI[of _ "[]"] exI[of _ "drop ?k objs"])
      (simp_all add: frame eth_tx_sent)
qed

lemma sample_packet_graph:
  fixes nd :: "'n ethdev"
  assumes "ethdev_ok nd" and "byteorder_ok bo"
  shows "packet_graph (sample_app nd bo) [SRx, SIpv4, STx, SDrop] nd SRx sample_ok (carries RTE_ETHER_TYPE_IPV4)"
proof unfold_locales
  fix n objs s outs s' e os
  assume "process (sample_app nd bo) n objs s = (outs, s')" "(e, os) \<in> set outs"
  then show "e < length (next_nodes (sample_app nd bo) n)"
    by (cases n) (auto simp: sample_app_def sample_rx_process_def sample_ipv4_process_def
        sample_tx_process_def sample_drop_process_def split: prod.splits if_splits)
next
  show "topo (sample_app nd bo) [SRx, SIpv4, STx, SDrop]" by (simp add: sample_app_def)
next
  show "set [SRx, SIpv4, STx, SDrop] = UNIV" using drop_app_node.exhaust by auto
next
  fix n
  show "SRx \<notin> set (next_nodes (sample_app nd bo) n)" by (cases n) (simp_all add: sample_app_def)
next
  fix n objs and s :: "'n graph_world"
  assume "n \<noteq> SRx" "list_all (\<lambda>m. sample_ok n (mem s m)) objs"
  then show "node_keeps sample_ok (carries RTE_ETHER_TYPE_IPV4) (next_nodes (sample_app nd bo) n) objs s
      (process (sample_app nd bo) n objs s)"
    using sample_ipv4_keeps[OF assms(2)] by (cases n)
      (simp_all add: sample_app_def sample_drop_process_def drop_node_keeps sample_tx_keeps)
qed (use assms in \<open>simp_all add: sample_app_def sample_rx_process_def case_prod_beta ethdev_ok_def\<close>)

interpretation pipeline: packet_graph "pipeline_app script_dev le_host"
    "[RxNode, L2Node, Ipv4Node, Ipv6Node, TxNode, DropNode]" script_dev RxNode pipeline_ok is_ip
  by (rule pipeline_packet_graph[OF script_dev.ethdev_ok_axioms le_host.byteorder_ok_axioms])

interpretation rx_drop: packet_graph "sample_app script_dev le_host" "[SRx, SIpv4, STx, SDrop]"
    script_dev SRx sample_ok "carries RTE_ETHER_TYPE_IPV4"
  by (rule sample_packet_graph[OF script_dev.ethdev_ok_axioms le_host.byteorder_ok_axioms])

subsection \<open>Properties\<close>

lemma pipeline_refuses_nothing:
  assumes "graph_walk (pipeline_app nd bo) w w'"
  shows "refused w' = refused w"
proof -
  have p: "refused (snd (process (pipeline_app nd bo) n objs s)) = refused s" for n objs s
    by (cases n) (simp_all add: pipeline_app_def rx_node_process_def l2_node_process_def Let_def
        ipv4_node_process_def ipv6_node_process_def tx_node_process_def drop_node_process_def
        tx_or_free_outcome case_prod_beta frame)
  have "refused (snd ((\<lambda>_. None) :: (pipe_node, mbuf) streams, w')) = refused w"
    by (rule graph_walk_invariant[OF assms, where I = "\<lambda>ps. refused (snd ps) = refused w"])
      (simp_all add: walk_start_def visit_def case_prod_beta p)
  then show ?thesis by simp
qed

text \<open>
  C8. One walk of the pipeline, with any driver and in whatever order the library visits
  the nodes: it receives one burst; only IPv4 and IPv6 packets are sent, on port 0, with the
  contents received; every packet of the burst is either sent or freed, exactly once, so
  packets of any other kind are freed and none is leaked; and no node writes past its arrays
  of 32 entries.
\<close>

theorem graph_pipeline_walk:
  assumes "ethdev_ok nd" and "byteorder_ok bo" and "graph_walk (pipeline_app nd bo) w w'"
  shows "\<exists>bufs w1 sb fr. eth_rx nd 0 0 32 w = (bufs, w1) \<and> got w' = got w @ bufs \<and>
    sent w' = sent w @ map (\<lambda>m. (0, 0, m, mem w1 m)) sb \<and> list_all (\<lambda>m. is_ip (mem w1 m)) sb \<and>
    freed w' = freed w @ fr \<and> mset sb + mset fr = mset bufs \<and>
    refused w' = refused w \<and> overrun w' = overrun w"
proof -
  from packet_graph.walk_outcome[OF pipeline_packet_graph[OF assms(1,2)] assms(3)]
  obtain bufs w1 sb fr rf where o: "eth_rx nd 0 0 32 w = (bufs, w1)" "got w' = got w @ bufs"
    "overrun w' = overrun w" "sent w' = sent w @ map (\<lambda>m. (0, 0, m, mem w1 m)) sb"
    "freed w' = freed w @ fr" "refused w' = refused w @ rf" "list_all (\<lambda>m. is_ip (mem w1 m)) (sb @ rf)"
    "mset sb + mset fr + mset rf = mset bufs" by (elim exE conjE)
  have "rf = []" using pipeline_refuses_nothing[OF assms(3)] o(6) by simp
  then show ?thesis using o by (intro exI[of _ bufs] exI[of _ w1] exI[of _ sb] exI[of _ fr]) simp
qed

definition graph_start :: "script \<Rightarrow> script graph_world" where
  "graph_start s = world.extend (start_world s) \<lparr>refused = [], overrun = False\<rparr>"

text \<open>An IPv4 packet, an ARP packet and an IPv6 packet; the driver takes one packet per call.\<close>

definition graph_script :: script where
  "graph_script = \<lparr>next_addr = 1, bursts =
     [map (\<lambda>t. \<lparr>bytes = buffer_of ([0, 0, 0, 0, 0, 0, 0, 0, 0, 0, 0, 0] @ t), data_len = 60, pkt_len = 60\<rparr>)
       [[8, 0], [8, 6], [0x86, 0xDD]]], tx_caps = [1, 1, 1]\<rparr>"

definition pipeline_order :: "pipe_node list" where
  "pipeline_order = [RxNode, L2Node, Ipv6Node, Ipv4Node, TxNode, DropNode]"

lemma sent_bufs_of_map: "sent w = map (\<lambda>m. (p, q, m, f m)) sb \<Longrightarrow> sent_bufs w = sb"
  by (simp add: sent_bufs_def comp_def)

theorem graph_pipeline_walk_witness:
  "\<exists>w'. graph_walk (pipeline_app script_dev le_host) (graph_start graph_script) w' \<and>
    mset (sent_bufs w') + mset (freed w') = {#1, 2, 3#} \<and> freed w' = [1, 2]"
proof -
  let ?w = "snd (sched_walk (pipeline_app script_dev le_host) pipeline_order (graph_start graph_script))"
  have walk: "graph_walk (pipeline_app script_dev le_host) (graph_start graph_script) ?w"
    by (rule sched_walk_walk[of _ _ _ pipeline_order]) (code_simp, use pipeline.all_nodes in
      \<open>auto simp: pipeline_order_def\<close>)
  have start: "sent (graph_start graph_script) = []" "freed (graph_start graph_script) = []"
    by (simp_all add: graph_start_def start_world_def world.defs)
  have rx: "fst (eth_rx script_dev 0 0 32 (graph_start graph_script)) = [1, 2, 3]" by code_simp
  have "freed ?w = [1, 2]" by code_simp
  moreover have "mset (sent_bufs ?w) + mset (freed ?w) = {#1, 2, 3#}"
    using graph_pipeline_walk[OF script_dev.ethdev_ok_axioms le_host.byteorder_ok_axioms walk] start rx
    by (auto dest!: sent_bufs_of_map)
  ultimately show ?thesis using walk by blast
qed

text \<open>
  One walk of \<open>rx_drop_sample\<close>: only IPv4 packets are sent, every packet is disposed of
  at most once, and what is leaked is exactly what the driver refuses, all of it IPv4: the
  transmitting node ignores the driver's answer.
\<close>

theorem graph_rx_drop_walk:
  assumes "ethdev_ok nd" and "byteorder_ok bo" and "graph_walk (sample_app nd bo) w w'"
  shows "\<exists>bufs w1 sb fr rf. eth_rx nd 0 0 32 w = (bufs, w1) \<and> got w' = got w @ bufs \<and>
    sent w' = sent w @ map (\<lambda>m. (0, 0, m, mem w1 m)) sb \<and> freed w' = freed w @ fr \<and>
    refused w' = refused w @ rf \<and> mset sb + mset fr + mset rf = mset bufs \<and>
    list_all (\<lambda>m. carries RTE_ETHER_TYPE_IPV4 (mem w1 m)) (sb @ rf)"
  using packet_graph.walk_outcome[OF sample_packet_graph[OF assms(1,2)] assms(3)] by blast

theorem graph_rx_drop_walk_witness:
  "\<exists>w'. graph_walk (sample_app script_dev le_host) (graph_start (graph_script\<lparr>tx_caps := [0]\<rparr>)) w' \<and>
    mset (sent_bufs w') + mset (freed w') + mset (refused w') = {#1, 2, 3#} \<and> refused w' = [1]"
proof -
  let ?i = "graph_start (graph_script\<lparr>tx_caps := [0]\<rparr>)"
  let ?w = "snd (sched_walk (sample_app script_dev le_host) [SRx, SIpv4, STx, SDrop] ?i)"
  have walk: "graph_walk (sample_app script_dev le_host) ?i ?w"
    by (rule sched_walk_walk[of _ _ _ "[SRx, SIpv4, STx, SDrop]"]) (code_simp, use rx_drop.all_nodes in simp)
  have start: "sent ?i = []" "freed ?i = []" "refused ?i = []"
    by (simp_all add: graph_start_def start_world_def world.defs)
  have rx: "fst (eth_rx script_dev 0 0 32 ?i) = [1, 2, 3]" by code_simp
  have "refused ?w = [1]" by code_simp
  moreover have "mset (sent_bufs ?w) + mset (freed ?w) + mset (refused ?w) = {#1, 2, 3#}"
    using graph_rx_drop_walk[OF script_dev.ethdev_ok_axioms le_host.byteorder_ok_axioms walk] start rx
    by (auto dest!: sent_bufs_of_map)
  ultimately show ?thesis using walk by blast
qed

text \<open>
  The walks of both programs end: from any state a walk can be completed, no order of
  visits makes it longer than the number of node sets allows (63 and 15 visits), and as long
  as anything is pending some node can be visited; so every packet received is dealt with
  before the loop looks at its flag again.
\<close>

theorem graph_walks_end:
  assumes "ethdev_ok nd" and "byteorder_ok bo"
  shows "(\<exists>w'. graph_walk (pipeline_app nd bo) w w') \<and> (\<exists>w'. graph_walk (sample_app nd bo) w w') \<and>
    ((graph_step (pipeline_app nd bo) ^^ j) (walk_start (pipeline_app nd bo) w) (pend, v) \<longrightarrow>
       j < 64 \<and> (quiet pend \<or> (\<exists>ps. graph_step (pipeline_app nd bo) (pend, v) ps))) \<and>
    ((graph_step (sample_app nd bo) ^^ k) (walk_start (sample_app nd bo) w) (pend', v') \<longrightarrow>
       k < 16 \<and> (quiet pend' \<or> (\<exists>ps. graph_step (sample_app nd bo) (pend', v') ps)))"
proof -
  note p = packet_graph.axioms(1)[OF pipeline_packet_graph[OF assms]]
  note q = packet_graph.axioms(1)[OF sample_packet_graph[OF assms]]
  have "j < 64" if "(graph_step (pipeline_app nd bo) ^^ j) (walk_start (pipeline_app nd bo) w) (pend, v)"
    using acyclic_graph.steps_bound[OF p, of j _ w "(pend, v)"] that by (simp add: walk_start_def)
  moreover have "k < 16" if "(graph_step (sample_app nd bo) ^^ k) (walk_start (sample_app nd bo) w) (pend', v')"
    using acyclic_graph.steps_bound[OF q, of k _ w "(pend', v')"] that by (simp add: walk_start_def)
  moreover have "\<exists>w'. graph_walk (pipeline_app nd bo) w w'" "\<exists>w'. graph_walk (sample_app nd bo) w w'"
    using acyclic_graph.walk_exists[OF p] acyclic_graph.walk_exists[OF q] by blast+
  moreover have "quiet pend \<or> (\<exists>ps. graph_step (pipeline_app nd bo) (pend, v) ps)"
    "quiet pend' \<or> (\<exists>ps. graph_step (sample_app nd bo) (pend', v') ps)"
    using not_stuck by metis+
  ultimately show ?thesis by (intro conjI impI)
qed

theorem graph_walks_end_witness:
  "\<exists>w'. graph_walk (pipeline_app script_dev le_host) (graph_start graph_script) w'"
  using graph_walks_end[OF script_dev.ethdev_ok_axioms le_host.byteorder_ok_axioms,
      of "graph_start graph_script"] by blast

end
