(* ===== verification/GraphDemos.thy ===== *)
theory GraphDemos
  imports Graph
begin

text \<open>
  The graph programs without a port: \<open>graph/two_start_node\<close>, \<open>graph/two_start_with_worker\<close>,
  \<open>graph/node_sched\<close>, \<open>graph/sample\<close> and \<open>feature_arc/graph_arc\<close>. What their nodes print
  identifies the node, so the model records the visits; the flag that a signal sets is an
  argument of the loop condition.
\<close>

subsection \<open>\<open>graph/two_start_node\<close>: two sources and a budget\<close>

text \<open>
  \<open>rte_pktmbuf_alloc\<close> is the argument \<open>alloc\<close> over a pool state; \<open>allocated\<close> and \<open>returned\<close>
  record the buffers taken from the pool and given back to it.
\<close>

datatype ts_node = Start1 | Start2 | Worker

record 'p ts_state =
  pool :: 'p
  total_prints :: int
  allocated :: "mbuf list"
  returned :: "mbuf list"

definition start1_process ::
    "('p \<Rightarrow> mbuf option \<times> 'p) \<Rightarrow> mbuf list \<Rightarrow> 'p ts_state \<Rightarrow> (nat \<times> mbuf list) list \<times> 'p ts_state" where
  "start1_process alloc objs s =
     (if 10 \<le> total_prints s then ([], s)
      else case alloc (pool s) of
        (None, p) \<Rightarrow> ([], s\<lparr>pool := p\<rparr>)
      | (Some m, p) \<Rightarrow> ([(0, [m])],
          s\<lparr>pool := p, allocated := allocated s @ [m], total_prints := total_prints s + 1\<rparr>))"

definition start2_process ::
    "('p \<Rightarrow> mbuf option \<times> 'p) \<Rightarrow> mbuf list \<Rightarrow> 'p ts_state \<Rightarrow> (nat \<times> mbuf list) list \<times> 'p ts_state" where
  "start2_process alloc objs s =
     (if 10 \<le> total_prints s then ([], s)
      else case alloc (pool s) of
        (None, p) \<Rightarrow> ([], s\<lparr>pool := p\<rparr>)
      | (Some m, p) \<Rightarrow> ([(0, [m])],
          s\<lparr>pool := p, allocated := allocated s @ [m], total_prints := total_prints s + 1\<rparr>))"

definition worker_process :: "mbuf list \<Rightarrow> 'p ts_state \<Rightarrow> (nat \<times> mbuf list) list \<times> 'p ts_state" where
  "worker_process objs s = ([], s\<lparr>returned := returned s @ objs\<rparr>)"

fun ts_next :: "ts_node \<Rightarrow> ts_node list" where
  "ts_next Worker = []"
| "ts_next _ = [Worker]"

definition ts_app :: "('p \<Rightarrow> mbuf option \<times> 'p) \<Rightarrow> (ts_node, mbuf, 'p ts_state) graph_app" where
  "ts_app alloc =
     \<lparr>sources = [Start1, Start2], next_nodes = ts_next,
      process = (\<lambda>n. case n of Start1 \<Rightarrow> start1_process alloc | Start2 \<Rightarrow> start2_process alloc
        | Worker \<Rightarrow> worker_process)\<rparr>"

definition ts_main :: "('p \<Rightarrow> mbuf option \<times> 'p) \<Rightarrow> 'p ts_state \<Rightarrow> 'p ts_state \<Rightarrow> bool" where
  "ts_main alloc = loop (\<lambda>s. total_prints s < 10) (graph_walk (ts_app alloc))"

text \<open>Between visits: what was allocated and not yet returned is on its way to the worker.\<close>

definition ts_inv :: "(ts_node, mbuf) streams \<times> 'p ts_state \<Rightarrow> bool" where
  "ts_inv ps \<longleftrightarrow> (case ps of (pend, s) \<Rightarrow>
     total_prints s \<le> 10 \<and> total_prints s = int (length (allocated s)) \<and>
     objs_at pend Start1 = [] \<and> objs_at pend Start2 = [] \<and>
     allocated s = returned s @ objs_at pend Worker)"

lemma ts_inv_visit:
  assumes "ts_inv (pend, s)" and "pend n = Some objs"
  shows "ts_inv (visit (ts_app alloc) n (pend, s))"
proof (cases n)
  case Worker
  then show ?thesis using assms
    by (auto simp: ts_inv_def visit_def ts_app_def worker_process_def objs_at_def)
next
  case Start1
  then show ?thesis using assms
    by (auto simp: ts_inv_def visit_def ts_app_def start1_process_def case_prod_beta split: option.split)
next
  case Start2
  then show ?thesis using assms
    by (auto simp: ts_inv_def visit_def ts_app_def start2_process_def case_prod_beta split: option.split)
qed

definition ts_ready :: "'p ts_state \<Rightarrow> bool" where
  "ts_ready s \<longleftrightarrow> total_prints s \<le> 10 \<and> total_prints s = int (length (allocated s)) \<and> allocated s = returned s"

lemma ts_walk:
  assumes "graph_walk (ts_app alloc) s s'" and "ts_ready s"
  shows "ts_ready s'"
proof -
  have "ts_inv ((\<lambda>_. None), s')"
  proof (rule graph_walk_invariant[OF assms(1)])
    show "ts_inv (walk_start (ts_app alloc) s)"
      using assms(2) by (auto simp: ts_inv_def ts_ready_def walk_start_def objs_at_def)
    show "ts_inv (pend, t) \<Longrightarrow> pend n = Some objs \<Longrightarrow> ts_inv (visit (ts_app alloc) n (pend, t))" for pend t n objs
      by (rule ts_inv_visit)
  qed
  then show ?thesis by (auto simp: ts_inv_def ts_ready_def objs_at_def)
qed

subsection \<open>\<open>graph/two_start_with_worker\<close>\<close>

datatype tw_node = TStart1 | TWork1 | TStart2 | TWork2

record tw_state =
  work1_log :: "nat list list"
  work2_log :: "nat list list"
  tw_count :: int

text \<open>The objects are numbers cast to pointers; \<open>BURST\<close> is 4.\<close>

definition tw_start1_process :: "nat list \<Rightarrow> tw_state \<Rightarrow> (nat \<times> nat list) list \<times> tw_state" where
  "tw_start1_process objs s = ([(0, map (\<lambda>i. i) [0..<4])], s)"

definition tw_start2_process :: "nat list \<Rightarrow> tw_state \<Rightarrow> (nat \<times> nat list) list \<times> tw_state" where
  "tw_start2_process objs s = ([(0, map (\<lambda>i. 100 + i) [0..<4])], s)"

definition work1_process :: "nat list \<Rightarrow> tw_state \<Rightarrow> (nat \<times> nat list) list \<times> tw_state" where
  "work1_process objs s = ([], s\<lparr>work1_log := work1_log s @ [objs]\<rparr>)"

definition work2_process :: "nat list \<Rightarrow> tw_state \<Rightarrow> (nat \<times> nat list) list \<times> tw_state" where
  "work2_process objs s = ([], s\<lparr>work2_log := work2_log s @ [objs]\<rparr>)"

fun tw_next :: "tw_node \<Rightarrow> tw_node list" where
  "tw_next TStart1 = [TWork1]"
| "tw_next TStart2 = [TWork2]"
| "tw_next _ = []"

definition tw_app :: "(tw_node, nat, tw_state) graph_app" where
  "tw_app =
     \<lparr>sources = [TStart1, TStart2], next_nodes = tw_next,
      process = (\<lambda>n. case n of TStart1 \<Rightarrow> tw_start1_process | TWork1 \<Rightarrow> work1_process
        | TStart2 \<Rightarrow> tw_start2_process | TWork2 \<Rightarrow> work2_process)\<rparr>"

definition tw_main :: "tw_state \<Rightarrow> tw_state \<Rightarrow> bool" where
  "tw_main = loop (\<lambda>s. tw_count s < 10)
     (\<lambda>s s'. \<exists>t. graph_walk tw_app s t \<and> s' = t\<lparr>tw_count := tw_count t + 1\<rparr>)"

text \<open>
  Each source fires once in a walk and its worker once after it: either the worker has not
  been handed the four objects yet, or it has printed them.
\<close>

definition tw_leg ::
    "(tw_node, nat) streams \<Rightarrow> tw_node \<Rightarrow> tw_node \<Rightarrow> nat list list \<Rightarrow> nat list list \<Rightarrow> nat list \<Rightarrow> bool" where
  "tw_leg pend st wk old new os \<longleftrightarrow>
     (pend st = Some [] \<and> pend wk = None \<and> new = old) \<or>
     (pend st = None \<and> pend wk = Some os \<and> new = old) \<or>
     (pend st = None \<and> pend wk = None \<and> new = old @ [os])"

definition tw_inv :: "tw_state \<Rightarrow> (tw_node, nat) streams \<times> tw_state \<Rightarrow> bool" where
  "tw_inv s0 ps \<longleftrightarrow> (case ps of (pend, s) \<Rightarrow> tw_count s = tw_count s0 \<and>
     tw_leg pend TStart1 TWork1 (work1_log s0) (work1_log s) [0, 1, 2, 3] \<and>
     tw_leg pend TStart2 TWork2 (work2_log s0) (work2_log s) [100, 101, 102, 103])"

lemma upt4: "[0..<4] = [0, 1, 2, 3 :: nat]"
  by code_simp

lemma tw_walk:
  assumes "graph_walk tw_app s s'"
  shows "work1_log s' = work1_log s @ [[0, 1, 2, 3]] \<and>
    work2_log s' = work2_log s @ [[100, 101, 102, 103]] \<and> tw_count s' = tw_count s"
proof -
  have "tw_inv s ((\<lambda>_. None), s')"
  proof (rule graph_walk_invariant[OF assms])
    show "tw_inv s (walk_start tw_app s)"
      by (simp add: tw_inv_def tw_leg_def walk_start_def tw_app_def)
    fix pend t n objs
    assume "tw_inv s (pend, t)" and "pend n = Some objs"
    then show "tw_inv s (visit tw_app n (pend, t))"
      by (cases n) (auto simp: tw_inv_def tw_leg_def visit_def tw_app_def tw_start1_process_def
          tw_start2_process_def work1_process_def work2_process_def node_enqueue_def upt4)
  qed
  then show ?thesis by (simp add: tw_inv_def tw_leg_def)
qed

subsection \<open>\<open>graph/node_sched\<close> and \<open>graph/sample\<close>: one source, no choice\<close>

datatype hd_node = Hello | Dummy | Dummy2

record hd_state =
  visited :: "hd_node list"
  hd_count :: int

text \<open>The object enqueued is the pointer that happens to lie in the node's own array.\<close>

definition ns_hello_process :: "unit list \<Rightarrow> hd_state \<Rightarrow> (nat \<times> unit list) list \<times> hd_state" where
  "ns_hello_process objs s =
     (let s = s\<lparr>hd_count := hd_count s + 1, visited := visited s @ [Hello]\<rparr>
      in if hd_count s mod 2 = 0 then ([(0, [()])], s) else ([(1, [()])], s))"

definition ns_dummy_process :: "unit list \<Rightarrow> hd_state \<Rightarrow> (nat \<times> unit list) list \<times> hd_state" where
  "ns_dummy_process objs s = ([], s\<lparr>visited := visited s @ [Dummy]\<rparr>)"

definition ns_dummy_process2 :: "unit list \<Rightarrow> hd_state \<Rightarrow> (nat \<times> unit list) list \<times> hd_state" where
  "ns_dummy_process2 objs s = ([], s\<lparr>visited := visited s @ [Dummy2]\<rparr>)"

definition ns_app :: "(hd_node, unit, hd_state) graph_app" where
  "ns_app =
     \<lparr>sources = [Hello], next_nodes = (\<lambda>n. case n of Hello \<Rightarrow> [Dummy, Dummy2] | _ \<Rightarrow> []),
      process = (\<lambda>n. case n of Hello \<Rightarrow> ns_hello_process | Dummy \<Rightarrow> ns_dummy_process
        | Dummy2 \<Rightarrow> ns_dummy_process2)\<rparr>"

definition ns_main :: "bool \<Rightarrow> hd_state \<Rightarrow> hd_state \<Rightarrow> bool" where
  "ns_main force_quit = loop (\<lambda>s. \<not> force_quit \<and> hd_count s < 10) (graph_walk ns_app)"

text \<open>
  In \<open>graph/sample\<close> the source enqueues nothing, which still sets the next node pending, and
  every node counts. The second dummy is registered with the first one's function; no edge
  in use leads to it.
\<close>

definition hs_hello_process :: "unit list \<Rightarrow> hd_state \<Rightarrow> (nat \<times> unit list) list \<times> hd_state" where
  "hs_hello_process objs s =
     ([(0, [])], s\<lparr>hd_count := hd_count s + 1, visited := visited s @ [Hello]\<rparr>)"

definition hs_dummy_process :: "unit list \<Rightarrow> hd_state \<Rightarrow> (nat \<times> unit list) list \<times> hd_state" where
  "hs_dummy_process objs s = ([], s\<lparr>hd_count := hd_count s + 1, visited := visited s @ [Dummy]\<rparr>)"

definition hs_app :: "(hd_node, unit, hd_state) graph_app" where
  "hs_app =
     \<lparr>sources = [Hello], next_nodes = (\<lambda>n. case n of Hello \<Rightarrow> [Dummy] | _ \<Rightarrow> []),
      process = (\<lambda>n. case n of Hello \<Rightarrow> hs_hello_process | Dummy \<Rightarrow> hs_dummy_process
        | Dummy2 \<Rightarrow> hs_dummy_process)\<rparr>"

definition hs_main :: "bool \<Rightarrow> hd_state \<Rightarrow> hd_state \<Rightarrow> bool" where
  "hs_main force_quit = loop (\<lambda>s. \<not> force_quit \<and> hd_count s < 10) (graph_walk hs_app)"

definition ns_step :: "hd_state \<Rightarrow> hd_state" where
  "ns_step s = s\<lparr>hd_count := hd_count s + 1,
     visited := visited s @ [Hello, if (hd_count s + 1) mod 2 = 0 then Dummy else Dummy2]\<rparr>"

definition hs_step :: "hd_state \<Rightarrow> hd_state" where
  "hs_step s = s\<lparr>hd_count := hd_count s + 2, visited := visited s @ [Hello, Dummy]\<rparr>"

lemma ns_visits:
  "forced ns_app [Hello, if (hd_count s + 1) mod 2 = 0 then Dummy else Dummy2] (walk_start ns_app s) \<and>
   snd (sched_walk ns_app [Hello, if (hd_count s + 1) mod 2 = 0 then Dummy else Dummy2] s) = ns_step s"
proof (cases "(hd_count s + 1) mod 2 = 0")
  case True
  then show ?thesis
    by (simp add: sched_walk_def walk_start_def visit_def ns_app_def ns_hello_process_def Let_def
        node_enqueue_def ns_dummy_process_def ns_step_def fun_eq_iff)
next
  case False
  then show ?thesis
    by (simp add: sched_walk_def walk_start_def visit_def ns_app_def ns_hello_process_def Let_def
        node_enqueue_def ns_dummy_process2_def ns_step_def fun_eq_iff)
qed

lemma ns_walk: "graph_walk ns_app s t \<longleftrightarrow> t = ns_step s"
  using forced_walk[OF conjunct1[OF ns_visits]] conjunct2[OF ns_visits, of s] by simp

lemma hs_visits:
  "forced hs_app [Hello, Dummy] (walk_start hs_app s) \<and> snd (sched_walk hs_app [Hello, Dummy] s) = hs_step s"
  by (simp add: sched_walk_def walk_start_def visit_def hs_app_def hs_hello_process_def
      node_enqueue_def hs_dummy_process_def hs_step_def fun_eq_iff)

lemma hs_walk: "graph_walk hs_app s t \<longleftrightarrow> t = hs_step s"
  using forced_walk[OF conjunct1[OF hs_visits]] conjunct2[OF hs_visits, of s] by simp

subsection \<open>\<open>feature_arc/graph_arc\<close>: the edge depends on the flags\<close>

text \<open>
  \<open>feature[0]\<close> and \<open>feature[1]\<close> are the command-line numbers. With both set, the source
  enqueues to its first edge and launches \<open>helper\<close> on lcore 1, which is to enqueue to the
  second from a structure on the source's stack; \<open>launched\<close> counts those launches, what the
  other lcore then does is not modelled.
\<close>

record ga_state = hd_state +
  stop :: bool
  launched :: nat

definition ga_hello_process ::
    "int \<Rightarrow> int \<Rightarrow> unit list \<Rightarrow> ga_state \<Rightarrow> (nat \<times> unit list) list \<times> ga_state" where
  "ga_hello_process f1 f2 objs s =
     (let s = s\<lparr>hd_count := hd_count s + 1, visited := visited s @ [Hello]\<rparr>
      in if f1 = 1 \<and> f2 = 0 then ([(0, objs)], s)
         else if f2 = 1 \<and> f1 = 0 then ([(1, objs)], s)
         else if f1 = 1 \<and> f2 = 1 then ([(0, objs)], s\<lparr>launched := launched s + 1\<rparr>)
         else ([], s\<lparr>stop := True\<rparr>))"

definition ga_dummy_process :: "unit list \<Rightarrow> ga_state \<Rightarrow> (nat \<times> unit list) list \<times> ga_state" where
  "ga_dummy_process objs s = ([], s\<lparr>hd_count := hd_count s + 1, visited := visited s @ [Dummy]\<rparr>)"

definition ga_dummy_process2 :: "unit list \<Rightarrow> ga_state \<Rightarrow> (nat \<times> unit list) list \<times> ga_state" where
  "ga_dummy_process2 objs s = ([], s\<lparr>hd_count := hd_count s + 1, visited := visited s @ [Dummy2]\<rparr>)"

definition ga_app :: "int \<Rightarrow> int \<Rightarrow> (hd_node, unit, ga_state) graph_app" where
  "ga_app f1 f2 =
     \<lparr>sources = [Hello], next_nodes = (\<lambda>n. case n of Hello \<Rightarrow> [Dummy, Dummy2] | _ \<Rightarrow> []),
      process = (\<lambda>n. case n of Hello \<Rightarrow> ga_hello_process f1 f2 | Dummy \<Rightarrow> ga_dummy_process
        | Dummy2 \<Rightarrow> ga_dummy_process2)\<rparr>"

definition ga_main :: "int \<Rightarrow> int \<Rightarrow> ga_state \<Rightarrow> ga_state \<Rightarrow> bool" where
  "ga_main f1 f2 = loop (\<lambda>s. \<not> stop s \<and> hd_count s < 1) (graph_walk (ga_app f1 f2))"

definition ga_path :: "int \<Rightarrow> int \<Rightarrow> hd_node list" where
  "ga_path f1 f2 = (if f1 = 1 \<and> f2 \<in> {0, 1} then [Hello, Dummy]
     else if f1 = 0 \<and> f2 = 1 then [Hello, Dummy2] else [Hello])"

definition ga_step :: "int \<Rightarrow> int \<Rightarrow> ga_state \<Rightarrow> ga_state" where
  "ga_step f1 f2 s =
     s\<lparr>hd_count := hd_count s + int (length (ga_path f1 f2)), visited := visited s @ ga_path f1 f2,
       stop := (stop s \<or> ga_path f1 f2 = [Hello]),
       launched := launched s + (if f1 = 1 \<and> f2 = 1 then 1 else 0)\<rparr>"

lemma ga_visits:
  "forced (ga_app f1 f2) (ga_path f1 f2) (walk_start (ga_app f1 f2) s) \<and>
   snd (sched_walk (ga_app f1 f2) (ga_path f1 f2) s) = ga_step f1 f2 s"
proof -
  consider "f1 = 1" "f2 = 0" | "f1 = 0" "f2 = 1" | "f1 = 1" "f2 = 1"
    | "\<not> (f1 = 1 \<and> f2 = 0)" "\<not> (f1 = 0 \<and> f2 = 1)" "\<not> (f1 = 1 \<and> f2 = 1)" by blast
  then show ?thesis
    by cases (auto simp: sched_walk_def walk_start_def visit_def ga_app_def ga_hello_process_def
        ga_path_def node_enqueue_def ga_dummy_process_def ga_dummy_process2_def ga_step_def
        Let_def fun_eq_iff conj_commute)
qed

lemma ga_walk: "graph_walk (ga_app f1 f2) s t \<longleftrightarrow> t = ga_step f1 f2 s"
  using forced_walk[OF conjunct1[OF ga_visits]] conjunct2[OF ga_visits, of f1 f2 s] by simp

subsection \<open>Properties\<close>

definition tw_step :: "tw_state \<Rightarrow> tw_state" where
  "tw_step s = s\<lparr>work1_log := work1_log s @ [[0, 1, 2, 3]],
     work2_log := work2_log s @ [[100, 101, 102, 103]]\<rparr>"

lemma tw_walk_eq: "graph_walk tw_app s t \<Longrightarrow> t = tw_step s"
  using tw_walk[of s t] by (simp add: tw_step_def)

lemma tw_walk_iff: "graph_walk tw_app s t \<longleftrightarrow> t = tw_step s"
proof
  have all: "set [TStart1, TWork1, TStart2, TWork2] = UNIV" using tw_node.exhaust by auto
  have walk: "graph_walk tw_app s (snd (sched_walk tw_app [TStart1, TStart2, TWork1, TWork2] s))"
    by (rule sched_walk_walk[OF _ all]) (simp add: sched_walk_def walk_start_def visit_def tw_app_def
        tw_start1_process_def tw_start2_process_def work1_process_def work2_process_def node_enqueue_def)
  then show "t = tw_step s \<Longrightarrow> graph_walk tw_app s t" using tw_walk_eq[OF walk] by simp
qed (rule tw_walk_eq)

interpretation ts: acyclic_graph "ts_app alloc" "[Start1, Start2, Worker]"
proof unfold_locales
  fix n objs s outs s' e os
  assume "process (ts_app alloc) n objs s = (outs, s')" "(e, os) \<in> set outs"
  then show "e < length (next_nodes (ts_app alloc) n)"
    by (cases n) (auto simp: ts_app_def start1_process_def start2_process_def worker_process_def
        split: if_splits prod.splits option.splits)
next
  show "topo (ts_app alloc) [Start1, Start2, Worker]" by (simp add: ts_app_def)
  show "set [Start1, Start2, Worker] = UNIV" using ts_node.exhaust by auto
qed

lemma ts_walk_progress:
  fixes s :: "'p ts_state"
  assumes "graph_walk (ts_app alloc) s s'" and "\<forall>p. fst (alloc p) \<noteq> None" and "total_prints s < 10"
  shows "total_prints s < total_prints s'"
proof -
  let ?I = "\<lambda>(pend :: (ts_node, mbuf) streams, t :: 'p ts_state). total_prints s \<le> total_prints t \<and>
    (pend Start1 = None \<longrightarrow> total_prints s < total_prints t)"
  have "?I ((\<lambda>_. None), s')"
  proof (rule graph_walk_invariant[OF assms(1)])
    show "?I (walk_start (ts_app alloc) s)" by (simp add: walk_start_def ts_app_def)
    fix pend n objs and t :: "'p ts_state"
    assume "?I (pend, t)" and "pend n = Some objs"
    moreover obtain m p where "alloc (pool t) = (Some m, p)"
      using assms(2) by (cases "alloc (pool t)") (metis fst_conv option.exhaust)
    ultimately show "?I (visit (ts_app alloc) n (pend, t))"
      using assms(3) by (cases n) (auto simp: visit_def ts_app_def start1_process_def
          start2_process_def worker_process_def node_enqueue_def split: prod.splits option.splits)
  qed
  then show ?thesis by simp
qed

lemma ts_main_ends:
  assumes "\<forall>p. fst (alloc p) \<noteq> None"
  shows "\<exists>u. ts_main alloc s u"
proof (induction "nat (10 - total_prints s)" arbitrary: s rule: less_induct)
  case less
  show ?case
  proof (cases "total_prints s < 10")
    case True
    obtain t where t: "graph_walk (ts_app alloc) s t" using ts.walk_exists by blast
    from ts_walk_progress[OF t assms True] have "nat (10 - total_prints t) < nat (10 - total_prints s)"
      using True by simp
    then obtain u where "ts_main alloc t u" using less by blast
    then show ?thesis using True t unfolding ts_main_def by (blast intro: loop_again)
  next
    case False
    then show ?thesis unfolding ts_main_def by (blast intro: loop_done)
  qed
qed

text \<open>
  The program with two start nodes, for any pool and in whatever order the library visits
  the nodes: when it stops, exactly ten packets have been produced, never more although two
  sources share the budget, and the worker has freed each of them, in order of allocation;
  and it does stop when allocations succeed.
\<close>

theorem two_start_budget:
  assumes "total_prints s = 0" and "allocated s = []" and "returned s = []"
  shows "(ts_main alloc s u \<longrightarrow>
      total_prints u = 10 \<and> length (allocated u) = 10 \<and> returned u = allocated u) \<and>
    ((\<forall>p. fst (alloc p) \<noteq> None) \<longrightarrow> (\<exists>u. ts_main alloc s u))"
proof (intro conjI impI)
  assume "ts_main alloc s u"
  moreover have "ts_ready s" using assms by (simp add: ts_ready_def)
  ultimately have "ts_ready u \<and> \<not> total_prints u < 10"
    unfolding ts_main_def by (rule loop_invariant) (rule ts_walk)
  then show "total_prints u = 10" "length (allocated u) = 10" "returned u = allocated u"
    by (auto simp: ts_ready_def)
qed (rule ts_main_ends)

definition count_alloc :: "nat \<Rightarrow> mbuf option \<times> nat" where
  "count_alloc n = (Some n, n + 1)"

theorem two_start_budget_witness:
  "\<exists>u. ts_main count_alloc \<lparr>pool = 0, total_prints = 0, allocated = [], returned = []\<rparr> u \<and>
    length (returned u) = 10"
proof -
  let ?s = "\<lparr>pool = 0, total_prints = 0, allocated = [], returned = []\<rparr> :: nat ts_state"
  have s: "total_prints ?s = 0" "allocated ?s = []" "returned ?s = []" by simp_all
  have "\<forall>p. fst (count_alloc p) \<noteq> None" by (simp add: count_alloc_def)
  then obtain u where "ts_main count_alloc ?s u"
    using two_start_budget[OF s, of count_alloc] by blast
  then show ?thesis using two_start_budget[OF s, of count_alloc u] by force
qed

text \<open>
  The graph demonstrations, each with exactly one outcome: \<open>node_sched\<close> alternates
  between its two children, five times each; \<open>sample\<close> visits only its first child, five
  times, and counts every visit; \<open>two_start_with_worker\<close> hands each worker its four objects
  in each of its ten walks, whatever the order of the sources; and \<open>graph_arc\<close> visits the
  child its flags select, with both flags the first one, with no valid combination none.
\<close>

theorem graph_demos:
  "(ns_main False \<lparr>visited = [], hd_count = 0\<rparr> u \<longleftrightarrow>
      u = \<lparr>visited = concat (replicate 5 [Hello, Dummy2, Hello, Dummy]), hd_count = 10\<rparr>) \<and>
   (hs_main False \<lparr>visited = [], hd_count = 0\<rparr> v \<longleftrightarrow>
      v = \<lparr>visited = concat (replicate 5 [Hello, Dummy]), hd_count = 10\<rparr>) \<and>
   (tw_main \<lparr>work1_log = [], work2_log = [], tw_count = 0\<rparr> x \<longleftrightarrow>
      x = \<lparr>work1_log = replicate 10 [0, 1, 2, 3], work2_log = replicate 10 [100, 101, 102, 103],
           tw_count = 10\<rparr>) \<and>
   (ga_main f1 f2 \<lparr>visited = [], hd_count = 0, stop = False, launched = 0\<rparr> y \<longleftrightarrow>
      y = \<lparr>visited = ga_path f1 f2, hd_count = int (length (ga_path f1 f2)),
           stop = (ga_path f1 f2 = [Hello]), launched = (if f1 = 1 \<and> f2 = 1 then 1 else 0)\<rparr>)"
proof (intro conjI)
  show "ns_main False \<lparr>visited = [], hd_count = 0\<rparr> u \<longleftrightarrow>
      u = \<lparr>visited = concat (replicate 5 [Hello, Dummy2, Hello, Dummy]), hd_count = 10\<rparr>"
    unfolding ns_main_def by (simp add: loop_unfold[of _ _ ns_step, OF ns_walk] ns_step_def numeral_eq_Suc)
  show "hs_main False \<lparr>visited = [], hd_count = 0\<rparr> v \<longleftrightarrow>
      v = \<lparr>visited = concat (replicate 5 [Hello, Dummy]), hd_count = 10\<rparr>"
    unfolding hs_main_def by (simp add: loop_unfold[of _ _ hs_step, OF hs_walk] hs_step_def numeral_eq_Suc)
  have tw: "(\<exists>t. graph_walk tw_app s t \<and> s' = t\<lparr>tw_count := tw_count t + 1\<rparr>) \<longleftrightarrow>
      s' = (tw_step s)\<lparr>tw_count := tw_count s + 1\<rparr>" for s s'
    unfolding tw_walk_iff by (auto simp: tw_step_def)
  show "tw_main \<lparr>work1_log = [], work2_log = [], tw_count = 0\<rparr> x \<longleftrightarrow>
      x = \<lparr>work1_log = replicate 10 [0, 1, 2, 3], work2_log = replicate 10 [100, 101, 102, 103],
           tw_count = 10\<rparr>"
    unfolding tw_main_def
    by (simp add: loop_unfold[of _ _ "\<lambda>s. (tw_step s)\<lparr>tw_count := tw_count s + 1\<rparr>", OF tw]
        tw_step_def numeral_eq_Suc)
  have len: "1 \<le> length (ga_path f1 f2)" by (simp add: ga_path_def)
  let ?c = "\<lambda>s. \<not> stop s \<and> hd_count s < 1" and ?R = "graph_walk (ga_app f1 f2)"
  let ?s = "\<lparr>visited = [], hd_count = 0, stop = False, launched = 0\<rparr>"
  have "loop ?c ?R (ga_step f1 f2 ?s) y \<longleftrightarrow> y = ga_step f1 f2 ?s"
    by (subst loop_unfold[of _ _ "ga_step f1 f2", OF ga_walk]) (use len in \<open>auto simp: ga_step_def\<close>)
  then have "ga_main f1 f2 ?s y \<longleftrightarrow> y = ga_step f1 f2 ?s"
    unfolding ga_main_def by (subst loop_unfold[of _ _ "ga_step f1 f2", OF ga_walk]) simp
  then show "ga_main f1 f2 \<lparr>visited = [], hd_count = 0, stop = False, launched = 0\<rparr> y \<longleftrightarrow>
      y = \<lparr>visited = ga_path f1 f2, hd_count = int (length (ga_path f1 f2)),
           stop = (ga_path f1 f2 = [Hello]), launched = (if f1 = 1 \<and> f2 = 1 then 1 else 0)\<rparr>"
    by (simp add: ga_step_def)
qed

end
