(* ===== verification/Processes.thy ===== *)
theory Processes
  imports Ring
begin

text \<open>
  Processes that share memory: schedules that let one process after the other take a step,
  what a fair schedule achieves, and the shared heap. \<open>rte_malloc\<close> and \<open>rte_free\<close> are not
  under src/: they are the fields of the argument \<open>ho\<close> over a heap state the model does not
  look into, with their contract in the locale \<open>heap_ok\<close>.
\<close>

subsection \<open>Schedules\<close>

primrec sched_run :: "('p \<Rightarrow> 's \<Rightarrow> 's) \<Rightarrow> (nat \<Rightarrow> 'p) \<Rightarrow> 's \<Rightarrow> nat \<Rightarrow> 's" where
  "sched_run step f s 0 = s"
| "sched_run step f s (Suc n) = step (f n) (sched_run step f s n)"

definition fair :: "(nat \<Rightarrow> 'p) \<Rightarrow> bool" where
  "fair f \<longleftrightarrow> (\<forall>p n. \<exists>m\<ge>n. f m = p)"

lemma fair_shift: "fair f \<Longrightarrow> fair (\<lambda>i. f (j + i))"
  unfolding fair_def
proof (intro allI)
  fix p n
  assume "\<forall>p n. \<exists>m\<ge>n. f m = p"
  then obtain m where "j + n \<le> m" "f m = p" by blast
  then show "\<exists>m\<ge>n. f (j + m) = p" by (intro exI[of _ "m - j"]) auto
qed

lemma sched_run_add:
  "sched_run step f s (m + n) = sched_run step (\<lambda>i. f (m + i)) (sched_run step f s m) n"
  by (induction n) simp_all

lemma sched_run_list:
  "sched_run step (\<lambda>i. if i < length ps then ps ! i else g i) s (length ps) = fold step ps s"
proof (induction ps rule: rev_induct)
  case (snoc p ps)
  have "sched_run step (\<lambda>i. if i < length (ps @ [p]) then (ps @ [p]) ! i else g i) s n =
      sched_run step (\<lambda>i. if i < length ps then ps ! i else g i) s n" if "n \<le> length ps" for n
    using that by (induction n) (simp_all add: nth_append)
  with snoc.IH show ?case by simp
qed simp

lemma sched_run_keeps:
  assumes "\<And>p s. I s \<Longrightarrow> I (step p s)" and "I s"
  shows "I (sched_run step f s n)"
  using assms by (induction n) simp_all

text \<open>
  What makes a run that can reach \<open>final\<close>: in every other state some process, the \<open>mover\<close>,
  has a step that decreases a measure.
\<close>

locale can_progress =
  fixes step :: "'p \<Rightarrow> 's \<Rightarrow> 's" and inv :: "'s \<Rightarrow> bool" and final :: "'s \<Rightarrow> bool"
    and mu :: "'s \<Rightarrow> nat" and mover :: "'s \<Rightarrow> 'p"
  assumes keeps: "inv s \<Longrightarrow> inv (step p s)"
    and moves: "inv s \<Longrightarrow> \<not> final s \<Longrightarrow> mu (step (mover s) s) < mu s"
begin

lemma can_reach_final:
  assumes "inv s"
  shows "\<exists>ps. final (fold step ps s) \<and> inv (fold step ps s)"
  using assms
proof (induction "mu s" arbitrary: s rule: less_induct)
  case less
  show ?case
  proof (cases "final s")
    case True
    then show ?thesis using less.prems by (intro exI[of _ "[]"]) simp
  next
    case False
    then obtain ps where "final (fold step ps (step (mover s) s)) \<and> inv (fold step ps (step (mover s) s))"
      using less.hyps[OF moves[OF less.prems False]] keeps[OF less.prems] by blast
    then show ?thesis by (intro exI[of _ "mover s # ps"]) simp
  qed
qed

end

text \<open>
  What makes every fair schedule reach it: no step of another process increases the measure
  or makes the mover wait.
\<close>

locale fair_progress = can_progress +
  assumes waits: "inv s \<Longrightarrow> \<not> final s \<Longrightarrow> p \<noteq> mover s \<Longrightarrow>
      mu (step p s) < mu s \<or> mu (step p s) = mu s \<and> mover (step p s) = mover s"
begin

lemma stalls:
  assumes "inv s" and "\<forall>i<d. f i \<noteq> mover s"
  shows "(\<exists>j\<le>d. final (sched_run step f s j)) \<or> (\<exists>j\<le>d. mu (sched_run step f s j) < mu s) \<or>
    mu (sched_run step f s d) = mu s \<and> mover (sched_run step f s d) = mover s"
  using assms(2)
proof (induction d)
  case (Suc d)
  let ?t = "sched_run step f s d"
  have inv: "inv ?t" using keeps assms(1) by (rule sched_run_keeps)
  from Suc consider "\<exists>j\<le>d. final (sched_run step f s j)" | "\<exists>j\<le>d. mu (sched_run step f s j) < mu s"
    | "mu ?t = mu s" "mover ?t = mover s" by auto
  then show ?case
  proof cases
    case 3
    then show ?thesis
      using waits[OF inv, of "f d"] Suc.prems by (cases "final ?t") (auto intro: le_SucI)
  qed (auto intro: le_SucI)
qed simp

lemma reaches_final:
  assumes "fair f" and "inv s"
  shows "\<exists>n. final (sched_run step f s n)"
  using assms
proof (induction "mu s" arbitrary: s f rule: less_induct)
  case less
  let ?d = "LEAST d. f d = mover s"
  obtain d where "f d = mover s" using less.prems(1) unfolding fair_def by blast
  then have fd: "f ?d = mover s" by (rule LeastI)
  have before: "\<forall>i<?d. f i \<noteq> mover s" using not_less_Least by blast
  have lower: "\<exists>n. final (sched_run step f s n)" if less_mu: "mu (sched_run step f s j) < mu s" for j
  proof -
    have "fair (\<lambda>i. f (j + i))"
      using less.prems(1) by (rule fair_shift)
    moreover have "inv (sched_run step f s j)" using keeps less.prems(2) by (rule sched_run_keeps)
    ultimately obtain n where "final (sched_run step (\<lambda>i. f (j + i)) (sched_run step f s j) n)"
      using less.hyps[OF less_mu] by blast
    then show ?thesis by (metis sched_run_add)
  qed
  have inv: "inv (sched_run step f s ?d)" using keeps less.prems(2) by (rule sched_run_keeps)
  from stalls[OF less.prems(2) before] show ?case
  proof (elim disjE conjE)
    assume "mu (sched_run step f s ?d) = mu s" and "mover (sched_run step f s ?d) = mover s"
    then have "final (sched_run step f s ?d) \<or> mu (sched_run step f s (Suc ?d)) < mu s"
      using moves[OF inv] fd by auto
    then show ?thesis using lower by blast
  qed (use lower in blast)+
qed

end

subsection \<open>The shared heap\<close>

record 'h heap_ops =
  malloc :: "'h \<Rightarrow> nat option \<times> 'h"      \<comment> \<open>\<open>None\<close> is \<open>NULL\<close>\<close>
  release :: "nat \<Rightarrow> 'h \<Rightarrow> 'h"

locale heap_ok =
  fixes ho :: "'h heap_ops" and used :: "'h \<Rightarrow> nat set"
  assumes malloc: "malloc ho h = (y, h') \<Longrightarrow>
      (case y of None \<Rightarrow> used h' = used h | Some a \<Rightarrow> a \<notin> used h \<and> used h' = insert a (used h))"
    and release: "used (release ho a h) = used h - {a}"
begin

lemma malloc_some: "malloc ho h = (Some a, h') \<Longrightarrow> a \<notin> used h \<and> used h' = insert a (used h)"
  using malloc by fastforce

lemma malloc_none: "malloc ho h = (None, h') \<Longrightarrow> used h' = used h"
  using malloc by fastforce

end

text \<open>An unbounded heap that hands out a block above all in use.\<close>

definition list_heap :: "nat list heap_ops" where
  "list_heap =
     \<lparr>malloc = (\<lambda>U. let a = Suc (sum_list U) in (Some a, a # U)), release = (\<lambda>a U. removeAll a U)\<rparr>"

lemma above_sum_list: "Suc (sum_list U) \<notin> set (U :: nat list)"
  using member_le_sum_list[of "Suc (sum_list U)" U] by auto

interpretation list_heap: heap_ok list_heap set
  by unfold_locales (auto simp: list_heap_def Let_def above_sum_list)

lemma list_heap_never_full: "fst (malloc list_heap h) \<noteq> None"
  by (simp add: list_heap_def Let_def)

end
