(* ===== verification/RingIpc.thy ===== *)
theory RingIpc
  imports Processes
begin

text \<open>
  The programs of \<open>inter_process_comm\<close> that talk over rings: a primary and a secondary
  process, each a step function with a program counter on the state they share. A step is
  one ring operation, one heap operation with the accesses to the block only this process
  holds, or the test of a loop. \<open>rte_malloc\<close> is not checked by the code: a \<open>NULL\<close> is
  dereferenced, which is the \<open>Fault\<close> counter. A C \<open>int\<close> is an \<open>int\<close>, as all values stay
  between \<open>-1\<close> and 90.
\<close>

datatype party = Primary | Secondary

instantiation party :: linorder
begin

fun less_eq_party :: "party \<Rightarrow> party \<Rightarrow> bool" where
  "less_eq_party Secondary Primary = False"
| "less_eq_party _ _ = True"

definition less_party :: "party \<Rightarrow> party \<Rightarrow> bool" where
  "less_party p q \<longleftrightarrow> p = Primary \<and> q = Secondary"

instance
proof
  fix p q r :: party
  show "(p < q) = (p \<le> q \<and> \<not> q \<le> p)" by (cases p; cases q) (simp_all add: less_party_def)
  show "p \<le> p" by (cases p) simp_all
  show "p \<le> q \<Longrightarrow> q \<le> r \<Longrightarrow> p \<le> r" by (cases p; cases q; cases r) simp_all
  show "p \<le> q \<Longrightarrow> q \<le> p \<Longrightarrow> p = q" by (cases p; cases q) simp_all
  show "p \<le> q \<or> q \<le> p" by (cases p; cases q) simp_all
qed

end

lemma parties_alternate: "fair (\<lambda>n. if even n then Primary else Secondary)"
  unfolding fair_def
proof (intro allI)
  fix p and n :: nat
  show "\<exists>m\<ge>n. (if even m then Primary else Secondary) = p"
    by (cases p) (intro exI[of _ "2 * n"] exI[of _ "Suc (2 * n)"], simp)+
qed

text \<open>The ring and the heap the two processes share.\<close>

locale ring_heap = ring_ok ro contents cap + heap_ok ho used
  for ro :: "(nat, 'r) ring_ops" and contents cap and ho :: "'h heap_ops" and used
begin

lemma dequeue_some: "dequeue ro r = (Some x, r') \<longleftrightarrow> snd (dequeue ro r) = r' \<and> contents r = x # contents r'"
  using deq[of r] by (cases "dequeue ro r") (auto split: option.splits)

end

interpretation fifo_list: ring_heap fifo_ring snd fst list_heap set
  by unfold_locales

text \<open>
  The shared memory: the heap, the contents of its blocks, the ring, and what each process
  has printed as received.
\<close>

record ('h, 'r, 'm) ipc =
  heap :: 'h
  shm :: "nat \<Rightarrow> 'm"
  ring1 :: 'r
  primary_got :: "int list"
  secondary_got :: "int list"

subsection \<open>\<open>ring_full_duplex\<close>: a request and a reply ring\<close>

datatype dp_pc = DpLoop nat | DpEnq nat nat | DpDeq nat | DpGot nat nat | DpStop nat | DpDone | DpFault

datatype ds_pc = DsDeq | DsGot nat | DsReply int | DsEnq nat | DsDone | DsFault

record ('h, 'r) duplex = "('h, 'r, int) ipc" +
  ring2 :: 'r
  primary_at :: dp_pc
  secondary_at :: ds_pc

definition duplex_primary :: "(nat, 'r) ring_ops \<Rightarrow> 'h heap_ops \<Rightarrow> ('h, 'r) duplex \<Rightarrow> ('h, 'r) duplex" where
  "duplex_primary ro ho s =
     (case primary_at s of
        DpLoop i \<Rightarrow> (case malloc ho (heap s) of
          (None, h) \<Rightarrow> s\<lparr>heap := h, primary_at := DpFault\<rparr>
        | (Some msg, h) \<Rightarrow>
            if i < 10 then s\<lparr>heap := h, shm := (shm s)(msg := int i), primary_at := DpEnq i msg\<rparr>
            else s\<lparr>heap := h, shm := (shm s)(msg := - 1), primary_at := DpStop msg\<rparr>)
      | DpEnq i msg \<Rightarrow> (case enqueue ro msg (ring1 s) of (ok, r) \<Rightarrow>
          s\<lparr>ring1 := r, primary_at := if ok then DpDeq i else DpEnq i msg\<rparr>)
      | DpDeq i \<Rightarrow> (case dequeue ro (ring2 s) of
          (None, r) \<Rightarrow> s\<lparr>ring2 := r\<rparr>
        | (Some reply, r) \<Rightarrow> s\<lparr>ring2 := r, primary_at := DpGot i reply\<rparr>)
      | DpGot i val \<Rightarrow> s\<lparr>primary_got := primary_got s @ [shm s val],
          heap := release ho val (heap s), primary_at := DpLoop (Suc i)\<rparr>
      | DpStop stop \<Rightarrow> s\<lparr>ring1 := snd (enqueue ro stop (ring1 s)), primary_at := DpDone\<rparr>
      | _ \<Rightarrow> s)"

definition duplex_secondary :: "(nat, 'r) ring_ops \<Rightarrow> 'h heap_ops \<Rightarrow> ('h, 'r) duplex \<Rightarrow> ('h, 'r) duplex" where
  "duplex_secondary ro ho s =
     (case secondary_at s of
        DsDeq \<Rightarrow> (case dequeue ro (ring1 s) of
          (None, r) \<Rightarrow> s\<lparr>ring1 := r\<rparr>
        | (Some msg, r) \<Rightarrow> s\<lparr>ring1 := r, secondary_at := DsGot msg\<rparr>)
      | DsGot val \<Rightarrow>
          if shm s val = - 1 then s\<lparr>heap := release ho val (heap s), secondary_at := DsDone\<rparr>
          else s\<lparr>secondary_got := secondary_got s @ [shm s val], heap := release ho val (heap s),
                 secondary_at := DsReply (shm s val * 10)\<rparr>
      | DsReply result \<Rightarrow> (case malloc ho (heap s) of
          (None, h) \<Rightarrow> s\<lparr>heap := h, secondary_at := DsFault\<rparr>
        | (Some reply, h) \<Rightarrow> s\<lparr>heap := h, shm := (shm s)(reply := result), secondary_at := DsEnq reply\<rparr>)
      | DsEnq reply \<Rightarrow> (case enqueue ro reply (ring2 s) of (ok, r) \<Rightarrow>
          s\<lparr>ring2 := r, secondary_at := if ok then DsDeq else DsEnq reply\<rparr>)
      | _ \<Rightarrow> s)"

fun duplex_step :: "(nat, 'r) ring_ops \<Rightarrow> 'h heap_ops \<Rightarrow> party \<Rightarrow> ('h, 'r) duplex \<Rightarrow> ('h, 'r) duplex" where
  "duplex_step ro ho Primary = duplex_primary ro ho"
| "duplex_step ro ho Secondary = duplex_secondary ro ho"

definition duplex_start :: "'h \<Rightarrow> 'r \<Rightarrow> 'r \<Rightarrow> ('h, 'r) duplex" where
  "duplex_start h r1 r2 =
     \<lparr>heap = h, shm = (\<lambda>_. 0), ring1 = r1, primary_got = [], secondary_got = [], ring2 = r2,
      primary_at = DpLoop 0, secondary_at = DsDeq\<rparr>"

text \<open>
  The invariant: one message at a time, in one place. \<open>U\<close> are the blocks in use at the
  start; \<open>duplex_at\<close> says how many replies and requests have been read, what the rings hold
  and which blocks are in use.
\<close>

definition duplex_at where
  "duplex_at contents used s p d q1 q2 U \<longleftrightarrow>
     primary_got s = map (\<lambda>k. 10 * int k) [0..<p] \<and> secondary_got s = map int [0..<d] \<and>
     contents (ring1 s) = q1 \<and> contents (ring2 s) = q2 \<and> used (heap s) = U"

definition duplex_inv ::
    "('r \<Rightarrow> nat list) \<Rightarrow> ('r \<Rightarrow> nat) \<Rightarrow> ('h \<Rightarrow> nat set) \<Rightarrow> nat set \<Rightarrow> ('h, 'r) duplex \<Rightarrow> bool" where
  "duplex_inv contents cap used U s \<longleftrightarrow> 1 \<le> cap (ring1 s) \<and> 1 \<le> cap (ring2 s) \<and>
     (let at = duplex_at contents used s
      in case primary_at s of
        DpLoop i \<Rightarrow> i \<le> 10 \<and> secondary_at s = DsDeq \<and> at i i [] [] U
      | DpEnq i a \<Rightarrow> i < 10 \<and> secondary_at s = DsDeq \<and> a \<notin> U \<and> shm s a = int i \<and> at i i [] [] (insert a U)
      | DpDeq i \<Rightarrow> i < 10 \<and> (case secondary_at s of
          DsDeq \<Rightarrow> (\<exists>a. a \<notin> U \<and> (shm s a = int i \<and> at i i [a] [] (insert a U) \<or>
            shm s a = 10 * int i \<and> at i (Suc i) [] [a] (insert a U)))
        | DsGot a \<Rightarrow> a \<notin> U \<and> shm s a = int i \<and> at i i [] [] (insert a U)
        | DsReply v \<Rightarrow> v = 10 * int i \<and> at i (Suc i) [] [] U
        | DsEnq a \<Rightarrow> a \<notin> U \<and> shm s a = 10 * int i \<and> at i (Suc i) [] [] (insert a U)
        | DsDone \<Rightarrow> False
        | DsFault \<Rightarrow> at i (Suc i) [] [] U)
      | DpGot i a \<Rightarrow> i < 10 \<and> secondary_at s = DsDeq \<and> a \<notin> U \<and> shm s a = 10 * int i \<and>
          at i (Suc i) [] [] (insert a U)
      | DpStop a \<Rightarrow> secondary_at s = DsDeq \<and> a \<notin> U \<and> shm s a = - 1 \<and> at 10 10 [] [] (insert a U)
      | DpDone \<Rightarrow> (case secondary_at s of
          DsDeq \<Rightarrow> (\<exists>a. a \<notin> U \<and> shm s a = - 1 \<and> at 10 10 [a] [] (insert a U))
        | DsGot a \<Rightarrow> a \<notin> U \<and> shm s a = - 1 \<and> at 10 10 [] [] (insert a U)
        | DsDone \<Rightarrow> at 10 10 [] [] U
        | _ \<Rightarrow> False)
      | DpFault \<Rightarrow> secondary_at s = DsDeq \<and> (\<exists>i\<le>10. at i i [] [] U))"

lemmas duplex_defs = duplex_inv_def duplex_at_def Let_def

text \<open>Which process moves next, and how far the exchange has to go.\<close>

definition duplex_mover :: "('r \<Rightarrow> nat list) \<Rightarrow> ('h, 'r) duplex \<Rightarrow> party" where
  "duplex_mover contents s =
     (case primary_at s of
        DpDeq i \<Rightarrow> if contents (ring2 s) = [] then Secondary else Primary
      | DpDone \<Rightarrow> Secondary
      | _ \<Rightarrow> Primary)"

definition duplex_mu :: "('r \<Rightarrow> nat list) \<Rightarrow> ('h, 'r) duplex \<Rightarrow> nat" where
  "duplex_mu contents s =
     (case primary_at s of
        DpLoop i \<Rightarrow> 8 * (10 - i) + 4
      | DpEnq i a \<Rightarrow> 8 * (10 - i) + 3
      | DpDeq i \<Rightarrow> 8 * (10 - i) - 4 + (case secondary_at s of
          DsDeq \<Rightarrow> if contents (ring2 s) = [] then 6 else 2
        | DsGot a \<Rightarrow> 5 | DsReply v \<Rightarrow> 4 | DsEnq a \<Rightarrow> 3 | _ \<Rightarrow> 0)
      | DpGot i a \<Rightarrow> 8 * (10 - i) - 3
      | DpStop a \<Rightarrow> 3
      | DpDone \<Rightarrow> (case secondary_at s of DsDeq \<Rightarrow> 2 | DsGot a \<Rightarrow> 1 | _ \<Rightarrow> 0)
      | DpFault \<Rightarrow> 0)"

definition duplex_final :: "('h, 'r) duplex \<Rightarrow> bool" where
  "duplex_final s \<longleftrightarrow> primary_at s = DpFault \<or> secondary_at s = DsFault \<or>
     primary_at s = DpDone \<and> secondary_at s = DsDone"

context ring_heap
begin

lemma duplex_primary_keeps:
  assumes "duplex_inv contents cap used U s"
  shows "duplex_inv contents cap used U (duplex_primary ro ho s)"
proof (cases "primary_at s")
  case (DpLoop i)
  then show ?thesis
    using assms malloc[of "heap s"]
    by (auto simp: duplex_primary_def duplex_defs split: prod.splits option.splits)
next
  case (DpEnq i a)
  then show ?thesis
    using assms enqueue_result[of a "ring1 s"] cap_frame(1)[of a "ring1 s"]
    by (cases "enqueue ro a (ring1 s)") (auto simp: duplex_primary_def duplex_defs)
next
  case (DpDeq i)
  then show ?thesis
    using assms deq[of "ring2 s"]
    by (auto simp: duplex_primary_def duplex_defs split: prod.splits option.splits ds_pc.splits)
next
  case (DpGot i a)
  then show ?thesis
    using assms by (auto simp: duplex_primary_def duplex_defs release)
next
  case (DpStop a)
  then show ?thesis
    using assms by (auto simp: duplex_primary_def duplex_defs enqueue_result)
qed (use assms in \<open>simp_all add: duplex_primary_def\<close>)

lemma duplex_secondary_keeps:
  assumes "duplex_inv contents cap used U s"
  shows "duplex_inv contents cap used U (duplex_secondary ro ho s)"
proof (cases "secondary_at s")
  case DsDeq
  then show ?thesis
    using assms deq[of "ring1 s"]
    by (auto simp: duplex_secondary_def duplex_defs split: prod.splits option.splits dp_pc.splits)
next
  case (DsGot a)
  then show ?thesis
    using assms by (auto simp: duplex_secondary_def duplex_defs release split: dp_pc.splits)
next
  case (DsReply v)
  then show ?thesis
    using assms malloc[of "heap s"]
    by (auto simp: duplex_secondary_def duplex_defs split: prod.splits option.splits dp_pc.splits)
next
  case (DsEnq a)
  then show ?thesis
    using assms enqueue_result[of a "ring2 s"] cap_frame(1)[of a "ring2 s"]
    by (cases "enqueue ro a (ring2 s)") (auto simp: duplex_secondary_def duplex_defs split: dp_pc.splits)
qed (use assms in \<open>simp_all add: duplex_secondary_def\<close>)

lemma duplex_primary_moves:
  assumes "duplex_inv contents cap used U s" and "\<not> duplex_final s" and "duplex_mover contents s = Primary"
  shows "duplex_mu contents (duplex_primary ro ho s) < duplex_mu contents s"
proof (cases "primary_at s")
  case (DpLoop i)
  then show ?thesis
    using assms by (auto simp: duplex_mu_def duplex_primary_def duplex_defs split: prod.splits option.splits)
next
  case (DpEnq i a)
  then show ?thesis
    using assms enqueue_result[of a "ring1 s"]
    by (cases "enqueue ro a (ring1 s)") (auto simp: duplex_mu_def duplex_primary_def duplex_defs)
next
  case (DpDeq i)
  then show ?thesis
    using assms deq[of "ring2 s"]
    by (auto simp: duplex_mu_def duplex_mover_def duplex_primary_def duplex_defs
        split: prod.splits option.splits ds_pc.splits if_splits)
next
  case DpDone
  then show ?thesis using assms by (simp add: duplex_mover_def)
next
  case DpFault
  then show ?thesis using assms by (simp add: duplex_final_def)
qed (use assms in \<open>auto simp: duplex_mu_def duplex_primary_def duplex_defs\<close>)

lemma duplex_secondary_moves:
  assumes "duplex_inv contents cap used U s" and "\<not> duplex_final s" and "duplex_mover contents s = Secondary"
  shows "duplex_mu contents (duplex_secondary ro ho s) < duplex_mu contents s"
proof (cases "secondary_at s")
  case DsDeq
  then show ?thesis
    using assms deq[of "ring1 s"]
    by (auto simp: duplex_mu_def duplex_mover_def duplex_secondary_def duplex_defs
        split: prod.splits option.splits dp_pc.splits if_splits)
next
  case (DsGot a)
  then show ?thesis
    using assms by (auto simp: duplex_mu_def duplex_secondary_def duplex_defs split: dp_pc.splits)
next
  case (DsReply v)
  then show ?thesis
    using assms
    by (auto simp: duplex_mu_def duplex_secondary_def duplex_defs split: prod.splits option.splits dp_pc.splits)
next
  case (DsEnq a)
  then show ?thesis
    using assms enqueue_result[of a "ring2 s"]
    by (cases "enqueue ro a (ring2 s)") (auto simp: duplex_mu_def duplex_secondary_def duplex_defs split: dp_pc.splits)
next
  case DsDone
  then show ?thesis
    using assms by (auto simp: duplex_final_def duplex_mover_def duplex_defs split: dp_pc.splits)
next
  case DsFault
  then show ?thesis using assms by (simp add: duplex_final_def)
qed

text \<open>The other process waits: its ring is empty, or it has ended.\<close>

lemma duplex_primary_waits:
  assumes "duplex_inv contents cap used U s" and "duplex_mover contents s = Secondary"
  shows "duplex_mu contents (duplex_primary ro ho s) = duplex_mu contents s \<and> duplex_mover contents (duplex_primary ro ho s) = duplex_mover contents s"
  using assms deq[of "ring2 s"]
  by (auto simp: duplex_mu_def duplex_mover_def duplex_primary_def
      split: prod.splits option.splits dp_pc.splits ds_pc.splits if_splits)

lemma duplex_secondary_waits:
  assumes "duplex_inv contents cap used U s" and "\<not> duplex_final s" and "duplex_mover contents s = Primary"
  shows "duplex_mu contents (duplex_secondary ro ho s) = duplex_mu contents s \<and> duplex_mover contents (duplex_secondary ro ho s) = duplex_mover contents s"
proof -
  have "secondary_at s = DsDeq"
    using assms by (auto simp: duplex_mover_def duplex_final_def duplex_defs split: dp_pc.splits ds_pc.splits if_splits)
  moreover have "contents (ring1 s) = []"
    using assms \<open>secondary_at s = DsDeq\<close>
    by (auto simp: duplex_mover_def duplex_final_def duplex_defs split: dp_pc.splits if_splits)
  ultimately show ?thesis
    using deq[of "ring1 s"]
    by (auto simp: duplex_mu_def duplex_mover_def duplex_secondary_def
        split: prod.splits option.splits dp_pc.splits)
qed

lemma duplex_progress:
  "fair_progress (duplex_step ro ho) (duplex_inv contents cap used U) duplex_final (duplex_mu contents) (duplex_mover contents)"
proof
  fix s :: "('h, 'r) duplex" and p
  assume inv: "duplex_inv contents cap used U s"
  then show "duplex_inv contents cap used U (duplex_step ro ho p s)"
    by (cases p) (simp_all add: duplex_primary_keeps duplex_secondary_keeps)
  assume nf: "\<not> duplex_final s"
  then show "duplex_mu contents (duplex_step ro ho (duplex_mover contents s) s) < duplex_mu contents s"
    using inv duplex_primary_moves duplex_secondary_moves by (cases "duplex_mover contents s") auto
  assume "p \<noteq> duplex_mover contents s"
  then show "duplex_mu contents (duplex_step ro ho p s) < duplex_mu contents s \<or>
      duplex_mu contents (duplex_step ro ho p s) = duplex_mu contents s \<and> duplex_mover contents (duplex_step ro ho p s) = duplex_mover contents s"
    using inv nf duplex_primary_waits duplex_secondary_waits
    by (cases p; cases "duplex_mover contents s") auto
qed

lemma duplex_start_inv:
  assumes "1 \<le> cap r1" and "1 \<le> cap r2" and "contents r1 = []" and "contents r2 = []"
  shows "duplex_inv contents cap used (used h) (duplex_start h r1 r2)"
  using assms by (simp add: duplex_start_def duplex_defs)

lemma duplex_no_fault:
  assumes "\<forall>h. fst (malloc ho h) \<noteq> None" and "primary_at s \<noteq> DpFault \<and> secondary_at s \<noteq> DsFault"
  shows "primary_at (duplex_step ro ho p s) \<noteq> DpFault \<and> secondary_at (duplex_step ro ho p s) \<noteq> DsFault"
proof -
  have "malloc ho (heap s) \<noteq> (None, h)" for h using assms(1) by (metis fst_conv)
  then show ?thesis
    using assms(2)
    by (cases p) (auto simp: duplex_primary_def duplex_secondary_def split: prod.splits option.splits dp_pc.splits ds_pc.splits)
qed

end

text \<open>What the invariant says without the counters.\<close>

definition duplex_sound ::
    "('r \<Rightarrow> nat list) \<Rightarrow> ('h \<Rightarrow> nat set) \<Rightarrow> nat set \<Rightarrow> ('h, 'r) duplex \<Rightarrow> bool" where
  "duplex_sound contents used U s \<longleftrightarrow>
     (\<exists>p d. primary_got s = map (\<lambda>k. 10 * int k) [0..<p] \<and> secondary_got s = map int [0..<d] \<and>
        p \<le> d \<and> d \<le> Suc p \<and> d \<le> 10) \<and>
     length (contents (ring1 s) @ contents (ring2 s)) \<le> 1 \<and>
     (\<exists>V. used (heap s) = U \<union> V \<and> V \<inter> U = {} \<and> card V \<le> 1)"

lemma duplex_soundI:
  assumes "duplex_at contents used s p d q1 q2 (U \<union> V)" and "V \<inter> U = {}" and "card V \<le> 1"
    and "p \<le> d" and "d \<le> Suc p" and "d \<le> 10" and "length (q1 @ q2) \<le> 1"
  shows "duplex_sound contents used U s"
  using assms unfolding duplex_sound_def duplex_at_def by blast

lemmas duplex_idle = duplex_soundI[where V = "{}", simplified]
lemmas duplex_busy = duplex_soundI[where V = "{a}" for a, simplified]

lemma duplex_inv_sound: "duplex_inv contents cap used U s \<Longrightarrow> duplex_sound contents used U s"
  by (cases "primary_at s"; cases "secondary_at s";
      (simp add: duplex_inv_def Let_def)?; (elim conjE exE disjE)?;
      (erule duplex_idle | erule duplex_busy)?; simp)

text \<open>
  C12. The request and reply exchange of \<open>ring_full_duplex\<close>, for any ring and any heap that
  keep their contracts. Whatever the order in which the two processes take their steps: the
  primary prints 0, 10, 20 and so on and the secondary 0, 1, 2 and so on, at most one ahead;
  at most one message is in the rings and at most one block is allocated. If no allocation
  fails, every fair schedule ends both processes, after all ten values, with every block freed.
\<close>

theorem duplex_exchange:
  assumes "ring_heap ro contents cap ho used" and "1 \<le> cap r1" and "1 \<le> cap r2"
    and "contents r1 = []" and "contents r2 = []"
  shows "duplex_sound contents used (used h) (sched_run (duplex_step ro ho) f (duplex_start h r1 r2) n) \<and>
    (fair f \<longrightarrow> (\<forall>h. fst (malloc ho h) \<noteq> None) \<longrightarrow>
      (\<exists>n s. sched_run (duplex_step ro ho) f (duplex_start h r1 r2) n = s \<and>
        primary_at s = DpDone \<and> secondary_at s = DsDone \<and> used (heap s) = used h \<and>
        primary_got s = [0, 10, 20, 30, 40, 50, 60, 70, 80, 90] \<and>
        secondary_got s = [0, 1, 2, 3, 4, 5, 6, 7, 8, 9]))"
proof (intro conjI impI)
  let ?run = "sched_run (duplex_step ro ho) f (duplex_start h r1 r2)"
  have inv: "duplex_inv contents cap used (used h) (?run n)" for n
    by (rule sched_run_keeps)
      (use fair_progress.axioms(1)[OF ring_heap.duplex_progress[OF assms(1)]]
        ring_heap.duplex_start_inv[OF assms] in \<open>auto dest: can_progress.keeps\<close>)
  then show "duplex_sound contents used (used h) (?run n)" by (rule duplex_inv_sound)
  assume fair: "fair f" and never: "\<forall>h. fst (malloc ho h) \<noteq> None"
  obtain m where m: "duplex_final (?run m)"
    using fair_progress.reaches_final[OF ring_heap.duplex_progress[OF assms(1)] fair
      ring_heap.duplex_start_inv[OF assms]] by blast
  have "primary_at (?run m) \<noteq> DpFault \<and> secondary_at (?run m) \<noteq> DsFault"
    by (rule sched_run_keeps) (use ring_heap.duplex_no_fault[OF assms(1) never] in
      \<open>simp_all add: duplex_start_def\<close>)
  then have "primary_at (?run m) = DpDone" "secondary_at (?run m) = DsDone"
    using m by (auto simp: duplex_final_def)
  moreover from this have "duplex_at contents used (?run m) 10 10 [] [] (used h)"
    using inv[of m] by (simp add: duplex_inv_def Let_def)
  ultimately show "\<exists>n s. ?run n = s \<and> primary_at s = DpDone \<and> secondary_at s = DsDone \<and>
      used (heap s) = used h \<and> primary_got s = [0, 10, 20, 30, 40, 50, 60, 70, 80, 90] \<and>
      secondary_got s = [0, 1, 2, 3, 4, 5, 6, 7, 8, 9]"
    by (intro exI[of _ m] exI[of _ "?run m"]) (simp add: duplex_at_def upt_rec)
qed

theorem duplex_exchange_witness:
  "\<exists>n s. sched_run (duplex_step fifo_ring list_heap) (\<lambda>n. if even n then Primary else Secondary)
      (duplex_start [] (new_ring 1024) (new_ring 1024)) n = s \<and>
    primary_at s = DpDone \<and> secondary_at s = DsDone \<and> heap s = []"
proof -
  have r: "1 \<le> fst (new_ring 1024 :: nat fifo)" "snd (new_ring 1024 :: nat fifo) = []"
    by (simp_all add: new_ring_def)
  show ?thesis
    using duplex_exchange[OF fifo_list.ring_heap_axioms r(1) r(1) r(2) r(2),
        where f = "\<lambda>n. if even n then Primary else Secondary" and h = "[]"]
      parties_alternate list_heap_never_full by fastforce
qed

subsection \<open>\<open>through_rte_ring\<close>: one way\<close>

datatype tp_pc = TpLoop nat | TpEnq nat nat | TpDone | TpFault

datatype ts_pc = TsDeq | TsGot nat

record ('h, 'r) oneway = "('h, 'r, int) ipc" +
  sender_at :: tp_pc
  receiver_at :: ts_pc

definition through_primary :: "(nat, 'r) ring_ops \<Rightarrow> 'h heap_ops \<Rightarrow> ('h, 'r) oneway \<Rightarrow> ('h, 'r) oneway" where
  "through_primary ro ho s =
     (case sender_at s of
        TpLoop i \<Rightarrow>
          if i < 10 then (case malloc ho (heap s) of
              (None, h) \<Rightarrow> s\<lparr>heap := h, sender_at := TpFault\<rparr>
            | (Some msg, h) \<Rightarrow> s\<lparr>heap := h, shm := (shm s)(msg := int i), sender_at := TpEnq i msg\<rparr>)
          else s\<lparr>sender_at := TpDone\<rparr>
      | TpEnq i msg \<Rightarrow> (case enqueue ro msg (ring1 s) of (ok, r) \<Rightarrow>
          s\<lparr>ring1 := r, sender_at := if ok then TpLoop (Suc i) else TpEnq i msg\<rparr>)
      | _ \<Rightarrow> s)"

definition through_secondary :: "(nat, 'r) ring_ops \<Rightarrow> 'h heap_ops \<Rightarrow> ('h, 'r) oneway \<Rightarrow> ('h, 'r) oneway" where
  "through_secondary ro ho s =
     (case receiver_at s of
        TsDeq \<Rightarrow> (case dequeue ro (ring1 s) of
          (None, r) \<Rightarrow> s\<lparr>ring1 := r\<rparr>
        | (Some msg, r) \<Rightarrow> s\<lparr>ring1 := r, receiver_at := TsGot msg\<rparr>)
      | TsGot val \<Rightarrow> s\<lparr>secondary_got := secondary_got s @ [shm s val],
          heap := release ho val (heap s), receiver_at := TsDeq\<rparr>)"

fun through_step :: "(nat, 'r) ring_ops \<Rightarrow> 'h heap_ops \<Rightarrow> party \<Rightarrow> ('h, 'r) oneway \<Rightarrow> ('h, 'r) oneway" where
  "through_step ro ho Primary = through_primary ro ho"
| "through_step ro ho Secondary = through_secondary ro ho"

definition through_start :: "'h \<Rightarrow> 'r \<Rightarrow> ('h, 'r) oneway" where
  "through_start h r =
     \<lparr>heap = h, shm = (\<lambda>_. 0), ring1 = r, primary_got = [], secondary_got = [],
      sender_at = TpLoop 0, receiver_at = TsDeq\<rparr>"

text \<open>The messages on their way, oldest first, and how many have been written.\<close>

fun sender_hand :: "tp_pc \<Rightarrow> nat list" where
  "sender_hand (TpEnq i a) = [a]" | "sender_hand _ = []"

fun receiver_hand :: "ts_pc \<Rightarrow> nat list" where
  "receiver_hand (TsGot a) = [a]" | "receiver_hand TsDeq = []"

definition under_way :: "('r \<Rightarrow> nat list) \<Rightarrow> ('h, 'r) oneway \<Rightarrow> nat list" where
  "under_way contents s =
     receiver_hand (receiver_at s) @ contents (ring1 s) @ sender_hand (sender_at s)"

fun written :: "tp_pc \<Rightarrow> nat \<Rightarrow> bool" where
  "written (TpLoop i) k \<longleftrightarrow> k = i"
| "written (TpEnq i a) k \<longleftrightarrow> k = Suc i"
| "written TpDone k \<longleftrightarrow> k = 10"
| "written TpFault k \<longleftrightarrow> True"

definition through_inv ::
    "('r \<Rightarrow> nat list) \<Rightarrow> ('r \<Rightarrow> nat) \<Rightarrow> ('h \<Rightarrow> nat set) \<Rightarrow> nat set \<Rightarrow> ('h, 'r) oneway \<Rightarrow> bool" where
  "through_inv contents cap used U s \<longleftrightarrow> 1 \<le> cap (ring1 s) \<and>
     (let q = under_way contents s
      in distinct q \<and> set q \<inter> U = {} \<and> used (heap s) = U \<union> set q \<and>
         (\<exists>k\<le>10. written (sender_at s) k \<and> secondary_got s @ map (shm s) q = map int [0..<k]))"

definition through_mover :: "('r \<Rightarrow> nat list) \<Rightarrow> ('h, 'r) oneway \<Rightarrow> party" where
  "through_mover contents s =
     (if receiver_at s = TsDeq \<and> contents (ring1 s) = [] then Primary else Secondary)"

fun through_left :: "tp_pc \<Rightarrow> nat" where
  "through_left (TpLoop i) = 5 * (10 - i) + 1"
| "through_left (TpEnq i a) = 5 * (10 - i)"
| "through_left _ = 0"

definition through_mu :: "('r \<Rightarrow> nat list) \<Rightarrow> ('h, 'r) oneway \<Rightarrow> nat" where
  "through_mu contents s =
     through_left (sender_at s) + 2 * length (contents (ring1 s)) + length (receiver_hand (receiver_at s))"

definition through_final :: "('r \<Rightarrow> nat list) \<Rightarrow> ('h, 'r) oneway \<Rightarrow> bool" where
  "through_final contents s \<longleftrightarrow> sender_at s = TpFault \<or>
     sender_at s = TpDone \<and> receiver_at s = TsDeq \<and> contents (ring1 s) = []"

context ring_heap
begin

lemma through_primary_keeps:
  assumes "through_inv contents cap used U s"
  shows "through_inv contents cap used U (through_primary ro ho s)"
proof (cases "sender_at s")
  case (TpLoop i)
  have "map ((shm s)(a := v)) q = map (shm s) q" if "a \<notin> set q" for a v and q :: "nat list"
    using that by (simp add: map_idI)
  then show ?thesis
    using TpLoop assms malloc[of "heap s"]
    by (auto simp: through_primary_def through_inv_def under_way_def Let_def split: prod.splits option.splits)
next
  case (TpEnq i a)
  then show ?thesis
    using assms enqueue_result[of a "ring1 s"] cap_frame(1)[of a "ring1 s"]
    by (cases "enqueue ro a (ring1 s)") (auto simp: through_primary_def through_inv_def under_way_def Let_def)
qed (use assms in \<open>simp_all add: through_primary_def\<close>)

lemma through_secondary_keeps:
  assumes "through_inv contents cap used U s"
  shows "through_inv contents cap used U (through_secondary ro ho s)"
proof (cases "receiver_at s")
  case TsDeq
  then show ?thesis
    using assms deq[of "ring1 s"]
    by (auto simp: through_secondary_def through_inv_def under_way_def Let_def split: prod.splits option.splits)
next
  case (TsGot a)
  then show ?thesis
    using assms by (auto simp: through_secondary_def through_inv_def under_way_def Let_def release)
qed

lemma through_progress:
  "fair_progress (through_step ro ho) (through_inv contents cap used U) (through_final contents)
     (through_mu contents) (through_mover contents)"
proof
  fix s :: "('h, 'r) oneway" and p
  assume inv: "through_inv contents cap used U s"
  then show "through_inv contents cap used U (through_step ro ho p s)"
    by (cases p) (simp_all add: through_primary_keeps through_secondary_keeps)
  have sec: "through_mu contents (through_secondary ro ho s) < through_mu contents s"
    if "through_mover contents s = Secondary"
    using that deq[of "ring1 s"]
    by (auto simp: through_secondary_def through_mu_def through_mover_def split: prod.splits option.splits ts_pc.splits if_splits)
  have pri: "through_mu contents (through_primary ro ho s) < through_mu contents s \<or>
      contents (ring1 s) \<noteq> [] \<and> (\<exists>i a r. sender_at s = TpEnq i a \<and> through_primary ro ho s = s\<lparr>ring1 := r\<rparr> \<and>
        contents r = contents (ring1 s))"
    if "sender_at s \<noteq> TpDone" "sender_at s \<noteq> TpFault"
  proof (cases "sender_at s")
    case (TpLoop i)
    then show ?thesis
      by (auto simp: through_primary_def through_mu_def split: prod.splits option.splits)
  next
    case (TpEnq i a)
    then show ?thesis
      using inv enqueue_result[of a "ring1 s"]
      by (cases "enqueue ro a (ring1 s)") (auto simp: through_primary_def through_mu_def through_inv_def Let_def)
  qed (use that in auto)
  have sec_waits: "through_mu contents (through_secondary ro ho s) = through_mu contents s \<and>
      through_mover contents (through_secondary ro ho s) = through_mover contents s"
    if "through_mover contents s = Primary"
    using that deq[of "ring1 s"]
    by (auto simp: through_secondary_def through_mu_def through_mover_def split: prod.splits option.splits if_splits)
  show "through_mu contents (through_step ro ho (through_mover contents s) s) < through_mu contents s"
    if "\<not> through_final contents s"
    using that sec pri by (cases "through_mover contents s") (auto simp: through_final_def through_mover_def split: if_splits)
  show "through_mu contents (through_step ro ho p s) < through_mu contents s \<or>
      through_mu contents (through_step ro ho p s) = through_mu contents s \<and>
      through_mover contents (through_step ro ho p s) = through_mover contents s"
    if "\<not> through_final contents s" and "p \<noteq> through_mover contents s"
  proof (cases p)
    case Primary
    then show ?thesis
      using pri by (cases "sender_at s") (auto simp: through_mu_def through_mover_def through_primary_def)
  next
    case Secondary
    then show ?thesis using that(2) sec_waits by (cases "through_mover contents s") auto
  qed
qed

lemma through_no_fault:
  assumes "\<forall>h. fst (malloc ho h) \<noteq> None" and "sender_at s \<noteq> TpFault"
  shows "sender_at (through_step ro ho p s) \<noteq> TpFault"
proof -
  have "malloc ho (heap s) \<noteq> (None, h)" for h using assms(1) by (metis fst_conv)
  then show ?thesis
    using assms(2)
    by (cases p) (auto simp: through_primary_def through_secondary_def split: prod.splits option.splits tp_pc.splits ts_pc.splits)
qed

end

text \<open>
  C35. The one-way channel of \<open>through_rte_ring\<close>, for any ring that can hold a message and any
  heap: in whatever order the two processes take their steps, what the receiver has printed
  is 0, 1, 2 and so on up to some number, and the blocks in use are those of the messages
  under way. If no allocation fails, every fair schedule delivers all ten values and frees
  every message.
\<close>

theorem through_delivers:
  assumes "ring_heap ro contents cap ho used" and "1 \<le> cap r" and "contents r = []"
  shows "(\<exists>k\<le>10. secondary_got (sched_run (through_step ro ho) f (through_start h r) n) = map int [0..<k]) \<and>
    used (heap (sched_run (through_step ro ho) f (through_start h r) n)) =
      used h \<union> set (under_way contents (sched_run (through_step ro ho) f (through_start h r) n)) \<and>
    (fair f \<longrightarrow> (\<forall>h. fst (malloc ho h) \<noteq> None) \<longrightarrow>
      (\<exists>n s. sched_run (through_step ro ho) f (through_start h r) n = s \<and> sender_at s = TpDone \<and>
        secondary_got s = [0, 1, 2, 3, 4, 5, 6, 7, 8, 9] \<and> used (heap s) = used h))"
proof (intro conjI impI)
  let ?run = "sched_run (through_step ro ho) f (through_start h r)"
  have start: "through_inv contents cap used (used h) (through_start h r)"
    using assms by (simp add: through_start_def through_inv_def under_way_def)
  have inv: "through_inv contents cap used (used h) (?run n)" for n
    by (rule sched_run_keeps)
      (use fair_progress.axioms(1)[OF ring_heap.through_progress[OF assms(1)]] start in
        \<open>auto dest: can_progress.keeps\<close>)
  obtain k where k: "k \<le> 10" "secondary_got (?run n) @ map (shm (?run n)) (under_way contents (?run n)) = map int [0..<k]"
    using inv[of n] by (auto simp: through_inv_def Let_def)
  have "length (secondary_got (?run n)) \<le> 10"
    using k(1) arg_cong[OF k(2), of length] by simp
  with map_upt_prefix[OF k(2)] show "\<exists>k\<le>10. secondary_got (?run n) = map int [0..<k]" by blast
  show "used (heap (?run n)) = used h \<union> set (under_way contents (?run n))"
    using inv[of n] by (simp add: through_inv_def Let_def)
  assume fair: "fair f" and never: "\<forall>h. fst (malloc ho h) \<noteq> None"
  obtain m where "through_final contents (?run m)"
    using fair_progress.reaches_final[OF ring_heap.through_progress[OF assms(1)] fair start] by blast
  moreover have "sender_at (?run m) \<noteq> TpFault"
    by (rule sched_run_keeps) (use ring_heap.through_no_fault[OF assms(1) never] in
      \<open>simp_all add: through_start_def\<close>)
  ultimately have "sender_at (?run m) = TpDone" "under_way contents (?run m) = []"
    by (simp_all add: through_final_def under_way_def)
  then show "\<exists>n s. ?run n = s \<and> sender_at s = TpDone \<and>
      secondary_got s = [0, 1, 2, 3, 4, 5, 6, 7, 8, 9] \<and> used (heap s) = used h"
    using inv[of m] by (intro exI[of _ m] exI[of _ "?run m"]) (simp add: through_inv_def upt_rec)
qed

theorem through_delivers_witness:
  "\<exists>n s. sched_run (through_step fifo_ring list_heap) (\<lambda>n. if even n then Primary else Secondary)
      (through_start [] (new_ring 1024)) n = s \<and>
    sender_at s = TpDone \<and> secondary_got s = [0, 1, 2, 3, 4, 5, 6, 7, 8, 9] \<and> heap s = []"
proof -
  have r: "1 \<le> fst (new_ring 1024 :: nat fifo)" "snd (new_ring 1024 :: nat fifo) = []"
    by (simp_all add: new_ring_def)
  show ?thesis
    using through_delivers[OF fifo_list.ring_heap_axioms r,
        where f = "\<lambda>n. if even n then Primary else Secondary" and h = "[]"]
      parties_alternate list_heap_never_full by fastforce
qed

subsection \<open>\<open>single_ring_full_duplex\<close>: both directions over one ring\<close>

datatype msg_type = MSG_REQ | MSG_RESP | MSG_EXIT

record msg =
  src_id :: int
  dst_id :: int
  type_of :: msg_type
  msg_value :: int

definition PROC_A :: int where "PROC_A = 1"
definition PROC_B :: int where "PROC_B = 2"

lemmas proc_ids [simp] = PROC_A_def PROC_B_def

datatype sp_pc = SpLoop nat | SpEnq nat nat | SpWait nat | SpGot nat nat | SpPut nat nat | SpExit nat
  | SpDone | SpFault

datatype ss_pc = SsWait | SsGot nat | SsPut nat | SsReply nat | SsFree nat nat | SsEnq nat | SsDone | SsFault

record ('h, 'r) single = "('h, 'r, msg) ipc" +
  sp_at :: sp_pc
  ss_at :: ss_pc

definition request :: "nat \<Rightarrow> msg" where
  "request i = \<lparr>src_id = PROC_A, dst_id = PROC_B, type_of = MSG_REQ, msg_value = int i\<rparr>"

definition exit_message :: msg where
  "exit_message = \<lparr>src_id = PROC_A, dst_id = PROC_B, type_of = MSG_EXIT, msg_value = 0\<rparr>"

definition response :: "msg \<Rightarrow> msg" where
  "response m = \<lparr>src_id = PROC_B, dst_id = PROC_A, type_of = MSG_RESP, msg_value = msg_value m * 10\<rparr>"

text \<open>A message for the other side is put back, whatever that enqueue returns.\<close>

definition single_primary :: "(nat, 'r) ring_ops \<Rightarrow> 'h heap_ops \<Rightarrow> ('h, 'r) single \<Rightarrow> ('h, 'r) single" where
  "single_primary ro ho s =
     (case sp_at s of
        SpLoop i \<Rightarrow> (case malloc ho (heap s) of
          (None, h) \<Rightarrow> s\<lparr>heap := h, sp_at := SpFault\<rparr>
        | (Some m, h) \<Rightarrow>
            if i < 10 then s\<lparr>heap := h, shm := (shm s)(m := request i), sp_at := SpEnq i m\<rparr>
            else s\<lparr>heap := h, shm := (shm s)(m := exit_message), sp_at := SpExit m\<rparr>)
      | SpEnq i m \<Rightarrow> (case enqueue ro m (ring1 s) of (ok, r) \<Rightarrow>
          s\<lparr>ring1 := r, sp_at := if ok then SpWait i else SpEnq i m\<rparr>)
      | SpWait i \<Rightarrow> (case dequeue ro (ring1 s) of
          (None, r) \<Rightarrow> s\<lparr>ring1 := r\<rparr>
        | (Some obj, r) \<Rightarrow> s\<lparr>ring1 := r, sp_at := SpGot i obj\<rparr>)
      | SpGot i r \<Rightarrow>
          if dst_id (shm s r) \<noteq> PROC_A then s\<lparr>sp_at := SpPut i r\<rparr>
          else if type_of (shm s r) = MSG_RESP
          then s\<lparr>primary_got := primary_got s @ [msg_value (shm s r)],
                 heap := release ho r (heap s), sp_at := SpLoop (Suc i)\<rparr>
          else s\<lparr>sp_at := SpWait i\<rparr>
      | SpPut i r \<Rightarrow> s\<lparr>ring1 := snd (enqueue ro r (ring1 s)), sp_at := SpWait i\<rparr>
      | SpExit m \<Rightarrow> s\<lparr>ring1 := snd (enqueue ro m (ring1 s)), sp_at := SpDone\<rparr>
      | _ \<Rightarrow> s)"

definition single_secondary :: "(nat, 'r) ring_ops \<Rightarrow> 'h heap_ops \<Rightarrow> ('h, 'r) single \<Rightarrow> ('h, 'r) single" where
  "single_secondary ro ho s =
     (case ss_at s of
        SsWait \<Rightarrow> (case dequeue ro (ring1 s) of
          (None, r) \<Rightarrow> s\<lparr>ring1 := r\<rparr>
        | (Some obj, r) \<Rightarrow> s\<lparr>ring1 := r, ss_at := SsGot obj\<rparr>)
      | SsGot m \<Rightarrow>
          if dst_id (shm s m) \<noteq> PROC_B then s\<lparr>ss_at := SsPut m\<rparr>
          else (case type_of (shm s m) of
            MSG_EXIT \<Rightarrow> s\<lparr>heap := release ho m (heap s), ss_at := SsDone\<rparr>
          | MSG_REQ \<Rightarrow> s\<lparr>secondary_got := secondary_got s @ [msg_value (shm s m)], ss_at := SsReply m\<rparr>
          | MSG_RESP \<Rightarrow> s\<lparr>ss_at := SsWait\<rparr>)
      | SsPut m \<Rightarrow> s\<lparr>ring1 := snd (enqueue ro m (ring1 s)), ss_at := SsWait\<rparr>
      | SsReply m \<Rightarrow> (case malloc ho (heap s) of
          (None, h) \<Rightarrow> s\<lparr>heap := h, ss_at := SsFault\<rparr>
        | (Some resp, h) \<Rightarrow> s\<lparr>heap := h, shm := (shm s)(resp := response (shm s m)), ss_at := SsFree m resp\<rparr>)
      | SsFree m resp \<Rightarrow> s\<lparr>heap := release ho m (heap s), ss_at := SsEnq resp\<rparr>
      | SsEnq resp \<Rightarrow> (case enqueue ro resp (ring1 s) of (ok, r) \<Rightarrow>
          s\<lparr>ring1 := r, ss_at := if ok then SsWait else SsEnq resp\<rparr>)
      | _ \<Rightarrow> s)"

fun single_step :: "(nat, 'r) ring_ops \<Rightarrow> 'h heap_ops \<Rightarrow> party \<Rightarrow> ('h, 'r) single \<Rightarrow> ('h, 'r) single" where
  "single_step ro ho Primary = single_primary ro ho"
| "single_step ro ho Secondary = single_secondary ro ho"

definition single_start :: "'h \<Rightarrow> 'r \<Rightarrow> ('h, 'r) single" where
  "single_start h r =
     \<lparr>heap = h, shm = (\<lambda>_. exit_message), ring1 = r, primary_got = [], secondary_got = [],
      sp_at = SpLoop 0, ss_at = SsWait\<rparr>"

text \<open>One message at a time again, but either side may be holding it.\<close>

definition single_at where
  "single_at contents used s p d q U \<longleftrightarrow>
     primary_got s = map (\<lambda>k. 10 * int k) [0..<p] \<and> secondary_got s = map int [0..<d] \<and>
     contents (ring1 s) = q \<and> used (heap s) = U"

definition single_inv ::
    "('r \<Rightarrow> nat list) \<Rightarrow> ('r \<Rightarrow> nat) \<Rightarrow> ('h \<Rightarrow> nat set) \<Rightarrow> nat set \<Rightarrow> ('h, 'r) single \<Rightarrow> bool" where
  "single_inv contents cap used U s \<longleftrightarrow> 1 \<le> cap (ring1 s) \<and>
     (let at = single_at contents used s;
          req = (\<lambda>i a q. a \<notin> U \<and> shm s a = request i \<and> at i i q (insert a U));
          resp = (\<lambda>i a q. a \<notin> U \<and> shm s a = response (request i) \<and> at i (Suc i) q (insert a U));
          quit = (\<lambda>a q. a \<notin> U \<and> shm s a = exit_message \<and> at 10 10 q (insert a U))
      in case sp_at s of
        SpLoop i \<Rightarrow> i \<le> 10 \<and> ss_at s = SsWait \<and> at i i [] U
      | SpEnq i a \<Rightarrow> i < 10 \<and> ss_at s = SsWait \<and> req i a []
      | SpWait i \<Rightarrow> i < 10 \<and> (case ss_at s of
          SsWait \<Rightarrow> (\<exists>a. req i a [a] \<or> resp i a [a])
        | SsGot a \<Rightarrow> req i a [] \<or> resp i a []
        | SsPut a \<Rightarrow> resp i a []
        | SsReply a \<Rightarrow> a \<notin> U \<and> shm s a = request i \<and> at i (Suc i) [] (insert a U)
        | SsFree a b \<Rightarrow> a \<notin> U \<and> b \<notin> U \<and> a \<noteq> b \<and> shm s b = response (request i) \<and>
            at i (Suc i) [] (insert b (insert a U))
        | SsEnq a \<Rightarrow> resp i a []
        | SsDone \<Rightarrow> False
        | SsFault \<Rightarrow> (\<exists>a. a \<notin> U \<and> at i (Suc i) [] (insert a U)))
      | SpGot i a \<Rightarrow> i < 10 \<and> ss_at s = SsWait \<and> (req i a [] \<or> resp i a [])
      | SpPut i a \<Rightarrow> i < 10 \<and> ss_at s = SsWait \<and> req i a []
      | SpExit a \<Rightarrow> ss_at s = SsWait \<and> quit a []
      | SpDone \<Rightarrow> (case ss_at s of
          SsWait \<Rightarrow> (\<exists>a. quit a [a])
        | SsGot a \<Rightarrow> quit a []
        | SsDone \<Rightarrow> at 10 10 [] U
        | _ \<Rightarrow> False)
      | SpFault \<Rightarrow> ss_at s = SsWait \<and> (\<exists>i\<le>10. at i i [] U))"

lemmas single_defs = single_inv_def single_at_def Let_def

lemma message_fields [simp]:
  "dst_id (request i) = PROC_B" "type_of (request i) = MSG_REQ" "msg_value (request i) = int i"
  "dst_id exit_message = PROC_B" "type_of exit_message = MSG_EXIT"
  "dst_id (response m) = PROC_A" "type_of (response m) = MSG_RESP" "msg_value (response m) = msg_value m * 10"
  by (simp_all add: request_def exit_message_def response_def)

text \<open>The process whose step brings the exchange forward.\<close>

definition single_mover :: "('r \<Rightarrow> nat list) \<Rightarrow> ('h, 'r) single \<Rightarrow> party" where
  "single_mover contents s =
     (case sp_at s of
        SpWait i \<Rightarrow> if ss_at s = SsWait \<and> dst_id (shm s (hd (contents (ring1 s)))) = PROC_A
          then Primary else Secondary
      | SpDone \<Rightarrow> Secondary
      | _ \<Rightarrow> Primary)"

definition single_mu :: "('r \<Rightarrow> nat list) \<Rightarrow> ('h, 'r) single \<Rightarrow> nat" where
  "single_mu contents s =
     (case sp_at s of
        SpLoop i \<Rightarrow> 20 * (10 - i) + 4
      | SpEnq i a \<Rightarrow> 20 * (10 - i) + 3
      | SpGot i a \<Rightarrow> if dst_id (shm s a) = PROC_A then 20 * (10 - i) - 6 else 20 * (10 - i) + 2
      | SpPut i a \<Rightarrow> 20 * (10 - i) + 1
      | SpWait i \<Rightarrow> (case ss_at s of
          SsWait \<Rightarrow> if dst_id (shm s (hd (contents (ring1 s)))) = PROC_A then 20 * (10 - i) - 5 else 20 * (10 - i)
        | SsGot a \<Rightarrow> if dst_id (shm s a) = PROC_A then 20 * (10 - i) - 3 else 20 * (10 - i) - 1
        | SsReply a \<Rightarrow> 20 * (10 - i) - 2
        | SsFree a b \<Rightarrow> 20 * (10 - i) - 3
        | SsFault \<Rightarrow> 0
        | _ \<Rightarrow> 20 * (10 - i) - 4)
      | SpExit a \<Rightarrow> 3
      | SpDone \<Rightarrow> (case ss_at s of SsWait \<Rightarrow> 2 | SsGot a \<Rightarrow> 1 | _ \<Rightarrow> 0)
      | SpFault \<Rightarrow> 0)"

definition single_final :: "('h, 'r) single \<Rightarrow> bool" where
  "single_final s \<longleftrightarrow> sp_at s = SpFault \<or> ss_at s = SsFault \<or> sp_at s = SpDone \<and> ss_at s = SsDone"

definition single_no_fault :: "('h, 'r) single \<Rightarrow> bool" where
  "single_no_fault s \<longleftrightarrow> sp_at s \<noteq> SpFault \<and> ss_at s \<noteq> SsFault"

context ring_heap
begin

lemma single_primary_keeps:
  assumes "single_inv contents cap used U s"
  shows "single_inv contents cap used U (single_primary ro ho s)"
proof (cases "sp_at s")
  case (SpLoop i)
  then show ?thesis
    using assms malloc[of "heap s"]
    by (auto simp: single_primary_def single_defs split: prod.splits option.splits)
next
  case (SpEnq i a)
  then show ?thesis
    using assms enqueue_result[of a "ring1 s"] cap_frame(1)[of a "ring1 s"]
    by (cases "enqueue ro a (ring1 s)") (auto simp: single_primary_def single_defs)
next
  case (SpWait i)
  then show ?thesis
    using assms deq[of "ring1 s"]
    by (auto simp: single_primary_def single_defs split: prod.splits option.splits ss_pc.splits)
next
  case (SpGot i a)
  then show ?thesis
    using assms by (auto simp: single_primary_def single_defs release)
next
  case (SpPut i a)
  then show ?thesis
    using assms by (auto simp: single_primary_def single_defs enqueue_result)
next
  case (SpExit a)
  then show ?thesis
    using assms by (auto simp: single_primary_def single_defs enqueue_result)
qed (use assms in \<open>simp_all add: single_primary_def\<close>)

lemma single_secondary_keeps:
  assumes "single_inv contents cap used U s"
  shows "single_inv contents cap used U (single_secondary ro ho s)"
proof (cases "ss_at s")
  case SsWait
  then show ?thesis
    using assms deq[of "ring1 s"]
    by (auto simp: single_secondary_def single_defs split: prod.splits option.splits sp_pc.splits)
next
  case (SsGot a)
  then show ?thesis
    using assms by (auto simp: single_secondary_def single_defs release split: sp_pc.splits)
next
  case (SsPut a)
  then show ?thesis
    using assms by (auto simp: single_secondary_def single_defs enqueue_result split: sp_pc.splits)
next
  case (SsReply a)
  then show ?thesis
    using assms malloc[of "heap s"]
    by (auto simp: single_secondary_def single_defs split: prod.splits option.splits sp_pc.splits)
next
  case (SsFree a b)
  then show ?thesis
    using assms by (auto simp: single_secondary_def single_defs release split: sp_pc.splits)
next
  case (SsEnq a)
  then show ?thesis
    using assms enqueue_result[of a "ring1 s"] cap_frame(1)[of a "ring1 s"]
    by (cases "enqueue ro a (ring1 s)") (auto simp: single_secondary_def single_defs split: sp_pc.splits)
qed (use assms in \<open>simp_all add: single_secondary_def\<close>)

lemma single_primary_moves:
  assumes "single_inv contents cap used U s" and "\<not> single_final s" and "single_mover contents s = Primary"
  shows "single_mu contents (single_primary ro ho s) < single_mu contents s"
proof (cases "sp_at s")
  case (SpLoop i)
  then show ?thesis
    using assms by (auto simp: single_mu_def single_primary_def single_defs split: prod.splits option.splits)
next
  case (SpEnq i a)
  then show ?thesis
    using assms enqueue_result[of a "ring1 s"]
    by (cases "enqueue ro a (ring1 s)") (auto simp: single_mu_def single_primary_def single_defs)
next
  case (SpWait i)
  then show ?thesis
    using assms deq[of "ring1 s"]
    by (auto simp: single_mu_def single_mover_def single_primary_def single_defs
        split: prod.splits option.splits ss_pc.splits if_splits)
next
  case (SpGot i a)
  then show ?thesis
    using assms by (auto simp: single_mu_def single_primary_def single_defs)
next
  case (SpPut i a)
  then show ?thesis
    using assms by (auto simp: single_mu_def single_primary_def single_defs enqueue_result)
next
  case SpDone
  then show ?thesis using assms by (simp add: single_mover_def)
next
  case SpFault
  then show ?thesis using assms by (simp add: single_final_def)
qed (use assms in \<open>auto simp: single_mu_def single_primary_def single_defs\<close>)

lemma single_secondary_moves:
  assumes "single_inv contents cap used U s" and "\<not> single_final s" and "single_mover contents s = Secondary"
  shows "single_mu contents (single_secondary ro ho s) < single_mu contents s"
proof (cases "ss_at s")
  case SsWait
  then show ?thesis
    using assms deq[of "ring1 s"]
    by (auto simp: single_mu_def single_mover_def single_secondary_def single_defs
        split: prod.splits option.splits sp_pc.splits if_splits)
next
  case (SsReply a)
  then show ?thesis
    using assms
    by (auto simp: single_mu_def single_secondary_def single_defs split: prod.splits option.splits sp_pc.splits)
next
  case (SsEnq a)
  then show ?thesis
    using assms enqueue_result[of a "ring1 s"]
    by (cases "enqueue ro a (ring1 s)") (auto simp: single_mu_def single_secondary_def single_defs split: sp_pc.splits)
next
  case SsDone
  then show ?thesis
    using assms by (auto simp: single_final_def single_mover_def single_defs split: sp_pc.splits)
next
  case SsFault
  then show ?thesis using assms by (simp add: single_final_def)
qed (use assms in \<open>auto simp: single_mu_def single_secondary_def single_defs enqueue_result split: sp_pc.splits\<close>)

lemma single_progress:
  "can_progress (single_step ro ho) (single_inv contents cap used U) single_final (single_mu contents)
     (single_mover contents)"
proof
  fix s :: "('h, 'r) single" and p
  assume inv: "single_inv contents cap used U s"
  then show "single_inv contents cap used U (single_step ro ho p s)"
    by (cases p) (simp_all add: single_primary_keeps single_secondary_keeps)
  assume "\<not> single_final s"
  then show "single_mu contents (single_step ro ho (single_mover contents s) s) < single_mu contents s"
    using inv single_primary_moves single_secondary_moves by (cases "single_mover contents s") auto
qed

lemma single_keeps_no_fault:
  assumes "\<forall>h. fst (malloc ho h) \<noteq> None" and "single_no_fault s"
  shows "single_no_fault (single_step ro ho p s)"
proof -
  have "malloc ho (heap s) \<noteq> (None, h)" for h using assms(1) by (metis fst_conv)
  then show ?thesis
    using assms(2)
    by (cases p) (auto simp: single_no_fault_def single_primary_def single_secondary_def
        split: prod.splits option.splits sp_pc.splits ss_pc.splits msg_type.splits)
qed

lemma single_start_inv:
  assumes "1 \<le> cap r" and "contents r = []"
  shows "single_inv contents cap used (used h) (single_start h r)"
  using assms by (simp add: single_start_def single_defs)

end

lemma single_soundI:
  assumes "single_at contents used s p d q W" and "p \<le> d" and "d \<le> Suc p" and "d \<le> 10" and "length q \<le> 1"
  shows "\<exists>p d. primary_got s = map (\<lambda>k. 10 * int k) [0..<p] \<and> secondary_got s = map int [0..<d] \<and>
    p \<le> d \<and> d \<le> Suc p \<and> d \<le> 10 \<and> length (contents (ring1 s)) \<le> 1"
  using assms unfolding single_at_def by blast

lemma single_inv_sound:
  "single_inv contents cap used U s \<Longrightarrow>
   \<exists>p d. primary_got s = map (\<lambda>k. 10 * int k) [0..<p] \<and> secondary_got s = map int [0..<d] \<and>
    p \<le> d \<and> d \<le> Suc p \<and> d \<le> 10 \<and> length (contents (ring1 s)) \<le> 1"
  by (cases "sp_at s"; cases "ss_at s"; (simp only: single_inv_def Let_def sp_pc.case ss_pc.case)?;
      (elim conjE exE disjE FalseE)?; (erule single_soundI)?; simp)

text \<open>
  A fair schedule under which the primary keeps taking its own request out and putting it
  back, and the secondary finds the ring empty each time.
\<close>

definition put_back_schedule :: "nat \<Rightarrow> party" where
  "put_back_schedule n = (if n mod 4 = 3 then Secondary else Primary)"

definition circling :: "('r \<Rightarrow> nat list) \<Rightarrow> ('r \<Rightarrow> nat) \<Rightarrow> nat \<Rightarrow> ('h, 'r) single \<Rightarrow> bool" where
  "circling contents cap k s \<longleftrightarrow> 1 \<le> cap (ring1 s) \<and> primary_got s = [] \<and> secondary_got s = [] \<and>
     ss_at s = SsWait \<and> (\<exists>a. shm s a = request 0 \<and>
       (if k = 2 then sp_at s = SpWait 0 \<and> contents (ring1 s) = [a]
        else if k = 1 then sp_at s = SpPut 0 a \<and> contents (ring1 s) = []
        else sp_at s = SpGot 0 a \<and> contents (ring1 s) = []))"

lemma put_back_fair: "fair put_back_schedule"
  unfolding fair_def
proof (intro allI)
  fix p and n :: nat
  show "\<exists>m\<ge>n. put_back_schedule m = p"
    by (cases p) (intro exI[of _ "4 * n"] exI[of _ "4 * n + 3"], simp add: put_back_schedule_def)+
qed

context ring_heap
begin

lemma circling_step:
  assumes "circling contents cap (n mod 4) s"
  shows "circling contents cap (Suc n mod 4) (single_step ro ho (put_back_schedule n) s)"
proof -
  have "n mod 4 < 4" by simp
  then consider "n mod 4 = 0" | "n mod 4 = 1" | "n mod 4 = 2" | "n mod 4 = 3" by linarith
  then show ?thesis
  proof cases
    case 1
    then show ?thesis
      using assms by (auto simp: circling_def put_back_schedule_def single_primary_def mod_Suc)
  next
    case 2
    then show ?thesis
      using assms by (auto simp: circling_def put_back_schedule_def single_primary_def mod_Suc enqueue_result)
  next
    case 3
    then show ?thesis
      using assms deq[of "ring1 s"]
      by (auto simp: circling_def put_back_schedule_def single_primary_def mod_Suc split: prod.splits option.splits)
  next
    case 4
    then show ?thesis
      using assms deq[of "ring1 s"]
      by (auto simp: circling_def put_back_schedule_def single_secondary_def mod_Suc split: prod.splits option.splits)
  qed
qed

lemma circles:
  assumes "1 \<le> cap r" and "contents r = []" and "\<forall>h. fst (malloc ho h) \<noteq> None"
  shows "primary_got (sched_run (single_step ro ho) put_back_schedule (single_start h r) n) = []"
proof -
  let ?run = "sched_run (single_step ro ho) put_back_schedule (single_start h r)"
  obtain a h' where m: "malloc ho h = (Some a, h')"
    using assms(3) by (metis not_None_eq prod.exhaust_sel)
  have one: "?run 1 = (single_start h r)\<lparr>heap := h', shm := (shm (single_start h r))(a := request 0), sp_at := SpEnq 0 a\<rparr>"
    using m by (simp add: put_back_schedule_def single_primary_def single_start_def)
  have two: "circling contents cap 2 (?run 2)"
    using one assms(1,2) enqueue_result[of a r] cap_frame(1)[of a r]
    by (cases "enqueue ro a r") (auto simp: numeral_2_eq_2 put_back_schedule_def single_primary_def
        single_start_def circling_def)
  have "circling contents cap ((2 + k) mod 4) (?run (2 + k))" for k
  proof (induction k)
    case (Suc k)
    from circling_step[OF this] show ?case by simp
  qed (use two in simp)
  then have later: "primary_got (?run (2 + k)) = []" for k by (auto simp: circling_def)
  consider "n = 0" | "n = 1" | k where "n = 2 + k" by (metis One_nat_def Suc_1 add_Suc not0_implies_Suc plus_1_eq_Suc)
  then show ?thesis
  proof cases
    case 1
    then show ?thesis by (simp add: single_start_def)
  next
    case 2
    then show ?thesis using one by (simp add: single_start_def)
  next
    case (3 k)
    then show ?thesis using later by simp
  qed
qed

end



end
