(* ===== verification/RingPrograms.thy ===== *)
theory RingPrograms
  imports RingIpc "HOL-Library.Sublist"
begin

text \<open>
  The other programs around a ring: the producer and the consumer of \<open>rings/sample\<close> and the two
  handlers of \<open>practice/ring.c\<close>, each a step function with a program counter.
\<close>

subsection \<open>\<open>rings/sample\<close>: producer and consumer until a signal\<close>

datatype actor = Producer | Consumer | Signal

datatype prod_pc = PrTest | PrAlloc | PrEnq nat | PrDone | PrFault

datatype cons_pc = CoTest | CoDeq | CoGot nat | CoDone

text \<open>
  \<open>consumed\<close> is what the consumer prints, \<open>refused\<close> the numbers whose blocks the producer
  frees on a full ring.
\<close>

record ('h, 'r) ring_sample =
  heap :: 'h
  cells :: "nat \<Rightarrow> u64"
  the_ring :: 'r
  counter :: u64
  keep_running :: bool
  consumed :: "u64 list"
  refused :: "u64 list"
  producer_at :: prod_pc
  consumer_at :: cons_pc

definition producer :: "(nat, 'r) ring_ops \<Rightarrow> 'h heap_ops \<Rightarrow> ('h, 'r) ring_sample \<Rightarrow> ('h, 'r) ring_sample" where
  "producer ro ho s =
     (case producer_at s of
        PrTest \<Rightarrow> s\<lparr>producer_at := if keep_running s then PrAlloc else PrDone\<rparr>
      | PrAlloc \<Rightarrow> (case malloc ho (heap s) of
          (None, h) \<Rightarrow> s\<lparr>heap := h, producer_at := PrFault\<rparr>
        | (Some data, h) \<Rightarrow> s\<lparr>heap := h, cells := (cells s)(data := counter s), counter := counter s + 1,
            producer_at := PrEnq data\<rparr>)
      | PrEnq data \<Rightarrow> (case enqueue ro data (the_ring s) of (ok, r) \<Rightarrow>
          if ok then s\<lparr>the_ring := r, producer_at := PrTest\<rparr>
          else s\<lparr>the_ring := r, refused := refused s @ [cells s data], heap := release ho data (heap s),
                 producer_at := PrTest\<rparr>)
      | _ \<Rightarrow> s)"

definition consumer :: "(nat, 'r) ring_ops \<Rightarrow> 'h heap_ops \<Rightarrow> ('h, 'r) ring_sample \<Rightarrow> ('h, 'r) ring_sample" where
  "consumer ro ho s =
     (case consumer_at s of
        CoTest \<Rightarrow> s\<lparr>consumer_at := if keep_running s then CoDeq else CoDone\<rparr>
      | CoDeq \<Rightarrow> (case dequeue ro (the_ring s) of
          (None, r) \<Rightarrow> s\<lparr>the_ring := r, consumer_at := CoTest\<rparr>
        | (Some ptr, r) \<Rightarrow> s\<lparr>the_ring := r, consumer_at := CoGot ptr\<rparr>)
      | CoGot data \<Rightarrow> s\<lparr>consumed := consumed s @ [cells s data], heap := release ho data (heap s),
          consumer_at := CoTest\<rparr>
      | CoDone \<Rightarrow> s)"

definition handle_signal :: "('h, 'r) ring_sample \<Rightarrow> ('h, 'r) ring_sample" where
  "handle_signal s = s\<lparr>keep_running := False\<rparr>"

fun ring_sample_step :: "(nat, 'r) ring_ops \<Rightarrow> 'h heap_ops \<Rightarrow> actor \<Rightarrow> ('h, 'r) ring_sample \<Rightarrow> ('h, 'r) ring_sample" where
  "ring_sample_step ro ho Producer = producer ro ho"
| "ring_sample_step ro ho Consumer = consumer ro ho"
| "ring_sample_step ro ho Signal = handle_signal"

definition ring_sample_start :: "'h \<Rightarrow> 'r \<Rightarrow> ('h, 'r) ring_sample" where
  "ring_sample_start h r =
     \<lparr>heap = h, cells = (\<lambda>_. 0), the_ring = r, counter = 0, keep_running = True, consumed = [],
      refused = [], producer_at = PrTest, consumer_at = CoTest\<rparr>"

fun prod_hand :: "prod_pc \<Rightarrow> nat list" where
  "prod_hand (PrEnq a) = [a]" | "prod_hand _ = []"

fun cons_hand :: "cons_pc \<Rightarrow> nat list" where
  "cons_hand (CoGot a) = [a]" | "cons_hand _ = []"

definition in_transit :: "('r \<Rightarrow> nat list) \<Rightarrow> ('h, 'r) ring_sample \<Rightarrow> nat list" where
  "in_transit contents s =
     cons_hand (consumer_at s) @ contents (the_ring s) @ prod_hand (producer_at s)"

text \<open>
  The numbers delivered or on their way are in the order of production, and with those
  refused they are all the numbers produced. The blocks in use are those on their way.
\<close>

definition sample_inv ::
    "('r \<Rightarrow> nat list) \<Rightarrow> ('h \<Rightarrow> nat set) \<Rightarrow> nat set \<Rightarrow> ('h, 'r) ring_sample \<Rightarrow> bool" where
  "sample_inv contents used U s \<longleftrightarrow>
     (let q = in_transit contents s
      in distinct q \<and> set q \<inter> U = {} \<and> used (heap s) = U \<union> set q \<and>
         (\<exists>k. counter s = of_nat k \<and>
            subseq (consumed s @ map (cells s) q) (map of_nat [0..<k]) \<and>
            mset (consumed s @ map (cells s) q) + mset (refused s) = mset (map of_nat [0..<k])))"

lemma subseq_drop_last:
  assumes "subseq (xs @ ys @ zs @ [x]) l"
  shows "subseq (xs @ ys @ zs) l"
  using assms subseq_rev_drop_many[of "xs @ ys @ zs" "xs @ ys @ zs" "[x]"]
  by (metis append_assoc subseq_order.order_refl subseq_order.order_trans)

text \<open>How far the two threads are from their end once \<open>keep_running\<close> is cleared.\<close>

fun prod_left :: "prod_pc \<Rightarrow> nat" where
  "prod_left PrTest = 1" | "prod_left PrAlloc = 3" | "prod_left (PrEnq a) = 2" | "prod_left _ = 0"

fun cons_left :: "cons_pc \<Rightarrow> nat" where
  "cons_left CoTest = 1" | "cons_left CoDeq = 3" | "cons_left (CoGot a) = 2" | "cons_left CoDone = 0"

definition sample_left :: "('h, 'r) ring_sample \<Rightarrow> nat" where
  "sample_left s = prod_left (producer_at s) + cons_left (consumer_at s)"

definition sample_mover :: "('h, 'r) ring_sample \<Rightarrow> actor" where
  "sample_mover s = (if prod_left (producer_at s) = 0 then Consumer else Producer)"

definition sample_ended :: "('h, 'r) ring_sample \<Rightarrow> bool" where
  "sample_ended s \<longleftrightarrow> producer_at s \<in> {PrDone, PrFault} \<and> consumer_at s = CoDone"

lemma sample_threads_stop:
  fixes ro :: "(nat, 'r) ring_ops" and ho :: "'h heap_ops"
  shows "fair_progress (ring_sample_step ro ho) (\<lambda>s. \<not> keep_running s) sample_ended sample_left sample_mover"
proof
  fix s :: "('h, 'r) ring_sample" and p
  assume off: "\<not> keep_running s"
  then show "\<not> keep_running (ring_sample_step ro ho p s)"
    by (cases p) (auto simp: producer_def consumer_def handle_signal_def
        split: prod_pc.splits cons_pc.splits prod.splits option.splits)
  have pr: "producer_at s \<in> {PrDone, PrFault} \<and> producer ro ho s = s \<or>
      prod_left (producer_at (producer ro ho s)) < prod_left (producer_at s) \<and>
      consumer_at (producer ro ho s) = consumer_at s"
    using off by (auto simp: producer_def split: prod_pc.splits prod.splits option.splits)
  have co: "consumer_at s = CoDone \<and> consumer ro ho s = s \<or>
      cons_left (consumer_at (consumer ro ho s)) < cons_left (consumer_at s) \<and>
      producer_at (consumer ro ho s) = producer_at s"
    using off by (auto simp: consumer_def split: cons_pc.splits prod.splits option.splits)
  assume on: "\<not> sample_ended s"
  then show "sample_left (ring_sample_step ro ho (sample_mover s) s) < sample_left s"
    using pr co by (cases "producer_at s") (auto simp: sample_left_def sample_mover_def sample_ended_def)
  show "sample_left (ring_sample_step ro ho p s) < sample_left s \<or>
      sample_left (ring_sample_step ro ho p s) = sample_left s \<and>
      sample_mover (ring_sample_step ro ho p s) = sample_mover s"
    using pr co by (cases p) (auto simp: sample_left_def sample_mover_def handle_signal_def)
qed

interpretation sample_stops: fair_progress "ring_sample_step ro ho" "\<lambda>s. \<not> keep_running s" sample_ended
    sample_left sample_mover
  by (rule sample_threads_stop)

context ring_heap
begin

lemma producer_keeps:
  assumes "sample_inv contents used U s"
  shows "sample_inv contents used U (producer ro ho s)"
proof (cases "producer_at s")
  case PrAlloc
  let ?q = "in_transit contents s"
  obtain k where k: "distinct ?q" "set ?q \<inter> U = {}" "used (heap s) = U \<union> set ?q" "counter s = of_nat k"
      "subseq (consumed s @ map (cells s) ?q) (map of_nat [0..<k])"
      "mset (consumed s @ map (cells s) ?q) + mset (refused s) = mset (map of_nat [0..<k])"
    using assms by (auto simp: sample_inv_def Let_def)
  show ?thesis
  proof (cases "malloc ho (heap s)")
    case (Pair y h)
    show ?thesis
    proof (cases y)
      case None
      then show ?thesis
        using k Pair PrAlloc malloc_none[of "heap s" h]
        by (auto simp: producer_def sample_inv_def in_transit_def Let_def)
    next
      case (Some a)
      then have a: "a \<notin> used (heap s)" "used h = insert a (used (heap s))"
        using Pair malloc_some by auto
      have q: "in_transit contents (producer ro ho s) = ?q @ [a]" "consumed (producer ro ho s) = consumed s"
        "refused (producer ro ho s) = refused s" "cells (producer ro ho s) = (cells s)(a := of_nat k)"
        "counter (producer ro ho s) = of_nat (Suc k)" "heap (producer ro ho s) = h"
        using k(4) Some Pair PrAlloc by (simp_all add: producer_def in_transit_def)
      have m: "map (cells (producer ro ho s)) (?q @ [a]) = map (cells s) ?q @ [of_nat k]"
        using a k(3) by (auto simp: q)
      have "subseq (consumed s @ map (cells s) ?q @ [of_nat k]) (map of_nat [0..<k] @ [of_nat k])"
        using list_emb_append_mono[OF k(5), of "[of_nat k]" "[of_nat k]"] by simp
      then show ?thesis
        using k a unfolding sample_inv_def Let_def q m
        by (intro conjI exI[of _ "Suc k"]) (auto simp: upt_rec[of 0])
    qed
  qed
next
  case (PrEnq a)
  then show ?thesis
    using assms enqueue_result[of a "the_ring s"]
    by (cases "enqueue ro a (the_ring s)")
      (auto simp: producer_def sample_inv_def in_transit_def Let_def release dest!: subseq_drop_last)
qed (use assms in \<open>simp_all add: producer_def sample_inv_def in_transit_def\<close>)

lemma consumer_keeps:
  assumes "sample_inv contents used U s"
  shows "sample_inv contents used U (consumer ro ho s)"
proof (cases "consumer_at s")
  case CoDeq
  then show ?thesis
    using assms deq[of "the_ring s"]
    by (auto simp: consumer_def sample_inv_def in_transit_def Let_def split: prod.splits option.splits)
next
  case (CoGot a)
  then show ?thesis
    using assms by (auto simp: consumer_def sample_inv_def in_transit_def Let_def release)
qed (use assms in \<open>simp_all add: consumer_def sample_inv_def in_transit_def\<close>)

lemma sample_keeps:
  assumes "sample_inv contents used U s"
  shows "sample_inv contents used U (ring_sample_step ro ho p s)"
proof (cases p)
  case Producer
  then show ?thesis using producer_keeps[OF assms] by simp
next
  case Consumer
  then show ?thesis using consumer_keeps[OF assms] by simp
next
  case Signal
  then show ?thesis using assms by (simp add: handle_signal_def sample_inv_def in_transit_def)
qed

lemma sample_can_leak:
  assumes "1 \<le> cap r" and "contents r = []" and "\<forall>h. fst (malloc ho h) \<noteq> None"
  shows "\<exists>ps s. fold (ring_sample_step ro ho) ps (ring_sample_start h r) = s \<and>
    producer_at s = PrDone \<and> consumer_at s = CoDone \<and> used h \<subset> used (heap s)"
proof -
  obtain a h' where m: "malloc ho h = (Some a, h')"
    using assms(3) by (metis not_None_eq prod.exhaust_sel)
  obtain r' where "enqueue ro a r = (True, r')"
    using enqueue_result(1)[of a r] assms(1,2) by (cases "enqueue ro a r") auto
  with m malloc_some[OF m] show ?thesis
    by (intro exI[of _ "[Producer, Producer, Producer, Signal, Producer, Consumer]"])
      (auto simp: producer_def consumer_def handle_signal_def ring_sample_start_def)
qed

end



subsection \<open>\<open>practice/ring.c\<close>: a ring freed too early\<close>

text \<open>
  \<open>main\<close> launches \<open>handler\<close> on lcore 1 and \<open>handler2\<close> on lcore 2, waits for lcores 0 and 1
  and frees the ring. \<open>ring1\<close> of the state is \<open>None\<close> from then on; using it is \<open>H2Fault\<close>.
\<close>

datatype practice_actor = Lcore1 | Lcore2 | Main

datatype h1_pc = H1Alloc | H1Enq nat | H1Done | H1Fault

datatype h2_pc = H2Deq | H2Got nat | H2Done | H2Fault

record ('h, 'r) practice =
  heap :: 'h
  ints :: "nat \<Rightarrow> int"
  ring_ref :: "'r option"
  seen :: "int list"
  h1_at :: h1_pc
  h2_at :: h2_pc

definition handler :: "(nat, 'r) ring_ops \<Rightarrow> 'h heap_ops \<Rightarrow> ('h, 'r) practice \<Rightarrow> ('h, 'r) practice" where
  "handler ro ho s =
     (case h1_at s of
        H1Alloc \<Rightarrow> (case malloc ho (heap s) of
          (None, h) \<Rightarrow> s\<lparr>heap := h, h1_at := H1Fault\<rparr>
        | (Some data, h) \<Rightarrow> s\<lparr>heap := h, ints := (ints s)(data := 20), h1_at := H1Enq data\<rparr>)
      | H1Enq data \<Rightarrow> (case ring_ref s of
          None \<Rightarrow> s\<lparr>h1_at := H1Fault\<rparr>
        | Some r \<Rightarrow> s\<lparr>ring_ref := Some (snd (enqueue ro data r)), h1_at := H1Done\<rparr>)
      | _ \<Rightarrow> s)"

definition handler2 :: "(nat, 'r) ring_ops \<Rightarrow> ('h, 'r) practice \<Rightarrow> ('h, 'r) practice" where
  "handler2 ro s =
     (case h2_at s of
        H2Deq \<Rightarrow> (case ring_ref s of
          None \<Rightarrow> s\<lparr>h2_at := H2Fault\<rparr>
        | Some r \<Rightarrow> (case dequeue ro r of
            (None, r) \<Rightarrow> s\<lparr>ring_ref := Some r\<rparr>
          | (Some ptr, r) \<Rightarrow> s\<lparr>ring_ref := Some r, h2_at := H2Got ptr\<rparr>))
      | H2Got val \<Rightarrow> s\<lparr>seen := seen s @ [ints s val], h2_at := H2Done\<rparr>
      | _ \<Rightarrow> s)"

definition practice_main :: "('h, 'r) practice \<Rightarrow> ('h, 'r) practice" where
  "practice_main s = (if h1_at s = H1Done then s\<lparr>ring_ref := None\<rparr> else s)"

fun practice_step :: "(nat, 'r) ring_ops \<Rightarrow> 'h heap_ops \<Rightarrow> practice_actor \<Rightarrow> ('h, 'r) practice \<Rightarrow> ('h, 'r) practice" where
  "practice_step ro ho Lcore1 = handler ro ho"
| "practice_step ro ho Lcore2 = handler2 ro"
| "practice_step ro ho Main = practice_main"

definition practice_start :: "'h \<Rightarrow> 'r \<Rightarrow> ('h, 'r) practice" where
  "practice_start h r =
     \<lparr>heap = h, ints = (\<lambda>_. 0), ring_ref = Some r, seen = [], h1_at = H1Alloc, h2_at = H2Deq\<rparr>"

definition practice_inv ::
    "('r \<Rightarrow> nat list) \<Rightarrow> ('h \<Rightarrow> nat set) \<Rightarrow> nat set \<Rightarrow> ('h, 'r) practice \<Rightarrow> bool" where
  "practice_inv contents used U s \<longleftrightarrow>
     (case h1_at s of
        H1Alloc \<Rightarrow> h2_at s = H2Deq \<and> seen s = [] \<and> used (heap s) = U \<and> (\<exists>r. ring_ref s = Some r \<and> contents r = [])
      | H1Fault \<Rightarrow> h2_at s = H2Deq \<and> seen s = [] \<and> used (heap s) = U \<and> (\<exists>r. ring_ref s = Some r \<and> contents r = [])
      | H1Enq a \<Rightarrow> h2_at s = H2Deq \<and> seen s = [] \<and> a \<notin> U \<and> used (heap s) = insert a U \<and> ints s a = 20 \<and>
          (\<exists>r. ring_ref s = Some r \<and> contents r = [])
      | H1Done \<Rightarrow> (\<exists>a. a \<notin> U \<and> used (heap s) = insert a U \<and> ints s a = 20 \<and>
          (\<forall>r. ring_ref s = Some r \<longrightarrow> set (contents r) \<subseteq> {a}) \<and>
          (case h2_at s of
             H2Deq \<Rightarrow> seen s = []
           | H2Got b \<Rightarrow> b = a \<and> seen s = []
           | H2Done \<Rightarrow> seen s = [20]
           | H2Fault \<Rightarrow> seen s = [] \<and> ring_ref s = None)))"

context ring_heap
begin

lemma practice_keeps:
  assumes "practice_inv contents used U s"
  shows "practice_inv contents used U (practice_step ro ho p s)"
proof (cases p)
  case Lcore1
  then show ?thesis
    using assms malloc[of "heap s"]
    by (auto simp: handler_def practice_inv_def enqueue_result split: h1_pc.splits option.splits prod.splits)
next
  case Lcore2
  show ?thesis
  proof (cases "h2_at s")
    case H2Deq
    show ?thesis
    proof (cases "ring_ref s")
      case None
      then show ?thesis
        using Lcore2 H2Deq assms by (auto simp: handler2_def practice_inv_def split: h1_pc.splits)
    next
      case (Some r)
      obtain y r' where d: "dequeue ro r = (y, r')" by fastforce
      then have "contents r = (case y of None \<Rightarrow> [] | Some x \<Rightarrow> x # contents r')" "y = None \<Longrightarrow> contents r' = []"
        using deq[OF d] by (auto split: option.splits)
      then show ?thesis
        using Lcore2 H2Deq Some d assms
        by (cases y) (auto simp: handler2_def practice_inv_def split: h1_pc.splits)
    qed
  qed (use Lcore2 assms in \<open>auto simp: handler2_def practice_inv_def split: h1_pc.splits\<close>)
next
  case Main
  then show ?thesis
    using assms by (auto simp: practice_main_def practice_inv_def split: h1_pc.splits h2_pc.splits)
qed

lemma practice_uses_freed_ring:
  assumes "\<forall>h. fst (malloc ho h) \<noteq> None"
  shows "\<exists>ps. h2_at (fold (practice_step ro ho) ps (practice_start h r)) = H2Fault"
proof -
  obtain a h' where "malloc ho h = (Some a, h')"
    using assms by (metis not_None_eq prod.exhaust_sel)
  then show ?thesis
    by (intro exI[of _ "[Lcore1, Lcore1, Main, Lcore2]"])
      (simp add: practice_start_def handler_def practice_main_def handler2_def)
qed

end

lemma practice_inv_sound:
  assumes "practice_inv contents used U s"
  shows "seen s = [] \<or> seen s = [20]" "h1_at s = H1Done \<Longrightarrow> U \<subset> used (heap s)"
    "h2_at s = H2Fault \<Longrightarrow> ring_ref s = None"
  using assms by (cases "h1_at s"; cases "h2_at s"; auto simp: practice_inv_def)+

text \<open>
  \<open>practice/ring.c\<close>, for any ring and heap: in whatever order the lcores run,
  \<open>handler2\<close> prints 20 at most once and nothing else, and the block of the message is never
  freed. \<open>main\<close> does not wait for lcore 2: there is a run in which \<open>handler2\<close> uses the ring
  after it has been freed, and this happens only then.
\<close>

theorem practice_ring:
  assumes "ring_heap ro contents cap ho used" and "contents r = []" and "\<forall>h. fst (malloc ho h) \<noteq> None"
  shows "(\<exists>s. fold (practice_step ro ho) ps (practice_start h r) = s \<and> (seen s = [] \<or> seen s = [20]) \<and>
      (h1_at s = H1Done \<longrightarrow> used h \<subset> used (heap s)) \<and> (h2_at s = H2Fault \<longrightarrow> ring_ref s = None)) \<and>
    (\<exists>ps. h2_at (fold (practice_step ro ho) ps (practice_start h r)) = H2Fault)"
proof (intro conjI)
  let ?s = "fold (practice_step ro ho) ps (practice_start h r)"
  have "practice_inv contents used (used h) ?s"
    by (rule fold_invariant[where I = "practice_inv contents used (used h)"])
      (erule ring_heap.practice_keeps[OF assms(1)], simp add: practice_inv_def practice_start_def assms(2))
  then show "\<exists>s. ?s = s \<and> (seen s = [] \<or> seen s = [20]) \<and>
      (h1_at s = H1Done \<longrightarrow> used h \<subset> used (heap s)) \<and> (h2_at s = H2Fault \<longrightarrow> ring_ref s = None)"
    by (intro exI[of _ ?s] conjI refl) (simp_all add: practice_inv_sound)
  show "\<exists>ps. h2_at (fold (practice_step ro ho) ps (practice_start h r)) = H2Fault"
    by (rule ring_heap.practice_uses_freed_ring[OF assms(1,3)])
qed

theorem practice_ring_witness:
  "\<exists>ps. h2_at (fold (practice_step fifo_ring list_heap) ps (practice_start [] (new_ring 1024))) = H2Fault"
proof -
  have r: "snd (new_ring 1024 :: nat fifo) = []" by (simp add: new_ring_def)
  have "\<forall>h. fst (malloc list_heap h) \<noteq> None" by (simp add: list_heap_never_full)
  from practice_ring[OF fifo_list.ring_heap_axioms r this] show ?thesis by blast
qed

end
