(* ===== verification/Handshake.thy ===== *)
theory Handshake
  imports Processes
begin

text \<open>
  \<open>inter_process_comm/Multi_Process_Messaging\<close>: the primary asks over the message channel of
  the library whether the secondary is there, and sends five integers over a ring once it
  has the answer. \<open>rte_mp_sendmsg\<close> and the thread that calls the registered handlers are not
  under src/. What the code relies on: a message is delivered, after a while, to the handler
  registered for its name by the other process, and is dropped if there is none yet. The
  counters are the messages not yet delivered; \<open>CallbackP\<close> and \<open>CallbackS\<close> deliver one.
\<close>

datatype mp_actor = MainP | MainS | CallbackP | CallbackS

datatype mpp_pc = MpCreate | MpRegister | MpTest | MpSend | MpData nat | MpDone | MpFailed

datatype mps_pc = MsRegister | MsLookup | MsPoll

text \<open>\<open>data\<close> is the ring of the integers, sent as pointers; \<open>None\<close> before it exists.\<close>

record 'r mp_state =
  data :: "'r option"
  checks :: nat
  replies :: nat
  ready_registered :: bool
  check_registered :: bool
  secondary_ready :: bool
  received :: "int list"
  mpp_at :: mpp_pc
  mps_at :: mps_pc

text \<open>
  The primary. \<open>new\<close> is what \<open>rte_ring_create\<close> returns. Once the first loop has ended the
  test of the second, the same condition, is false, so that it has no step of its own.
\<close>

definition mp_primary :: "(int, 'r) ring_ops \<Rightarrow> 'r option \<Rightarrow> 'r mp_state \<Rightarrow> 'r mp_state" where
  "mp_primary ro new s =
     (case mpp_at s of
        MpCreate \<Rightarrow> (case new of None \<Rightarrow> s\<lparr>mpp_at := MpFailed\<rparr> | Some r \<Rightarrow> s\<lparr>data := Some r, mpp_at := MpRegister\<rparr>)
      | MpRegister \<Rightarrow> s\<lparr>ready_registered := True, mpp_at := MpTest\<rparr>
      | MpTest \<Rightarrow> s\<lparr>mpp_at := if secondary_ready s then MpData 0 else MpSend\<rparr>
      | MpSend \<Rightarrow> s\<lparr>checks := checks s + 1, mpp_at := MpTest\<rparr>
      | MpData i \<Rightarrow>
          if i < 5 then s\<lparr>data := map_option (\<lambda>r. snd (enqueue ro (int i) r)) (data s), mpp_at := MpData (Suc i)\<rparr>
          else s\<lparr>mpp_at := MpDone\<rparr>
      | _ \<Rightarrow> s)"

definition ready_cb :: "'r mp_state \<Rightarrow> 'r mp_state" where
  "ready_cb s = s\<lparr>secondary_ready := True\<rparr>"

definition check_cb :: "'r mp_state \<Rightarrow> 'r mp_state" where
  "check_cb s = s\<lparr>replies := replies s + 1\<rparr>"

definition mp_secondary :: "(int, 'r) ring_ops \<Rightarrow> 'r mp_state \<Rightarrow> 'r mp_state" where
  "mp_secondary ro s =
     (case mps_at s of
        MsRegister \<Rightarrow> s\<lparr>check_registered := True, mps_at := MsLookup\<rparr>
      | MsLookup \<Rightarrow> (case data s of None \<Rightarrow> s | Some r \<Rightarrow> s\<lparr>mps_at := MsPoll\<rparr>)
      | MsPoll \<Rightarrow> (case data s of None \<Rightarrow> s | Some r \<Rightarrow> (case dequeue ro r of
            (None, r) \<Rightarrow> s\<lparr>data := Some r\<rparr>
          | (Some x, r) \<Rightarrow> s\<lparr>data := Some r, received := received s @ [x]\<rparr>)))"

fun mp_step :: "(int, 'r) ring_ops \<Rightarrow> 'r option \<Rightarrow> mp_actor \<Rightarrow> 'r mp_state \<Rightarrow> 'r mp_state" where
  "mp_step ro new MainP s = mp_primary ro new s"
| "mp_step ro new MainS s = mp_secondary ro s"
| "mp_step ro new CallbackP s = (if replies s = 0 then s
     else if ready_registered s then ready_cb (s\<lparr>replies := replies s - 1\<rparr>)
     else s\<lparr>replies := replies s - 1\<rparr>)"
| "mp_step ro new CallbackS s = (if checks s = 0 then s
     else if check_registered s then check_cb (s\<lparr>checks := checks s - 1\<rparr>)
     else s\<lparr>checks := checks s - 1\<rparr>)"

definition mp_start :: "'r mp_state" where
  "mp_start = \<lparr>data = None, checks = 0, replies = 0, ready_registered = False, check_registered = False,
     secondary_ready = False, received = [], mpp_at = MpCreate, mps_at = MsRegister\<rparr>"

text \<open>
  No integer is sent before the secondary has answered, and none is lost: the ring has room
  for all five.
\<close>

fun integers_sent :: "mpp_pc \<Rightarrow> nat" where
  "integers_sent (MpData i) = i" | "integers_sent MpDone = 5" | "integers_sent _ = 0"

definition mp_inv :: "('r \<Rightarrow> int list) \<Rightarrow> ('r \<Rightarrow> nat) \<Rightarrow> 'r mp_state \<Rightarrow> bool" where
  "mp_inv contents cap s \<longleftrightarrow>
     (check_registered s \<longleftrightarrow> mps_at s \<noteq> MsRegister) \<and>
     (0 < replies s \<or> secondary_ready s \<longrightarrow> check_registered s) \<and>
     (ready_registered s \<longleftrightarrow> mpp_at s \<notin> {MpCreate, MpRegister, MpFailed}) \<and>
     (mpp_at s \<in> {MpCreate, MpRegister, MpFailed} \<longrightarrow> checks s = 0 \<and> replies s = 0 \<and> \<not> secondary_ready s) \<and>
     (mps_at s = MsPoll \<longrightarrow> data s \<noteq> None) \<and>
     (case data s of
        None \<Rightarrow> mpp_at s \<in> {MpCreate, MpFailed} \<and> received s = []
      | Some r \<Rightarrow> mpp_at s \<notin> {MpCreate, MpFailed} \<and> 5 \<le> cap r \<and>
          (\<exists>k\<le>5. received s @ contents r = map int [0..<k] \<and>
            (secondary_ready s \<or> k = 0 \<and> mpp_at s \<notin> {MpDone} \<union> range MpData) \<and> integers_sent (mpp_at s) = k))"

lemma sends_when_ready:
  assumes "mp_inv contents cap s"
  shows "mpp_at s = MpData i \<Longrightarrow> secondary_ready s" "mpp_at s = MpDone \<Longrightarrow> secondary_ready s"
  using assms by (auto simp: mp_inv_def split: option.splits)

lemma mp_received:
  assumes "mp_inv contents cap s"
  shows "\<exists>k\<le>5. received s = map int [0..<k]"
proof (cases "data s")
  case None
  then show ?thesis using assms by (intro exI[of _ 0]) (simp add: mp_inv_def)
next
  case (Some r)
  then obtain k where k: "k \<le> 5" "received s @ contents r = map int [0..<k]"
    using assms by (auto simp: mp_inv_def)
  have "length (received s) \<le> 5" using k(1) arg_cong[OF k(2), of length] by simp
  with map_upt_prefix[OF k(2)] show ?thesis by blast
qed

lemma mp_step_not_failed: "mpp_at s \<noteq> MpFailed \<Longrightarrow> mpp_at (mp_step ro (Some r) p s) \<noteq> MpFailed"
  by (cases p) (auto simp: mp_primary_def mp_secondary_def ready_cb_def check_cb_def
      split: mpp_pc.splits mps_pc.splits option.splits prod.splits)

definition mp_final :: "('r \<Rightarrow> int list) \<Rightarrow> 'r mp_state \<Rightarrow> bool" where
  "mp_final contents s \<longleftrightarrow> mpp_at s = MpFailed \<or>
     mpp_at s = MpDone \<and> mps_at s = MsPoll \<and> (\<exists>r. data s = Some r \<and> contents r = [])"

text \<open>
  The stages before the answer: the primary sets up, the secondary registers, a check is
  sent, delivered, answered and the answer delivered.
\<close>

definition mp_mover :: "'r mp_state \<Rightarrow> mp_actor" where
  "mp_mover s =
     (if mpp_at s \<in> {MpCreate, MpRegister} then MainP
      else if secondary_ready s then (if mpp_at s = MpDone then MainS else MainP)
      else if \<not> check_registered s then MainS
      else if 0 < replies s then CallbackP
      else if 0 < checks s then CallbackS
      else MainP)"

definition mp_mu :: "('r \<Rightarrow> int list) \<Rightarrow> 'r mp_state \<Rightarrow> nat" where
  "mp_mu contents s =
     (case mps_at s of MsRegister \<Rightarrow> 2 | MsLookup \<Rightarrow> 1 | MsPoll \<Rightarrow> 0) +
     (case data s of None \<Rightarrow> 0 | Some r \<Rightarrow> length (contents r)) +
     (case mpp_at s of
        MpCreate \<Rightarrow> 102 | MpRegister \<Rightarrow> 101 | MpData i \<Rightarrow> 2 * (5 - i) + 1 | MpDone \<Rightarrow> 0 | MpFailed \<Rightarrow> 0
      | pc \<Rightarrow>
          if secondary_ready s then (if pc = MpTest then 12 else 13)
          else if \<not> check_registered s then 60
          else if 0 < replies s then 20
          else if 0 < checks s then 30
          else if pc = MpTest then 41 else 40)"

locale int_ring = ring_ok ro contents cap
  for ro :: "(int, 'r) ring_ops" and contents cap
begin

lemma dequeue_cases:
  assumes "dequeue ro r = (y, r')"
  shows "cap r' = cap r" "y = None \<Longrightarrow> contents r = [] \<and> contents r' = []"
    "y = Some x \<Longrightarrow> contents r = x # contents r'"
  using deq[OF assms] by (auto split: option.splits)

lemma mp_primary_keeps:
  assumes "mp_inv contents cap s" and "\<And>r. new = Some r \<Longrightarrow> 5 \<le> cap r \<and> contents r = []"
  shows "mp_inv contents cap (mp_primary ro new s)"
proof (cases "mpp_at s")
  case (MpData i)
  show ?thesis
  proof (cases "i < 5")
    case True
    from MpData assms(1) obtain r where r: "data s = Some r" "5 \<le> cap r"
        "received s @ contents r = map int [0..<i]"
      by (auto simp: mp_inv_def split: option.splits)
    have "length (contents r) < cap r" using arg_cong[OF r(3), of length] r(2) True by simp
    then show ?thesis
      using MpData True assms(1) r by (auto simp: mp_primary_def mp_inv_def enqueue_result)
  next
    case False
    then show ?thesis
      using MpData assms(1) by (auto simp: mp_primary_def mp_inv_def split: option.splits)
  qed
qed (use assms in \<open>auto simp: mp_primary_def mp_inv_def split: option.splits\<close>)

lemma mp_secondary_keeps:
  assumes "mp_inv contents cap s"
  shows "mp_inv contents cap (mp_secondary ro s)"
proof (cases "mps_at s")
  case MsPoll
  then obtain r where r: "data s = Some r" using assms by (auto simp: mp_inv_def)
  show ?thesis
  proof (cases "dequeue ro r")
    case (Pair y r')
    then show ?thesis
      using MsPoll assms r dequeue_cases[OF Pair]
      by (cases y) (auto simp: mp_secondary_def mp_inv_def)
  qed
qed (use assms in \<open>auto simp: mp_secondary_def mp_inv_def split: option.splits\<close>)

lemma mp_keeps:
  assumes "mp_inv contents cap s" and "\<And>r. new = Some r \<Longrightarrow> 5 \<le> cap r \<and> contents r = []"
  shows "mp_inv contents cap (mp_step ro new p s)"
proof (cases p)
  case CallbackP
  then show ?thesis
    using assms(1) by (auto simp: mp_inv_def ready_cb_def split: option.splits)
next
  case CallbackS
  then show ?thesis
    using assms(1) by (auto simp: mp_inv_def check_cb_def split: option.splits)
next
  case MainP
  then show ?thesis using mp_primary_keeps[OF assms] by simp
next
  case MainS
  then show ?thesis using mp_secondary_keeps[OF assms(1)] by simp
qed

lemma mp_primary_mu:
  assumes "mp_inv contents cap s" and "\<not> mp_final contents s" and "\<And>r. new = Some r \<Longrightarrow> contents r = []"
  shows "(mp_mover s = MainP \<longrightarrow> mp_mu contents (mp_primary ro new s) < mp_mu contents s) \<and>
    (mp_mover s \<noteq> MainP \<longrightarrow> mp_mu contents (mp_primary ro new s) = mp_mu contents s \<and>
      mp_mover (mp_primary ro new s) = mp_mover s)"
proof (cases "mpp_at s")
  case MpCreate
  then show ?thesis
    using assms by (cases new) (auto simp: mp_primary_def mp_mu_def mp_mover_def mp_inv_def split: option.splits)
next
  case (MpData i)
  then obtain r where "data s = Some r" "i \<le> 5" "secondary_ready s"
    using assms(1) by (auto simp: mp_inv_def split: option.splits)
  then show ?thesis
    using MpData by (auto simp: mp_primary_def mp_mu_def mp_mover_def enqueue_result)
next
  case MpFailed
  then show ?thesis using assms(2) by (simp add: mp_final_def)
qed (use assms(1) in \<open>auto simp: mp_primary_def mp_mu_def mp_mover_def mp_inv_def split: option.splits\<close>)

lemma mp_secondary_mu:
  assumes "mp_inv contents cap s" and "\<not> mp_final contents s"
  shows "mp_mu contents (mp_secondary ro s) < mp_mu contents s \<or>
    mp_mover s \<noteq> MainS \<and> mp_mu contents (mp_secondary ro s) = mp_mu contents s \<and>
    mp_mover (mp_secondary ro s) = mp_mover s"
proof (cases "mps_at s")
  case MsRegister
  then show ?thesis
    using assms by (cases "mpp_at s") (auto simp: mp_secondary_def mp_mu_def mp_inv_def split: option.splits)
next
  case MsLookup
  then show ?thesis
    using assms by (cases "mpp_at s"; cases "data s")
      (auto simp: mp_secondary_def mp_mu_def mp_mover_def mp_inv_def)
next
  case MsPoll
  then obtain r where r: "data s = Some r" using assms(1) by (auto simp: mp_inv_def)
  show ?thesis
  proof (cases "dequeue ro r")
    case (Pair y r')
    then show ?thesis
      using MsPoll assms r dequeue_cases[OF Pair]
      by (cases y) (auto simp: mp_secondary_def mp_mu_def mp_mover_def mp_inv_def mp_final_def split: if_splits)
  qed
qed

lemma mp_callbacks_mu:
  assumes "mp_inv contents cap s" and "\<not> mp_final contents s" and "p \<in> {CallbackP, CallbackS}"
  shows "(mp_mover s = p \<longrightarrow> mp_mu contents (mp_step ro new p s) < mp_mu contents s) \<and>
    (mp_mover s \<noteq> p \<longrightarrow> mp_mu contents (mp_step ro new p s) = mp_mu contents s \<and>
      mp_mover (mp_step ro new p s) = mp_mover s)"
proof (cases "p = CallbackP")
  case True
  then show ?thesis
    using assms sends_when_ready[OF assms(1)] by (cases "mpp_at s") (auto simp: ready_cb_def mp_mu_def mp_mover_def mp_inv_def mp_final_def)
next
  case False
  then show ?thesis
    using assms sends_when_ready[OF assms(1)] by (cases "mpp_at s") (auto simp: check_cb_def mp_mu_def mp_mover_def mp_inv_def mp_final_def)
qed

lemma mp_step_mu:
  assumes "mp_inv contents cap s" and "\<not> mp_final contents s" and "\<And>r. new = Some r \<Longrightarrow> contents r = []"
  shows "mp_mu contents (mp_step ro new p s) < mp_mu contents s \<or>
    mp_mover s \<noteq> p \<and> mp_mu contents (mp_step ro new p s) = mp_mu contents s \<and>
      mp_mover (mp_step ro new p s) = mp_mover s"
proof (cases p)
  case MainP
  then show ?thesis using mp_primary_mu[of s new] assms unfolding mp_step.simps MainP by blast
next
  case MainS
  then show ?thesis using mp_secondary_mu[OF assms(1,2)] unfolding mp_step.simps MainS by blast
next
  case CallbackP
  then show ?thesis using mp_callbacks_mu[OF assms(1,2), of p new] by blast
next
  case CallbackS
  then show ?thesis using mp_callbacks_mu[OF assms(1,2), of p new] by blast
qed

lemma mp_progress:
  assumes "\<And>r. new = Some r \<Longrightarrow> 5 \<le> cap r \<and> contents r = []"
  shows "fair_progress (mp_step ro new) (mp_inv contents cap) (mp_final contents) (mp_mu contents) mp_mover"
  by unfold_locales (use mp_keeps assms mp_step_mu[of _ new] in \<open>blast+\<close>)

end

interpretation int_fifo: int_ring fifo_ring snd fst
  by unfold_locales


definition round_robin :: "nat \<Rightarrow> mp_actor" where
  "round_robin n = [MainP, MainS, CallbackP, CallbackS] ! (n mod 4)"

lemma round_robin_fair: "fair round_robin"
  unfolding fair_def
proof (intro allI)
  fix p and n :: nat
  have "round_robin (4 * n + k) = [MainP, MainS, CallbackP, CallbackS] ! (k mod 4)" for k
    by (simp add: round_robin_def)
  from this[of 0] this[of 1] this[of 2] this[of 3]
  have "round_robin (4 * n) = MainP" "round_robin (4 * n + 1) = MainS"
    "round_robin (4 * n + 2) = CallbackP" "round_robin (4 * n + 3) = CallbackS"
    by simp_all
  moreover have "n \<le> 4 * n" "n \<le> 4 * n + 1" "n \<le> 4 * n + 2" "n \<le> 4 * n + 3" by simp_all
  ultimately show "\<exists>m\<ge>n. round_robin m = p" by (cases p) blast+
qed


end
