(* ===== verification/MbufOps.thy ===== *)
theory MbufOps
  imports Prelude
begin

text \<open>
  The programs that grow and shrink packet buffers: \<open>mempool_membuff\<close> and \<open>packet_change\<close>.
  \<open>struct rte_mbuf\<close> is the record \<open>rte_mbuf\<close>, a single segment: the buffer, and where the
  data lie in it. The library's operations are not under src/: they are the fields of the
  argument \<open>mo\<close>, named without \<open>rte_pktmbuf_\<close>, with their documented behaviour as the
  locale \<open>mbuf_ok\<close>. A pointer into the buffer is an offset.
\<close>

record rte_mbuf =
  buf :: "u8 list"
  data_off :: nat
  data_len :: nat
  pkt_len :: nat

record mbuf_ops =
  headroom :: "rte_mbuf \<Rightarrow> nat"
  tailroom :: "rte_mbuf \<Rightarrow> nat"
  append :: "nat \<Rightarrow> rte_mbuf \<Rightarrow> nat option \<times> rte_mbuf"
  prepend :: "nat \<Rightarrow> rte_mbuf \<Rightarrow> nat option \<times> rte_mbuf"
  adj :: "nat \<Rightarrow> rte_mbuf \<Rightarrow> nat option \<times> rte_mbuf"
  trim :: "nat \<Rightarrow> rte_mbuf \<Rightarrow> bool \<times> rte_mbuf"

text \<open>The data of a packet; \<open>mbuf_wf\<close> is the type invariant of the structure.\<close>

definition payload :: "rte_mbuf \<Rightarrow> u8 list" where
  "payload m = take (data_len m) (drop (data_off m) (buf m))"

definition mbuf_wf :: "rte_mbuf \<Rightarrow> bool" where
  "mbuf_wf m \<longleftrightarrow> data_off m + data_len m \<le> length (buf m) \<and> pkt_len m = data_len m"

locale mbuf_ok =
  fixes mo :: mbuf_ops
  assumes headroom: "headroom mo m = data_off m"
    and tailroom: "mbuf_wf m \<Longrightarrow> tailroom mo m = length (buf m) - data_off m - data_len m"
    and append: "mbuf_wf m \<Longrightarrow> append mo n m =
      (if n \<le> length (buf m) - data_off m - data_len m
       then (Some (data_off m + data_len m), m\<lparr>data_len := data_len m + n, pkt_len := pkt_len m + n\<rparr>)
       else (None, m))"
    and prepend: "prepend mo n m =
      (if n \<le> data_off m
       then (Some (data_off m - n), m\<lparr>data_off := data_off m - n, data_len := data_len m + n, pkt_len := pkt_len m + n\<rparr>)
       else (None, m))"
    and adj: "adj mo n m =
      (if n \<le> data_len m
       then (Some (data_off m + n), m\<lparr>data_off := data_off m + n, data_len := data_len m - n, pkt_len := pkt_len m - n\<rparr>)
       else (None, m))"
    and trim: "trim mo n m =
      (if n \<le> data_len m then (True, m\<lparr>data_len := data_len m - n, pkt_len := pkt_len m - n\<rparr>) else (False, m))"

definition plain_mbuf :: mbuf_ops where
  "plain_mbuf =
     \<lparr>headroom = data_off, tailroom = (\<lambda>m. length (buf m) - data_off m - data_len m),
      append = (\<lambda>n m. if n \<le> length (buf m) - data_off m - data_len m
        then (Some (data_off m + data_len m), m\<lparr>data_len := data_len m + n, pkt_len := pkt_len m + n\<rparr>)
        else (None, m)),
      prepend = (\<lambda>n m. if n \<le> data_off m
        then (Some (data_off m - n), m\<lparr>data_off := data_off m - n, data_len := data_len m + n, pkt_len := pkt_len m + n\<rparr>)
        else (None, m)),
      adj = (\<lambda>n m. if n \<le> data_len m
        then (Some (data_off m + n), m\<lparr>data_off := data_off m + n, data_len := data_len m - n, pkt_len := pkt_len m - n\<rparr>)
        else (None, m)),
      trim = (\<lambda>n m. if n \<le> data_len m
        then (True, m\<lparr>data_len := data_len m - n, pkt_len := pkt_len m - n\<rparr>) else (False, m))\<rparr>"

interpretation plain_mbuf: mbuf_ok plain_mbuf
  by unfold_locales (simp_all add: plain_mbuf_def)

subsection \<open>The programs\<close>

text \<open>\<open>memcpy\<close> and \<open>memset\<close> into the buffer.\<close>

definition write_at :: "nat \<Rightarrow> u8 list \<Rightarrow> rte_mbuf \<Rightarrow> rte_mbuf" where
  "write_at i bs m = m\<lparr>buf := take i (buf m) @ bs @ drop (i + length bs) (buf m)\<rparr>"

text \<open>The five numbers printed after each operation.\<close>

definition mbuf_state :: "mbuf_ops \<Rightarrow> rte_mbuf \<Rightarrow> nat \<times> nat \<times> nat \<times> nat \<times> nat" where
  "mbuf_state mo m = (data_off m, data_len m, pkt_len m, headroom mo m, tailroom mo m)"

text \<open>A C string with its terminator.\<close>

definition c_string :: "string \<Rightarrow> u8 list" where
  "c_string s = map of_char s @ [0]"

datatype mbuf_exit = AppendFailed

text \<open>\<open>operations\<close> of \<open>packet_change\<close>: \<open>Inl\<close> is \<open>rte_exit\<close>.\<close>

definition operations ::
    "mbuf_ops \<Rightarrow> rte_mbuf \<Rightarrow> mbuf_exit + (nat \<times> nat \<times> nat \<times> nat \<times> nat) list \<times> rte_mbuf" where
  "operations mo m0 =
     (let msg = c_string ''DPDK-MBUF'';
          len = length ''DPDK-MBUF'' + 1
      in case append mo len m0 of
        (None, _) \<Rightarrow> Inl AppendFailed
      | (Some data, m1) \<Rightarrow>
          let m1 = write_at data msg m1;
              (hdr, m2) = prepend mo 10 m1;
              m2 = (case hdr of None \<Rightarrow> m2 | Some h \<Rightarrow> write_at h (replicate 10 (of_char CHR ''H'')) m2);
              m3 = snd (adj mo 5 m2);
              m4 = snd (trim mo 4 m3)
          in Inr (map (mbuf_state mo) [m0, m1, m2, m3, m4], m4))"

text \<open>
  \<open>append_prependops.c\<close> does the same to a fresh buffer and frees it. \<open>fresh\<close> is what
  \<open>rte_pktmbuf_alloc\<close> returns, \<open>frees\<close> counts the calls of \<open>rte_pktmbuf_free\<close>.
\<close>

datatype sample_exit = NoBuffer | NoRoom

definition append_prepend_main ::
    "mbuf_ops \<Rightarrow> rte_mbuf option \<Rightarrow> sample_exit + (nat \<times> nat \<times> nat \<times> nat \<times> nat) list \<times> nat" where
  "append_prepend_main mo fresh =
     (case fresh of
        None \<Rightarrow> Inl NoBuffer
      | Some m0 \<Rightarrow>
          let msg = c_string ''DPDK-MBUF'';
              len = length ''DPDK-MBUF'' + 1
          in case append mo len m0 of
            (None, _) \<Rightarrow> Inl NoRoom
          | (Some data, m1) \<Rightarrow>
              let m1 = write_at data msg m1;
                  (hdr, m2) = prepend mo 10 m1;
                  m2 = (case hdr of None \<Rightarrow> m2 | Some h \<Rightarrow> write_at h (replicate 10 (of_char CHR ''H'')) m2);
                  m3 = snd (adj mo 5 m2);
                  m4 = snd (trim mo 4 m3)
              in Inr (map (mbuf_state mo) [m0, m1, m2, m3, m4], 1))"

text \<open>\<open>simple.c\<close>: what \<open>printf\<close> reads at the two pointers.\<close>

definition string_at :: "rte_mbuf \<Rightarrow> nat \<Rightarrow> u8 list" where
  "string_at m i = takeWhile (\<lambda>b. b \<noteq> 0) (drop i (buf m))"

definition simple_main :: "mbuf_ops \<Rightarrow> rte_mbuf option \<Rightarrow> sample_exit + u8 list \<times> u8 list" where
  "simple_main mo fresh =
     (case fresh of
        None \<Rightarrow> Inl NoBuffer
      | Some m \<Rightarrow>
          let msg = c_string ''Hello from DPDK mbuf!'';
              len = length ''Hello from DPDK mbuf!'' + 1
          in case append mo len m of
            (None, _) \<Rightarrow> Inl NoRoom
          | (Some data, m) \<Rightarrow>
              let m = write_at data msg m;
                  ptr = data_off m
              in Inr (string_at m data, string_at m ptr))"

text \<open>
  A round of \<open>packet_change\<close> over the burst received, each buffer with its number:
  \<open>parser\<close> prints the length and the addresses, \<open>operations\<close> the five states, and the buffer
  is freed. \<open>done_with\<close> are the buffers freed, \<open>exited\<close> whether \<open>rte_exit\<close> was called.
\<close>

record change_state =
  lengths :: "nat list"
  macs :: "(u8 list \<times> u8 list) list"
  states :: "(nat \<times> nat \<times> nat \<times> nat \<times> nat) list list"
  done_with :: "nat list"
  exited :: bool

definition parser :: "rte_mbuf \<Rightarrow> change_state \<Rightarrow> change_state" where
  "parser m s =
     (let eth = drop (data_off m) (buf m)
      in s\<lparr>lengths := lengths s @ [pkt_len m], macs := macs s @ [(take 6 (drop 6 eth), take 6 eth)]\<rparr>)"

definition change_packet :: "mbuf_ops \<Rightarrow> nat \<times> rte_mbuf \<Rightarrow> change_state \<Rightarrow> change_state" where
  "change_packet mo = (\<lambda>(i, m) s.
     if exited s then s
     else let s = parser m s
       in case operations mo m of
         Inl _ \<Rightarrow> s\<lparr>exited := True\<rparr>
       | Inr (out, _) \<Rightarrow> s\<lparr>states := states s @ [out], done_with := done_with s @ [i]\<rparr>)"

definition change_pass :: "mbuf_ops \<Rightarrow> (nat \<times> rte_mbuf) list \<Rightarrow> change_state \<Rightarrow> change_state" where
  "change_pass mo rx s = (if rx = [] then s else fold (change_packet mo) rx s)"

subsection \<open>What the operations do\<close>

lemma length_c_string [simp]: "length (c_string s) = Suc (length s)"
  by (simp add: c_string_def)

lemma write_at_frame [simp]:
  "data_off (write_at i bs m) = data_off m" "data_len (write_at i bs m) = data_len m"
  "pkt_len (write_at i bs m) = pkt_len m"
  by (simp_all add: write_at_def)

lemma write_at_length [simp]: "i + length bs \<le> length (buf m) \<Longrightarrow> length (buf (write_at i bs m)) = length (buf m)"
  by (simp add: write_at_def)

lemma write_at_wf: "mbuf_wf m \<Longrightarrow> i + length bs \<le> length (buf m) \<Longrightarrow> mbuf_wf (write_at i bs m)"
  by (simp add: mbuf_wf_def)

lemma payload_length [simp]: "mbuf_wf m \<Longrightarrow> length (payload m) = data_len m"
  by (auto simp: payload_def mbuf_wf_def min_def)

lemma payload_append:
  assumes "mbuf_wf m" and "length bs \<le> length (buf m) - data_off m - data_len m"
    and "m' = write_at (data_off m + data_len m) bs
      (m\<lparr>data_len := data_len m + length bs, pkt_len := pkt_len m + length bs\<rparr>)"
  shows "payload m' = payload m @ bs" "mbuf_wf m'"
proof -
  show "mbuf_wf m'" using assms by (auto simp: mbuf_wf_def write_at_def)
  have "data_off m + data_len m + length bs \<le> length (buf m)" using assms by (auto simp: mbuf_wf_def)
  moreover from this have "bs = [] \<or> data_len m < length (buf m) - data_off m" by (cases bs) auto
  ultimately show "payload m' = payload m @ bs"
    by (auto simp: assms(3) payload_def write_at_def min_def drop_take)
qed

lemma payload_prepend:
  assumes "mbuf_wf m" and "length bs \<le> data_off m"
    and "m' = write_at (data_off m - length bs) bs (m\<lparr>data_off := data_off m - length bs,
      data_len := data_len m + length bs, pkt_len := pkt_len m + length bs\<rparr>)"
  shows "payload m' = bs @ payload m" "mbuf_wf m'"
proof -
  have "data_off m + data_len m \<le> length (buf m)" using assms by (simp add: mbuf_wf_def)
  then show "payload m' = bs @ payload m" "mbuf_wf m'"
    using assms(1,2) by (auto simp: assms(3) payload_def write_at_def min_def mbuf_wf_def)
qed

lemma payload_adj:
  assumes "mbuf_wf m" and "n \<le> data_len m"
    and "m' = m\<lparr>data_off := data_off m + n, data_len := data_len m - n, pkt_len := pkt_len m - n\<rparr>"
  shows "payload m' = drop n (payload m)" "mbuf_wf m'"
  using assms(1,2) by (auto simp: assms(3) payload_def mbuf_wf_def drop_take add.commute)

lemma payload_trim:
  assumes "mbuf_wf m" and "n \<le> data_len m" and "m' = m\<lparr>data_len := data_len m - n, pkt_len := pkt_len m - n\<rparr>"
  shows "payload m' = take (data_len m - n) (payload m)" "mbuf_wf m'"
  using assms(1,2) by (auto simp: assms(3) payload_def mbuf_wf_def min_def)

subsection \<open>Properties\<close>

text \<open>The message without its last four bytes, and five of the ten bytes of the header.\<close>

definition mbuf_tail :: "u8 list" where
  "mbuf_tail = map of_char ''DPDK-M''"

definition mbuf_header :: "u8 list" where
  "mbuf_header = replicate 5 (of_char CHR ''H'')"

definition room :: "rte_mbuf \<Rightarrow> nat" where
  "room m = length (buf m) - data_off m - data_len m"

text \<open>What is printed of a well-formed buffer of \<open>l\<close> bytes.\<close>

definition state_of :: "nat \<Rightarrow> nat \<Rightarrow> nat \<Rightarrow> nat \<times> nat \<times> nat \<times> nat \<times> nat" where
  "state_of l off len = (off, len, len, off, l - off - len)"

lemma strlen: "length ''DPDK-MBUF'' + 1 = (10 :: nat)"
  by simp

lemmas operations_ten = operations_def[unfolded strlen, unfolded Let_def]
lemmas main_ten = append_prepend_main_def[unfolded strlen, unfolded Let_def]

context mbuf_ok
begin

lemma state_eq: "mbuf_wf m \<Longrightarrow> mbuf_state mo m = state_of (length (buf m)) (data_off m) (data_len m)"
  by (simp add: mbuf_state_def state_of_def headroom tailroom mbuf_wf_def)

lemma append_write:
  assumes "mbuf_wf m" and "length bs \<le> room m"
  obtains d m1 where "append mo (length bs) m = (Some d, m1)" "mbuf_wf (write_at d bs m1)"
    "payload (write_at d bs m1) = payload m @ bs" "data_off (write_at d bs m1) = data_off m"
    "data_len (write_at d bs m1) = data_len m + length bs"
    "length (buf (write_at d bs m1)) = length (buf m)"
proof (rule that)
  let ?m1 = "m\<lparr>data_len := data_len m + length bs, pkt_len := pkt_len m + length bs\<rparr>"
  show "append mo (length bs) m = (Some (data_off m + data_len m), ?m1)"
    using append[OF assms(1), of "length bs"] assms(2) by (simp add: room_def)
  show "mbuf_wf (write_at (data_off m + data_len m) bs ?m1)"
    "payload (write_at (data_off m + data_len m) bs ?m1) = payload m @ bs"
    using payload_append[OF assms(1) _ refl] assms(2) by (simp_all add: room_def)
qed (use assms in \<open>auto simp: room_def mbuf_wf_def write_at_def\<close>)

lemma prepend_write:
  assumes "mbuf_wf m" and "length bs \<le> data_off m"
  obtains d m1 where "prepend mo (length bs) m = (Some d, m1)" "mbuf_wf (write_at d bs m1)"
    "payload (write_at d bs m1) = bs @ payload m" "data_off (write_at d bs m1) = data_off m - length bs"
    "data_len (write_at d bs m1) = data_len m + length bs"
    "length (buf (write_at d bs m1)) = length (buf m)"
proof (rule that)
  let ?m1 = "m\<lparr>data_off := data_off m - length bs, data_len := data_len m + length bs, pkt_len := pkt_len m + length bs\<rparr>"
  show "prepend mo (length bs) m = (Some (data_off m - length bs), ?m1)"
    using assms(2) by (simp add: prepend)
  show "mbuf_wf (write_at (data_off m - length bs) bs ?m1)"
    "payload (write_at (data_off m - length bs) bs ?m1) = bs @ payload m"
    using payload_prepend[OF assms refl] by simp_all
qed (use assms in \<open>auto simp: mbuf_wf_def write_at_def\<close>)

lemma adj_step:
  assumes "mbuf_wf m" and "n \<le> data_len m"
  shows "mbuf_wf (snd (adj mo n m))" "payload (snd (adj mo n m)) = drop n (payload m)"
    "data_off (snd (adj mo n m)) = data_off m + n" "data_len (snd (adj mo n m)) = data_len m - n"
    "buf (snd (adj mo n m)) = buf m"
  using payload_adj[OF assms refl] assms(2) by (simp_all add: adj)

lemma trim_step:
  assumes "mbuf_wf m" and "n \<le> data_len m"
  shows "mbuf_wf (snd (trim mo n m))" "payload (snd (trim mo n m)) = take (data_len m - n) (payload m)"
    "data_off (snd (trim mo n m)) = data_off m" "data_len (snd (trim mo n m)) = data_len m - n"
    "buf (snd (trim mo n m)) = buf m"
  using payload_trim[OF assms refl] assms(2) by (simp_all add: trim)

lemma adj_trim:
  assumes wf: "mbuf_wf m" and len: "9 \<le> data_len m"
  defines "m3 \<equiv> snd (adj mo 5 m)"
  defines "m4 \<equiv> snd (trim mo 4 m3)"
  shows "mbuf_wf m3" "mbuf_wf m4" "payload m4 = drop 5 (take (data_len m - 4) (payload m))"
    "data_off m3 = data_off m + 5" "data_len m3 = data_len m - 5"
    "data_off m4 = data_off m + 5" "data_len m4 = data_len m - 9"
    "length (buf m3) = length (buf m)" "length (buf m4) = length (buf m)"
proof -
  note a = adj_step[OF wf, of 5, folded m3_def]
  have 4: "4 \<le> data_len m3" using a len by simp
  note t = trim_step[OF a(1) 4, folded m4_def]
  show "mbuf_wf m3" "mbuf_wf m4" "payload m4 = drop 5 (take (data_len m - 4) (payload m))"
    "data_off m3 = data_off m + 5" "data_len m3 = data_len m - 5"
    "data_off m4 = data_off m + 5" "data_len m4 = data_len m - 9"
    "length (buf m3) = length (buf m)" "length (buf m4) = length (buf m)"
    using a t len by (simp_all add: drop_take)
qed

lemma message: "length (c_string ''DPDK-MBUF'') = 10" "take 6 (c_string ''DPDK-MBUF'') = mbuf_tail"
  "drop 5 (replicate 10 (of_char CHR ''H'') @ xs) = mbuf_header @ xs" "length mbuf_tail = 6"
  by (simp_all add: c_string_def mbuf_tail_def mbuf_header_def)

lemma operations_outcome:
  assumes wf: "mbuf_wf m"
  shows "if room m < 10 then operations mo m = Inl AppendFailed
    else \<exists>m'. mbuf_wf m' \<and> length (buf m') = length (buf m) \<and>
      (let st = state_of (length (buf m)); off = data_off m; len = data_len m
       in if 10 \<le> off
          then operations mo m = Inr ([st off len, st off (len + 10), st (off - 10) (len + 20),
              st (off - 5) (len + 15), st (off - 5) (len + 11)], m') \<and>
            payload m' = mbuf_header @ payload m @ mbuf_tail
          else operations mo m = Inr ([st off len, st off (len + 10), st off (len + 10),
              st (off + 5) (len + 5), st (off + 5) (len + 1)], m') \<and>
            payload m' = drop 5 (payload m @ mbuf_tail))"
proof (cases "room m < 10")
  case True
  then show ?thesis using append[OF wf, of 10] by (simp add: operations_ten room_def)
next
  case False
  note full = False
  let ?msg = "c_string ''DPDK-MBUF''" and ?hdr = "replicate 10 (of_char CHR ''H'') :: u8 list"
  obtain d m1 where d: "append mo 10 m = (Some d, m1)" and m1: "mbuf_wf (write_at d ?msg m1)"
      "payload (write_at d ?msg m1) = payload m @ ?msg" "data_off (write_at d ?msg m1) = data_off m"
      "data_len (write_at d ?msg m1) = data_len m + 10" "length (buf (write_at d ?msg m1)) = length (buf m)"
    using append_write[OF wf, of ?msg] False message(1) by (metis not_less)
  let ?m1 = "write_at d ?msg m1"
  show ?thesis
  proof (cases "10 \<le> data_off m")
    case True
    then have room10: "length ?hdr \<le> data_off ?m1" using m1 by simp
    obtain h m2 where h: "prepend mo (length ?hdr) ?m1 = (Some h, m2)" and m2: "mbuf_wf (write_at h ?hdr m2)"
        "payload (write_at h ?hdr m2) = ?hdr @ payload ?m1"
        "data_off (write_at h ?hdr m2) = data_off ?m1 - length ?hdr"
        "data_len (write_at h ?hdr m2) = data_len ?m1 + length ?hdr"
        "length (buf (write_at h ?hdr m2)) = length (buf ?m1)"
      by (rule prepend_write[OF m1(1) room10])
    let ?m2 = "write_at h ?hdr m2"
    have len: "9 \<le> data_len ?m2" using m2 by simp
    let ?m3 = "snd (adj mo 5 ?m2)" and ?m4 = "snd (trim mo 4 (snd (adj mo 5 ?m2)))"
    note m4 = adj_trim[OF m2(1) len]
    have "operations mo m = Inr (map (mbuf_state mo) [m, ?m1, ?m2, ?m3, ?m4], ?m4)"
      using d h by (simp add: operations_ten)
    moreover have "payload ?m4 = mbuf_header @ payload m @ mbuf_tail"
      using m4(3) m2(2,4) m1(2,4) wf message(2,3) by simp
    ultimately show ?thesis
      unfolding if_not_P[OF full] using True wf m1 m2 m4(1,2,4-) by (intro exI[of _ ?m4]) (simp add: state_eq Let_def add.commute)
  next
    case short: False
    then have h: "prepend mo 10 ?m1 = (None, ?m1)" using m1 by (simp add: prepend)
    have len: "9 \<le> data_len ?m1" using m1 by simp
    let ?m3 = "snd (adj mo 5 ?m1)" and ?m4 = "snd (trim mo 4 (snd (adj mo 5 ?m1)))"
    note m4 = adj_trim[OF m1(1) len]
    have "operations mo m = Inr (map (mbuf_state mo) [m, ?m1, ?m1, ?m3, ?m4], ?m4)"
      using d h by (simp add: operations_ten)
    moreover have "payload ?m4 = drop 5 (payload m @ mbuf_tail)"
      using m4(3) m1(2,4) wf message(2) by simp
    ultimately show ?thesis
      unfolding if_not_P[OF full] using short wf m1 m4(1,2,4-) by (intro exI[of _ ?m4]) (simp add: state_eq Let_def add.commute)
  qed
qed

end

text \<open>
  C29. \<open>operations\<close> of \<open>packet_change\<close>, for any library that keeps its contract: a well-formed
  buffer with fewer than ten bytes behind its data ends the program; any other is turned into
  a well-formed buffer of the same size, and the numbers printed at each of the five stages
  are consistent (the packet length is the data length, and headroom, data and tailroom fill
  the buffer). With ten bytes of headroom the data are then five H's, the old data and
  "DPDK-M"; with less, \<open>prepend\<close> fails and \<open>adj\<close> cuts five bytes off the packet itself.
\<close>

definition consistent_state :: "nat \<Rightarrow> nat \<times> nat \<times> nat \<times> nat \<times> nat \<Rightarrow> bool" where
  "consistent_state l = (\<lambda>(off, len, plen, head, tl). plen = len \<and> head = off \<and> head + len + tl = l)"

theorem mbuf_operations_typed:
  assumes "mbuf_ok mo" and "mbuf_wf m"
  shows "if length (buf m) < data_off m + data_len m + 10 then operations mo m = Inl AppendFailed
    else \<exists>out m'. operations mo m = Inr (out, m') \<and> mbuf_wf m' \<and> length (buf m') = length (buf m) \<and>
      length out = 5 \<and> list_all (consistent_state (length (buf m))) out \<and>
      payload m' = (if 10 \<le> data_off m then mbuf_header @ payload m @ mbuf_tail
        else drop 5 (payload m @ mbuf_tail))"
proof -
  have len: "data_off m + data_len m \<le> length (buf m)" using assms(2) by (simp add: mbuf_wf_def)
  then have room: "room m < 10 \<longleftrightarrow> length (buf m) < data_off m + data_len m + 10"
    by (auto simp: room_def)
  show ?thesis
    using mbuf_ok.operations_outcome[OF assms] len
    by (auto simp: room Let_def state_of_def consistent_state_def)
qed

definition plain_frame :: rte_mbuf where
  "plain_frame = \<lparr>buf = replicate 10 0 @ [1, 2, 3, 4] @ replicate 10 0, data_off = 10, data_len = 4, pkt_len = 4\<rparr>"

theorem mbuf_operations_typed_witness:
  "\<exists>out m'. operations plain_mbuf plain_frame = Inr (out, m') \<and> mbuf_wf m' \<and>
    payload m' = mbuf_header @ [1, 2, 3, 4] @ mbuf_tail"
proof -
  have "mbuf_wf plain_frame" "\<not> length (buf plain_frame) < data_off plain_frame + data_len plain_frame + 10"
    "10 \<le> data_off plain_frame" "payload plain_frame = [1, 2, 3, 4]"
    by (simp_all add: plain_frame_def mbuf_wf_def payload_def)
  then show ?thesis
    using mbuf_operations_typed[OF plain_mbuf.mbuf_ok_axioms, of plain_frame] by auto
qed

text \<open>Buffers without room for the message end the program; those before are done with.\<close>

definition fits :: "rte_mbuf \<Rightarrow> bool" where
  "fits m \<longleftrightarrow> data_off m + data_len m + 10 \<le> length (buf m)"

lemma parser_frame [simp]:
  "done_with (parser m s) = done_with s" "exited (parser m s) = exited s" "states (parser m s) = states s"
  "lengths (parser m s) = lengths s @ [pkt_len m]"
  by (simp_all add: parser_def Let_def)

lemma change_stopped: "exited s \<Longrightarrow> fold (change_packet mo) rx s = s"
  by (induction rx) (auto simp: change_packet_def)

context mbuf_ok
begin

lemma change_packet_outcome:
  assumes "mbuf_wf m" and "\<not> exited s"
  shows "done_with (change_packet mo (i, m) s) = done_with s @ (if fits m then [i] else [])"
    "exited (change_packet mo (i, m) s) = (\<not> fits m)"
    "lengths (change_packet mo (i, m) s) = lengths s @ [pkt_len m]"
proof -
  have "(\<exists>out m'. operations mo m = Inr (out, m')) \<longleftrightarrow> fits m" "operations mo m = Inl AppendFailed \<longleftrightarrow> \<not> fits m"
    using operations_outcome[OF assms(1)] assms(1)
    by (auto simp: fits_def room_def mbuf_wf_def Let_def split: if_splits)
  then show "done_with (change_packet mo (i, m) s) = done_with s @ (if fits m then [i] else [])"
    "exited (change_packet mo (i, m) s) = (\<not> fits m)"
    "lengths (change_packet mo (i, m) s) = lengths s @ [pkt_len m]"
    using assms(2) by (cases "fits m"; auto simp: change_packet_def)+
qed

lemma change_fold:
  assumes "\<not> exited s" and "list_all (\<lambda>(i, m). mbuf_wf m) rx"
  shows "done_with (fold (change_packet mo) rx s) = done_with s @ map fst (takeWhile (\<lambda>(i, m). fits m) rx) \<and>
    exited (fold (change_packet mo) rx s) = (\<not> list_all (\<lambda>(i, m). fits m) rx) \<and>
    lengths (fold (change_packet mo) rx s) = lengths s @ map (\<lambda>(i, m). pkt_len m)
      (take (Suc (length (takeWhile (\<lambda>(i, m). fits m) rx))) rx)"
  using assms
proof (induction rx arbitrary: s)
  case (Cons im rx)
  obtain i m where im: "im = (i, m)" by fastforce
  note one = change_packet_outcome[of m s i]
  show ?case
  proof (cases "fits m")
    case True
    then show ?thesis using one Cons.prems Cons.IH[of "change_packet mo (i, m) s"] im by simp
  next
    case False
    then show ?thesis using one Cons.prems change_stopped[of "change_packet mo (i, m) s"] im by simp
  qed
qed simp

end

text \<open>
  C28. One burst of \<open>packet_change\<close>, for any library that keeps its contract and any
  well-formed buffers: the packets in front of the first one with fewer than ten bytes behind
  its data are parsed, changed and freed, in order; that one is parsed and ends the program,
  and it and the packets behind it are not freed.
\<close>

theorem change_pass_outcome:
  assumes "mbuf_ok mo" and "list_all (\<lambda>(i, m). mbuf_wf m) rx" and "\<not> exited s"
  shows "done_with (change_pass mo rx s) = done_with s @ map fst (takeWhile (\<lambda>(i, m). fits m) rx) \<and>
    exited (change_pass mo rx s) = (\<not> list_all (\<lambda>(i, m). fits m) rx) \<and>
    lengths (change_pass mo rx s) = lengths s @ map (\<lambda>(i, m). pkt_len m)
      (take (Suc (length (takeWhile (\<lambda>(i, m). fits m) rx))) rx)"
  using mbuf_ok.change_fold[OF assms(1,3,2)] assms(3) by (cases "rx = []") (simp_all add: change_pass_def)

definition full_frame :: rte_mbuf where
  "full_frame = \<lparr>buf = [1, 2, 3, 4], data_off = 0, data_len = 4, pkt_len = 4\<rparr>"

theorem change_pass_outcome_witness:
  "\<exists>s. change_pass plain_mbuf [(0, plain_frame), (1, full_frame), (2, plain_frame)]
      \<lparr>lengths = [], macs = [], states = [], done_with = [], exited = False\<rparr> = s \<and>
    done_with s = [0] \<and> exited s"
  using change_pass_outcome[OF plain_mbuf.mbuf_ok_axioms,
      of "[(0, plain_frame), (1, full_frame), (2, plain_frame)]"
        "\<lparr>lengths = [], macs = [], states = [], done_with = [], exited = False\<rparr>"]
  by (simp add: plain_frame_def full_frame_def mbuf_wf_def fits_def)

lemma append_prepend_operations:
  "append_prepend_main mo (Some m) =
     (case operations mo m of Inl _ \<Rightarrow> Inl NoRoom | Inr (out, _) \<Rightarrow> Inr (out, 1))"
  by (simp add: main_ten operations_ten split: option.splits prod.splits)

lemma string_at_write:
  assumes "i + length s < length (buf m)" and "list_all (\<lambda>c. (of_char c :: u8) \<noteq> 0) s"
  shows "string_at (write_at i (c_string s) m) i = map of_char s"
proof -
  have "min (length (buf m)) i = i" using assms(1) by simp
  moreover have "takeWhile (\<lambda>b. b \<noteq> (0 :: u8)) (c_string s @ ys) = map of_char s" for ys
    using assms(2) by (induction s) (auto simp: c_string_def)
  ultimately show ?thesis by (simp add: string_at_def write_at_def)
qed

text \<open>
  The two programs of \<open>mempool_membuff\<close> on a buffer as the pool hands it out (empty, the
  data 128 bytes into a buffer of any size that holds the message): \<open>append_prependops\<close>
  prints data offset, data length, packet length, headroom and tailroom of 0, 10, 20, 15 and
  11 bytes of data and frees the buffer once; \<open>simple\<close> reads back, at both pointers, the
  string it wrote. Without a buffer each ends with its error.
\<close>

theorem buffer_programs:
  assumes "mbuf_ok mo" and "length (buf m) = 128 + l" and "22 \<le> l"
    and "data_off m = 128" and "data_len m = 0" and "pkt_len m = 0"
  shows "append_prepend_main mo (Some m) = Inr ([(128, 0, 0, 128, l), (128, 10, 10, 128, l - 10),
      (118, 20, 20, 118, l - 10), (123, 15, 15, 123, l - 10), (123, 11, 11, 123, l - 6)], 1) \<and>
    simple_main mo (Some m) = Inr (map of_char ''Hello from DPDK mbuf!'', map of_char ''Hello from DPDK mbuf!'') \<and>
    append_prepend_main mo None = Inl NoBuffer \<and> simple_main mo None = Inl NoBuffer"
proof (intro conjI)
  have wf: "mbuf_wf m" and room: "\<not> room m < 10" using assms by (simp_all add: mbuf_wf_def room_def)
  have "\<exists>m'. operations mo m = Inr ([(128, 0, 0, 128, l), (128, 10, 10, 128, l - 10),
      (118, 20, 20, 118, l - 10), (123, 15, 15, 123, l - 10), (123, 11, 11, 123, l - 6)], m')"
    using mbuf_ok.operations_outcome[OF assms(1) wf] room assms by (auto simp: Let_def state_of_def)
  then show "append_prepend_main mo (Some m) = Inr ([(128, 0, 0, 128, l), (128, 10, 10, 128, l - 10),
      (118, 20, 20, 118, l - 10), (123, 15, 15, 123, l - 10), (123, 11, 11, 123, l - 6)], 1)"
    by (auto simp: append_prepend_operations)
  have len: "length ''Hello from DPDK mbuf!'' + 1 = (22 :: nat)" by simp
  have "list_all (\<lambda>c. (of_char c :: u8) \<noteq> 0) ''Hello from DPDK mbuf!''" by simp
  then have "string_at (write_at 128 (c_string ''Hello from DPDK mbuf!'') m') 128 =
      map of_char ''Hello from DPDK mbuf!''" if "buf m' = buf m" for m'
    using that assms(2,3) by (intro string_at_write) simp_all
  then show "simple_main mo (Some m) =
      Inr (map of_char ''Hello from DPDK mbuf!'', map of_char ''Hello from DPDK mbuf!'')"
    unfolding simple_main_def len using mbuf_ok.append[OF assms(1) wf, of 22] assms by simp
qed (simp_all add: append_prepend_main_def simple_main_def)

theorem buffer_programs_witness:
  "append_prepend_main plain_mbuf (Some \<lparr>buf = replicate 2176 0, data_off = 128, data_len = 0, pkt_len = 0\<rparr>) =
    Inr ([(128, 0, 0, 128, 2048), (128, 10, 10, 128, 2038), (118, 20, 20, 118, 2038),
      (123, 15, 15, 123, 2038), (123, 11, 11, 123, 2042)], 1)"
  using buffer_programs[OF plain_mbuf.mbuf_ok_axioms,
      of "\<lparr>buf = replicate 2176 0, data_off = 128, data_len = 0, pkt_len = 0\<rparr>" 2048] by simp

end
