(* ===== verification/Telemetry.thy ===== *)
theory Telemetry
  imports Prelude
begin

text \<open>
  The telemetry programs: the counters the workers of \<open>advanced_stats\<close> keep and the handlers
  that report them. Each worker is a step function with a program counter; \<open>g_total_loops\<close>
  is \<open>volatile\<close> but not atomic, so that its increment is a load and a store, while the
  counter in \<open>g_lcore_stats\<close> is the lcore's own. The telemetry dictionary is the list of
  what the handler adds to it; the clock, its frequency and the lcores are arguments.
\<close>

type_synonym lcore = nat

subsection \<open>Counting\<close>

datatype wk_pc = WkOwn | WkLoad | WkStore u64

record adv_stats =
  g_total_loops :: u64
  g_lcore_stats :: "lcore \<Rightarrow> u64"
  worker_at :: "lcore \<Rightarrow> wk_pc"

definition worker_loop :: "lcore \<Rightarrow> adv_stats \<Rightarrow> adv_stats" where
  "worker_loop l s =
     (case worker_at s l of
        WkOwn \<Rightarrow> s\<lparr>g_lcore_stats := (g_lcore_stats s)(l := g_lcore_stats s l + 1),
                    worker_at := (worker_at s)(l := WkLoad)\<rparr>
      | WkLoad \<Rightarrow> s\<lparr>worker_at := (worker_at s)(l := WkStore (g_total_loops s))\<rparr>
      | WkStore r \<Rightarrow> s\<lparr>g_total_loops := r + 1, worker_at := (worker_at s)(l := WkOwn)\<rparr>)"

definition adv_start :: adv_stats where
  "adv_start = \<lparr>g_total_loops = 0, g_lcore_stats = (\<lambda>_. 0), worker_at = (\<lambda>_. WkOwn)\<rparr>"

text \<open>A schedule is the list of the lcores that take the steps.\<close>

definition adv_run :: "lcore list \<Rightarrow> adv_stats" where
  "adv_run ls = fold worker_loop ls adv_start"

subsection \<open>Reporting\<close>

datatype tel_value = TelString string | TelUint u64 | TelInt int

definition adv_summary_handler ::
    "u64 \<Rightarrow> u64 \<Rightarrow> u64 \<Rightarrow> u64 \<Rightarrow> adv_stats \<Rightarrow> (string \<times> tel_value) list" where
  "adv_summary_handler now hz g_start_tsc lcore_count s =
     (let uptime_sec = (if hz \<noteq> 0 then (now - g_start_tsc) div hz else 0)
      in [(''app'', TelString ''advanced-telemetry''), (''uptime_sec'', TelUint uptime_sec),
          (''lcore_count'', TelUint lcore_count), (''total_loops'', TelUint (g_total_loops s))])"

definition adv_lcore_stats_handler :: "lcore list \<Rightarrow> adv_stats \<Rightarrow> u64 list" where
  "adv_lcore_stats_handler lcores s = map (g_lcore_stats s) lcores"

text \<open>The handler of \<open>telementry/sample\<close>: \<open>Inl\<close> is its error code.\<close>

definition app_stats_handler :: "int \<Rightarrow> int \<Rightarrow> bool \<Rightarrow> int + (string \<times> tel_value) list" where
  "app_stats_handler lcore_count main_lcore d_is_null =
     (if d_is_null then Inl (- 1)
      else Inr [(''app'', TelString ''minimal-telemetry''), (''lcore_count'', TelInt lcore_count),
        (''main_lcore'', TelInt main_lcore)])"

subsection \<open>What the counters are worth\<close>

text \<open>Of \<open>n\<close> steps of a worker, \<open>(n + 2) div 3\<close> count a loop and \<open>n div 3\<close> end one.\<close>

definition steps :: "lcore list \<Rightarrow> lcore \<Rightarrow> nat" where
  "steps ls l = count_list ls l"

definition ended :: "lcore list \<Rightarrow> nat" where
  "ended ls = (\<Sum>l\<in>set ls. steps ls l div 3)"

fun phase :: "wk_pc \<Rightarrow> nat" where
  "phase WkOwn = 0" | "phase WkLoad = 1" | "phase (WkStore r) = 2"

lemma steps_snoc: "steps (ls @ [l]) k = steps ls k + (if k = l then 1 else 0)"
  by (simp add: steps_def)

lemma steps_absent: "k \<notin> set ls \<Longrightarrow> steps ls k = 0"
  by (simp add: steps_def count_list_0_iff)

lemma ended_over:
  assumes "finite A" and "set ls \<subseteq> A"
  shows "ended ls = (\<Sum>l\<in>A. steps ls l div 3)"
  unfolding ended_def using assms by (intro sum.mono_neutral_left) (auto simp: steps_absent)

lemma thirds:
  "Suc n div 3 = n div 3 + (if n mod 3 = 2 then 1 else 0)"
  "Suc (Suc (3 * q)) div 3 = q" "Suc (Suc (Suc (3 * q))) div 3 = Suc q"
  "Suc (Suc (Suc (Suc (3 * q)))) div 3 = Suc q" "Suc (Suc (Suc (Suc (Suc (3 * q))))) div 3 = Suc q"
  "Suc (3 * q) mod 3 = 1" "Suc (Suc (3 * q)) mod 3 = 2" "Suc (3 * q) div 3 = q"
  by presburger+

lemma ended_snoc: "ended (ls @ [l]) = ended ls + (if steps ls l mod 3 = 2 then 1 else 0)"
proof -
  let ?A = "insert l (set ls)"
  have "ended (ls @ [l]) = (\<Sum>k\<in>?A. steps (ls @ [l]) k div 3)" by (rule ended_over) auto
  also have "\<dots> = (\<Sum>k\<in>?A. steps ls k div 3 + (if k = l \<and> steps ls l mod 3 = 2 then 1 else 0))"
    by (rule sum.cong) (auto simp: steps_snoc thirds(1))
  also have "\<dots> = ended ls + (if steps ls l mod 3 = 2 then 1 else 0)"
    using ended_over[of ?A ls] by (simp add: sum.distrib subset_insertI)
  finally show ?thesis .
qed

lemma adv_run_snoc: "adv_run (ls @ [l]) = worker_loop l (adv_run ls)"
  by (simp add: adv_run_def)

text \<open>
  The invariant of a run: the own counter and the phase of each worker are functions of the
  number of its steps; the total and each loaded value are at most the loops ended.
\<close>

lemma adv_run_inv:
  "phase (worker_at (adv_run ls) l) = steps ls l mod 3 \<and>
   g_lcore_stats (adv_run ls) l = of_nat ((steps ls l + 2) div 3) \<and>
   (\<exists>t\<le>ended ls. g_total_loops (adv_run ls) = of_nat t) \<and>
   (\<forall>r. worker_at (adv_run ls) l = WkStore r \<longrightarrow> (\<exists>v\<le>ended ls. r = of_nat v))"
proof (induction ls arbitrary: l rule: rev_induct)
  case Nil
  show ?case by (simp add: adv_run_def adv_start_def steps_def ended_def)
next
  case (snoc k ls)
  obtain t where t: "t \<le> ended ls" "g_total_loops (adv_run ls) = of_nat t" using snoc.IH[of k] by blast
  have mono: "ended ls \<le> ended (ls @ [k])" by (simp add: ended_snoc)
  show ?case
  proof (cases "worker_at (adv_run ls) k")
    case WkOwn
    then have "steps ls k mod 3 = 0" using snoc.IH[of k] by simp
    then obtain q where "steps ls k = 3 * q" by auto
    then show ?thesis
      using WkOwn snoc.IH[of l] snoc.IH[of k] t mono
      by (auto simp: adv_run_snoc worker_loop_def steps_snoc ended_snoc thirds(2-) intro: le_trans)
  next
    case WkLoad
    then have "steps ls k mod 3 = 1" using snoc.IH[of k] by simp
    then obtain q where "steps ls k = 3 * q + 1" by (metis mod_div_decomp mult.commute)
    then show ?thesis
      using WkLoad snoc.IH[of l] snoc.IH[of k] t mono
      by (auto simp: adv_run_snoc worker_loop_def steps_snoc ended_snoc thirds(2-) intro: le_trans)
  next
    case (WkStore r)
    then have "steps ls k mod 3 = 2" using snoc.IH[of k] by simp
    moreover obtain v where v: "v \<le> ended ls" "r = of_nat v" using WkStore snoc.IH[of k] by blast
    moreover from calculation obtain q where "steps ls k = 3 * q + 2" by (metis mod_div_decomp mult.commute)
    ultimately show ?thesis
      using WkStore snoc.IH[of l] snoc.IH[of k] mono
      by (auto simp: adv_run_snoc worker_loop_def steps_snoc ended_snoc thirds(2-) intro: le_trans exI[of _ "Suc v"];
          meson le_SucI)
  qed
qed

text \<open>One worker alone loses nothing.\<close>

lemma adv_run_alone:
  assumes "set ls \<subseteq> {k}"
  shows "g_total_loops (adv_run ls) = of_nat (ended ls) \<and>
    (\<forall>r. worker_at (adv_run ls) k = WkStore r \<longrightarrow> r = of_nat (ended ls))"
  using assms
proof (induction ls rule: rev_induct)
  case (snoc j ls)
  then have IH: "g_total_loops (adv_run ls) = of_nat (ended ls)"
      "\<And>r. worker_at (adv_run ls) k = WkStore r \<Longrightarrow> r = of_nat (ended ls)" and j: "j = k" by auto
  have "phase (worker_at (adv_run ls) k) = steps ls k mod 3" using adv_run_inv by blast
  then show ?case
    using IH by (cases "worker_at (adv_run ls) k")
      (auto simp: j adv_run_snoc worker_loop_def ended_snoc)
qed (simp add: adv_run_def adv_start_def ended_def)

text \<open>A worker that loads the total, sleeps through the loops of another and then stores.\<close>

definition overtaken :: "nat \<Rightarrow> lcore list" where
  "overtaken n = [1, 1] @ concat (replicate n [2, 2, 2]) @ [1]"

lemma other_worker_runs:
  "worker_at s 2 = WkOwn \<Longrightarrow> worker_at (fold worker_loop (concat (replicate n [2, 2, 2])) s) = worker_at s \<and>
   g_lcore_stats (fold worker_loop (concat (replicate n [2, 2, 2])) s) =
     (g_lcore_stats s)(2 := g_lcore_stats s 2 + of_nat n)"
proof (induction n arbitrary: s)
  case (Suc n)
  let ?t = "worker_loop 2 (worker_loop 2 (worker_loop 2 s))"
  have "worker_at ?t = worker_at s" "g_lcore_stats ?t = (g_lcore_stats s)(2 := g_lcore_stats s 2 + 1)"
    using Suc.prems by (auto simp: worker_loop_def fun_eq_iff)
  then show ?case using Suc.IH[of ?t] Suc.prems by (simp add: ac_simps fun_eq_iff)
qed simp

lemma count_triples: "count_list (concat (replicate n [2, 2, 2 :: nat])) l = (if l = 2 then 3 * n else 0)"
  by (cases "l = 2"; induction n) simp_all

lemma overtaken_total:
  "g_total_loops (adv_run (overtaken n)) = 1" "ended (overtaken n) = Suc n"
  "g_lcore_stats (adv_run (overtaken n)) 2 = of_nat n"
proof -
  let ?s = "worker_loop 1 (worker_loop 1 adv_start)"
  have s: "worker_at ?s 1 = WkStore 0" "worker_at ?s 2 = WkOwn" "g_lcore_stats ?s 2 = 0"
    by (simp_all add: worker_loop_def adv_start_def)
  have run: "adv_run (overtaken n) = worker_loop 1 (fold worker_loop (concat (replicate n [2, 2, 2])) ?s)"
    by (simp add: adv_run_def overtaken_def)
  show "g_total_loops (adv_run (overtaken n)) = 1" "g_lcore_stats (adv_run (overtaken n)) 2 = of_nat n"
    using other_worker_runs[OF s(2), of n] s by (simp_all add: run worker_loop_def)
  have "set (concat (replicate n [2, 2, 2 :: nat])) \<subseteq> {1, 2}" by (auto split: if_splits)
  then have "ended (overtaken n) = (\<Sum>l\<in>{1, 2}. steps (overtaken n) l div 3)"
    by (intro ended_over) (auto simp: overtaken_def)
  then show "ended (overtaken n) = Suc n" by (simp add: steps_def overtaken_def count_triples)
qed

text \<open>
  C40. The counters of \<open>advanced_stats\<close> after any interleaving of the workers' steps: each
  entry reported by \<open>/adv/lcore_stats\<close> is the number of loops its lcore has begun, modulo
  \<open>2\<^sup>6\<^sup>4\<close>; the total of \<open>/adv/summary\<close> never exceeds the number of loops ended, and is that
  number as long as a single worker runs. With two workers it can be arbitrarily far behind:
  for every \<open>n\<close> there is a schedule with \<open>n + 1\<close> loops ended after which it is 1.
\<close>

theorem telemetry_counters:
  "adv_lcore_stats_handler lcores (adv_run ls) = map (\<lambda>l. of_nat ((steps ls l + 2) div 3)) lcores \<and>
   (\<exists>t\<le>ended ls. g_total_loops (adv_run ls) = of_nat t) \<and>
   (set ls \<subseteq> {k} \<longrightarrow> g_total_loops (adv_run ls) = of_nat (ended ls)) \<and>
   ended (overtaken n) = Suc n \<and> g_total_loops (adv_run (overtaken n)) = 1"
  using adv_run_inv[of ls] adv_run_alone[of ls k] overtaken_total[of n]
  by (auto simp: adv_lcore_stats_handler_def)

theorem telemetry_counters_witness: "g_total_loops (adv_run [3, 3, 3, 3, 3, 3]) = 2"
proof -
  have "ended [3, 3, 3, 3, 3, 3] = 2" by (simp add: ended_def steps_def)
  then show ?thesis using telemetry_counters[of "[]" "[3, 3, 3, 3, 3, 3]" 3 0] by simp
qed

text \<open>
  What \<open>/adv/summary\<close> reports of the uptime: the whole seconds since the start, even when
  the cycle counter has wrapped in between, for any run of less than \<open>2\<^sup>6\<^sup>4\<close> cycles; 0 when
  the frequency is not known.
\<close>

theorem summary_uptime:
  assumes "ticks < 2 ^ 64"
  shows "adv_summary_handler (start + of_nat ticks) hz start lcores s ! 1 =
      (''uptime_sec'', TelUint (if hz = 0 then 0 else of_nat (ticks div unat hz))) \<and>
    (hz \<noteq> 0 \<longrightarrow> (\<exists>v. snd (adv_summary_handler (start + of_nat ticks) hz start lcores s ! 1) = TelUint v \<and>
      unat v * unat hz \<le> ticks \<and> ticks < (unat v + 1) * unat hz))"
proof -
  have t: "unat (of_nat ticks :: u64) = ticks"
    using assms by (simp add: unat_of_nat take_bit_nat_eq_self)
  have d: "(of_nat ticks :: u64) div hz = of_nat (ticks div unat hz)"
  proof -
    have "ticks div unat hz < 2 ^ 64" using assms by (rule le_less_trans[OF div_le_dividend])
    then have "unat (of_nat (ticks div unat hz) :: u64) = ticks div unat hz"
      by (simp add: unat_of_nat take_bit_nat_eq_self)
    then show ?thesis by (simp add: word_unat_eq_iff unat_div t)
  qed
  moreover have "unat ((of_nat ticks :: u64) div hz) = ticks div unat hz" by (simp add: unat_div t)
  moreover have "unat hz \<noteq> 0" if "hz \<noteq> 0" using that by (simp add: unat_eq_zero)
  ultimately show ?thesis
    by (auto simp: adv_summary_handler_def Let_def dividend_less_div_times)
qed

theorem summary_uptime_witness:
  "adv_summary_handler 20 10 (- 15) 4 adv_start ! 1 = (''uptime_sec'', TelUint 3)"
  using summary_uptime[of 35 "- 15" 10 4 adv_start] by simp

end
