(* ===== verification/Events.thy ===== *)
theory Events
  imports Headers Processes
begin

text \<open>
  The programs around an event device. \<open>rte_eventdev\<close> is not under src/: enqueueing one
  event to, and dequeueing one from, a port are the fields of the argument \<open>eo\<close> over a device
  state the model does not look into. Its contract is the locale \<open>event_ok\<close>: an event
  accepted is delivered at most once, and events of one flow in the order they were
  enqueued. \<open>pending\<close> are the events the device holds. That it also delivers, and has room,
  is \<open>event_eager\<close>.
\<close>

record 'a event =
  queue_id :: nat
  flow_id :: nat
  ev_data :: 'a

record ('a, 'd) event_ops =
  ev_enqueue :: "nat \<Rightarrow> 'a event \<Rightarrow> 'd \<Rightarrow> bool \<times> 'd"
  ev_dequeue :: "nat \<Rightarrow> 'd \<Rightarrow> 'a event option \<times> 'd"

definition same_flow :: "'a event \<Rightarrow> 'a event \<Rightarrow> bool" where
  "same_flow e x \<longleftrightarrow> queue_id x = queue_id e \<and> flow_id x = flow_id e"

text \<open>The events of one flow.\<close>

definition flow :: "nat \<Rightarrow> nat \<Rightarrow> 'a event list \<Rightarrow> 'a event list" where
  "flow q f = filter (\<lambda>x. queue_id x = q \<and> flow_id x = f)"

lemma flow_simps [simp]: "flow q f [] = []" "flow q f (xs @ ys) = flow q f xs @ flow q f ys"
  by (simp_all add: flow_def)

lemma flow_Cons: "flow q f (e # xs) = flow q f [e] @ flow q f xs"
  by (simp add: flow_def)

locale event_ok =
  fixes eo :: "('a, 'd) event_ops" and pending :: "'d \<Rightarrow> 'a event list"
  assumes enq: "ev_enqueue eo p e d = (ok, d') \<Longrightarrow> pending d' = pending d @ (if ok then [e] else [])"
    and deq_none: "ev_dequeue eo p d = (None, d') \<Longrightarrow> pending d' = pending d"
    and deq_some: "ev_dequeue eo p d = (Some e, d') \<Longrightarrow>
      \<exists>xs ys. pending d = xs @ e # ys \<and> pending d' = xs @ ys \<and> (\<forall>x\<in>set xs. \<not> same_flow e x)"
begin

text \<open>What a delivery leaves: one event fewer, and of its flow the first.\<close>

lemma deq_mset: "ev_dequeue eo p d = (Some e, d') \<Longrightarrow> mset (pending d) = add_mset e (mset (pending d'))"
  using deq_some by fastforce

lemma deq_flow:
  assumes "ev_dequeue eo p d = (Some e, d')"
  shows "flow q f (pending d) = flow q f [e] @ flow q f (pending d')"
proof -
  obtain xs ys where xs: "pending d = xs @ [e] @ ys" "pending d' = xs @ ys" "\<forall>x\<in>set xs. \<not> same_flow e x"
    using deq_some[OF assms] by fastforce
  then have "flow q f xs = [] \<or> flow q f [e] = []"
    by (auto simp: same_flow_def filter_empty_conv flow_def)
  then show ?thesis unfolding xs(1,2) by (auto simp: flow_Cons[of q f e ys])
qed

end

locale event_eager = event_ok +
  assumes eager: "pending d \<noteq> [] \<Longrightarrow> fst (ev_dequeue eo p d) \<noteq> None"
    and space: "length (pending d) < 4096 \<Longrightarrow> fst (ev_enqueue eo p e d)"

text \<open>A device that delivers in the order of arrival and holds 4096 events.\<close>

definition fifo_device :: "('a, 'a event list) event_ops" where
  "fifo_device =
     \<lparr>ev_enqueue = (\<lambda>p e d. if length d < 4096 then (True, d @ [e]) else (False, d)),
      ev_dequeue = (\<lambda>p d. case d of [] \<Rightarrow> (None, []) | e # d' \<Rightarrow> (Some e, d'))\<rparr>"

interpretation fifo_device: event_eager fifo_device "\<lambda>d. d"
  by unfold_locales (auto simp: fifo_device_def split: if_splits list.splits intro: exI[of _ "[]"])

subsection \<open>\<open>eventdev/02practice\<close>: ten events, two consumers\<close>

datatype ev_pc = EvSend nat | EvPoll1 nat | EvPoll2 nat | EvDone

text \<open>\<open>ev_log\<close>: the consumer port and the event of each line printed.\<close>

record 'd ev_state =
  device :: 'd
  ev_log :: "(nat \<times> nat event) list"
  ev_at :: ev_pc

definition practice_event :: "nat \<Rightarrow> nat event" where
  "practice_event i = \<lparr>queue_id = 0, flow_id = i mod 2, ev_data = i\<rparr>"

definition ev_poll :: "(nat, 'd) event_ops \<Rightarrow> nat \<Rightarrow> nat \<Rightarrow> (nat \<Rightarrow> ev_pc) \<Rightarrow> 'd ev_state \<Rightarrow> 'd ev_state" where
  "ev_poll eo port r next s =
     (case ev_dequeue eo port (device s) of
        (None, d) \<Rightarrow> s\<lparr>device := d, ev_at := next r\<rparr>
      | (Some out, d) \<Rightarrow> s\<lparr>device := d, ev_log := ev_log s @ [(port, out)], ev_at := next (Suc r)\<rparr>)"

definition two_consumers :: "(nat, 'd) event_ops \<Rightarrow> 'd ev_state \<Rightarrow> 'd ev_state" where
  "two_consumers eo s =
     (case ev_at s of
        EvSend i \<Rightarrow>
          if i < 10 then (case ev_enqueue eo 0 (practice_event i) (device s) of (ok, d) \<Rightarrow>
            s\<lparr>device := d, ev_at := if ok then EvSend (Suc i) else EvSend i\<rparr>)
          else s\<lparr>ev_at := EvPoll1 0\<rparr>
      | EvPoll1 received \<Rightarrow>
          if received < 10 then ev_poll eo 1 received EvPoll2 s else s\<lparr>ev_at := EvDone\<rparr>
      | EvPoll2 received \<Rightarrow> ev_poll eo 2 received EvPoll1 s
      | EvDone \<Rightarrow> s)"

definition two_consumers_start :: "'d \<Rightarrow> 'd ev_state" where
  "two_consumers_start d = \<lparr>device = d, ev_log = [], ev_at = EvSend 0\<rparr>"

fun sent_events :: "ev_pc \<Rightarrow> nat" where
  "sent_events (EvSend i) = i" | "sent_events _ = 10"

fun counted :: "ev_pc \<Rightarrow> nat \<Rightarrow> bool" where
  "counted (EvSend i) n \<longleftrightarrow> n = 0"
| "counted (EvPoll1 r) n \<longleftrightarrow> n = r"
| "counted (EvPoll2 r) n \<longleftrightarrow> n = r"
| "counted EvDone n \<longleftrightarrow> n = 10"

text \<open>
  Every event sent has been printed or is pending, and of each flow those printed are the
  first.
\<close>

definition consumers_inv :: "('d \<Rightarrow> nat event list) \<Rightarrow> 'd ev_state \<Rightarrow> bool" where
  "consumers_inv pending s \<longleftrightarrow>
     (let sent = map practice_event [0..<sent_events (ev_at s)]; got = map snd (ev_log s); left = pending (device s)
      in sent_events (ev_at s) \<le> 10 \<and> counted (ev_at s) (length got) \<and>
         mset got + mset left = mset sent \<and>
         (\<forall>q f. flow q f got @ flow q f left = flow q f sent))"

lemma consumers_sizes:
  assumes "consumers_inv pending s"
  shows "length (ev_log s) + length (pending (device s)) = sent_events (ev_at s)"
proof -
  have "size (mset (map snd (ev_log s)) + mset (pending (device s))) =
      size (mset (map practice_event [0..<sent_events (ev_at s)]))"
    using assms by (simp only: consumers_inv_def Let_def)
  then show ?thesis by simp
qed

locale number_events = event_ok eo pending
  for eo :: "(nat, 'd) event_ops" and pending
begin

lemma ev_poll_keeps:
  assumes "consumers_inv pending s" and "ev_at s = EvPoll1 r \<or> ev_at s = EvPoll2 r"
    and "next = EvPoll1 \<or> next = EvPoll2"
  shows "consumers_inv pending (ev_poll eo p r next s)"
proof (cases "ev_dequeue eo p (device s)")
  case (Pair y d)
  have at: "sent_events (ev_at s) = 10" "length (ev_log s) = r"
    "\<And>k. sent_events (next k) = 10" "\<And>k n. counted (next k) n \<longleftrightarrow> n = k"
    using assms by (auto simp: consumers_inv_def Let_def)
  show ?thesis
  proof (cases y)
    case None
    then show ?thesis
      using Pair assms(1) deq_none[of p "device s" d] by (simp add: ev_poll_def consumers_inv_def at Let_def)
  next
    case (Some e)
    with Pair have deq: "ev_dequeue eo p (device s) = (Some e, d)" by simp
    show ?thesis
      using assms(1) deq_mset[OF deq] deq_flow[OF deq]
      by (auto simp: ev_poll_def deq consumers_inv_def at Let_def)
  qed
qed

lemma two_consumers_keeps:
  assumes "consumers_inv pending s"
  shows "consumers_inv pending (two_consumers eo s)"
proof (cases "ev_at s")
  case (EvSend i)
  show ?thesis
  proof (cases "i < 10")
    case True
    then show ?thesis
      using EvSend assms enq[of 0 "practice_event i" "device s"]
      by (cases "ev_enqueue eo 0 (practice_event i) (device s)")
        (auto simp: two_consumers_def consumers_inv_def Let_def atLeast0_lessThan_Suc)
  next
    case False
    moreover from this have "i = 10" using EvSend assms by (simp add: consumers_inv_def Let_def)
    ultimately show ?thesis using EvSend assms by (auto simp: two_consumers_def consumers_inv_def Let_def)
  qed
next
  case (EvPoll1 r)
  have "length (ev_log s) \<le> 10" using consumers_sizes[OF assms] EvPoll1 by simp
  then have "r \<le> 10" using EvPoll1 assms by (simp add: consumers_inv_def Let_def)
  then show ?thesis
    using EvPoll1 assms ev_poll_keeps[OF assms, of r EvPoll2 1]
    by (cases "r < 10") (auto simp: two_consumers_def consumers_inv_def Let_def)
next
  case (EvPoll2 r)
  then show ?thesis using ev_poll_keeps[OF assms, of r EvPoll1 2] by (simp add: two_consumers_def)
qed (use assms in \<open>simp add: two_consumers_def\<close>)

end

interpretation fifo_numbers: number_events fifo_device "\<lambda>d. d"
  by unfold_locales

definition consumers_mu :: "'d ev_state \<Rightarrow> nat" where
  "consumers_mu s =
     (case ev_at s of
        EvSend i \<Rightarrow> 50 + (10 - i)
      | EvPoll1 r \<Rightarrow> 3 * (10 - r) + 1
      | EvPoll2 r \<Rightarrow> 3 * (10 - r) + 2
      | EvDone \<Rightarrow> 0)"

lemma consumers_progress:
  assumes "event_eager eo pending"
  shows "can_progress (\<lambda>_ :: unit. two_consumers eo) (consumers_inv pending) (\<lambda>s. ev_at s = EvDone)
    consumers_mu (\<lambda>_. ())"
proof
  fix s and u :: unit
  note ok = event_eager.axioms(1)[OF assms]
  have numbers: "number_events eo pending" using ok by (simp add: number_events_def)
  assume inv: "consumers_inv pending s"
  then show "consumers_inv pending (two_consumers eo s)"
    by (rule number_events.two_consumers_keeps[OF numbers])
  assume "ev_at s \<noteq> EvDone"
  have size: "length (ev_log s) + length (pending (device s)) = sent_events (ev_at s)"
    by (rule consumers_sizes[OF inv])
  have cnt: "counted (ev_at s) (length (ev_log s))" using inv by (simp add: consumers_inv_def Let_def)
  show "consumers_mu (two_consumers eo s) < consumers_mu s"
  proof (cases "ev_at s")
    case (EvSend i)
    then have "fst (ev_enqueue eo 0 (practice_event i) (device s))" if "i < 10"
      using event_eager.space[OF assms] size cnt that by simp
    then show ?thesis
      using EvSend by (cases "ev_enqueue eo 0 (practice_event i) (device s)")
        (auto simp: two_consumers_def consumers_mu_def)
  next
    case (EvPoll1 r)
    then have "fst (ev_dequeue eo 1 (device s)) \<noteq> None" if "r < 10"
      using size cnt that by (intro event_eager.eager[OF assms]) auto
    then show ?thesis
      using EvPoll1 by (cases "ev_dequeue eo 1 (device s)")
        (auto simp: two_consumers_def ev_poll_def consumers_mu_def)
  next
    case (EvPoll2 r)
    then show ?thesis
      by (auto simp: two_consumers_def ev_poll_def consumers_mu_def split: prod.splits option.splits)
  qed (use \<open>ev_at s \<noteq> EvDone\<close> in simp)
qed

interpretation consumers_end: can_progress "\<lambda>_ :: unit. two_consumers fifo_device" "consumers_inv (\<lambda>d. d)"
    "\<lambda>s. ev_at s = EvDone" consumers_mu "\<lambda>_. ()"
  by (rule consumers_progress) (rule fifo_device.event_eager_axioms)

lemma fold_unit: "fold (\<lambda>_ :: unit. g) us s = (g ^^ length us) s"
  by (induction us arbitrary: s) (simp_all add: funpow_swap1)

text \<open>What the invariant says of the numbers printed.\<close>

definition printed :: "'d ev_state \<Rightarrow> nat list" where
  "printed s = map (ev_data \<circ> snd) (ev_log s)"

lemma filter_upt_prefix: "xs @ ys = filter P [0..<n] \<Longrightarrow> \<exists>k\<le>n. xs = filter P [0..<k]"
proof (induction n arbitrary: ys)
  case (Suc n)
  consider "ys = []" | "\<not> P n" | zs where "P n" "ys = zs @ [last ys]"
    by (metis append_butlast_last_id)
  then show ?case
  proof cases
    case 1
    then show ?thesis using Suc.prems by auto
  next
    case 2
    then show ?thesis using Suc.prems Suc.IH[of ys] by (auto dest: le_SucI)
  next
    case 3
    then have "(xs @ zs) @ [last ys] = filter P [0..<n] @ [n]"
      using Suc.prems by (metis append_assoc upt_Suc zero_le filter_append filter.simps)
    then show ?thesis using Suc.IH[of zs] by (auto dest: le_SucI)
  qed
qed simp

lemma flow_of_practice:
  "flow 0 0 (map practice_event xs) = map practice_event (filter even xs)"
  "flow 0 1 (map practice_event xs) = map practice_event (filter odd xs)"
  by (induction xs) (auto simp: flow_def practice_event_def odd_iff_mod_2_eq_one even_iff_mod_2_eq_zero)

lemma data_of_practice [simp]: "map ev_data (map practice_event xs) = xs"
  by (induction xs) (simp_all add: practice_event_def)

lemma consumers_printed:
  assumes "consumers_inv pending s"
  shows "mset (printed s) \<subseteq># mset [0..<10]" "\<exists>k. filter even (printed s) = filter even [0..<k]"
    "\<exists>k. filter odd (printed s) = filter odd [0..<k]"
    "ev_at s = EvDone \<Longrightarrow> mset (printed s) = mset [0..<10]"
proof -
  let ?n = "sent_events (ev_at s)" and ?got = "map snd (ev_log s)" and ?left = "pending (device s)"
  have n: "?n \<le> 10" and ms: "mset ?got + mset ?left = mset (map practice_event [0..<?n])"
    and fl: "flow 0 0 ?got @ flow 0 0 ?left = flow 0 0 (map practice_event [0..<?n])"
      "flow 0 1 ?got @ flow 0 1 ?left = flow 0 1 (map practice_event [0..<?n])"
    using assms by (simp_all only: consumers_inv_def Let_def)
  have "set ?got \<subseteq> set (map practice_event [0..<?n])"
    using ms by (metis mset_subset_eq_add_left set_mset_mono set_mset_mset)
  then have got: "?got = map practice_event (printed s)"
    by (auto simp: printed_def practice_event_def subset_iff intro!: map_cong)
  have all: "mset (printed s) + image_mset ev_data (mset ?left) = mset [0..<?n]"
    using arg_cong[OF ms, of "image_mset ev_data"] unfolding got image_mset_union mset_map[symmetric]
    by (simp only: data_of_practice)
  then have "mset (printed s) \<subseteq># mset [0..<?n]" by (metis mset_subset_eq_add_left)
  moreover have "mset [0..<?n] \<subseteq># mset [0..<10]" 
    using upt_add_eq_append[of 0 ?n "10 - ?n"] n by (simp del: mset_upt)
  ultimately show "mset (printed s) \<subseteq># mset [0..<10]" by (rule subset_mset.order_trans)
  have "filter even (printed s) @ map ev_data (flow 0 0 ?left) = filter even [0..<?n]"
    using arg_cong[OF fl(1), of "map ev_data"] unfolding got flow_of_practice map_append data_of_practice .
  from filter_upt_prefix[OF this] show "\<exists>k. filter even (printed s) = filter even [0..<k]" by blast
  have "filter odd (printed s) @ map ev_data (flow 0 1 ?left) = filter odd [0..<?n]"
    using arg_cong[OF fl(2), of "map ev_data"] unfolding got flow_of_practice map_append data_of_practice .
  from filter_upt_prefix[OF this] show "\<exists>k. filter odd (printed s) = filter odd [0..<k]" by blast
  assume "ev_at s = EvDone"
  then have "length (ev_log s) = 10" "?n = 10" using assms by (simp_all add: consumers_inv_def Let_def)
  then have "?left = []" using consumers_sizes[OF assms] by simp
  then show "mset (printed s) = mset [0..<10]" using all \<open>?n = 10\<close> by simp
qed

text \<open>
  C19. The ten events of \<open>02practice\<close>, for any event device that keeps its contract and is
  empty at the start: after any number of steps no event has been printed twice, and of each
  of the two flows the consumers together have printed the first ones, in order. When the
  program ends it has printed each event exactly once; and with a device that delivers what
  it holds and has room it does end.
\<close>

theorem two_consumers_deliver:
  assumes "event_ok eo pending" and "pending d = []"
  shows "\<exists>s. (two_consumers eo ^^ n) (two_consumers_start d) = s \<and> mset (printed s) \<subseteq># mset [0..<10] \<and>
    (\<exists>k. filter even (printed s) = filter even [0..<k]) \<and> (\<exists>k. filter odd (printed s) = filter odd [0..<k]) \<and>
    (ev_at s = EvDone \<longrightarrow> mset (printed s) = mset [0..<10]) \<and>
    (event_eager eo pending \<longrightarrow> (\<exists>m. ev_at ((two_consumers eo ^^ m) (two_consumers_start d)) = EvDone))"
proof -
  have start: "consumers_inv pending (two_consumers_start d)"
    using assms(2) by (simp add: consumers_inv_def two_consumers_start_def)
  have "number_events eo pending" using assms(1) by (simp add: number_events_def)
  then have inv: "consumers_inv pending ((two_consumers eo ^^ n) (two_consumers_start d))"
    using start by (induction n) (simp_all add: number_events.two_consumers_keeps)
  have "\<exists>m. ev_at ((two_consumers eo ^^ m) (two_consumers_start d)) = EvDone" if "event_eager eo pending"
    using can_progress.can_reach_final[OF consumers_progress[OF that] start] by (auto simp: fold_unit)
  then show ?thesis
    using consumers_printed[OF inv]
    by (intro exI[of _ "(two_consumers eo ^^ n) (two_consumers_start d)"]) blast
qed

theorem two_consumers_deliver_witness:
  "\<exists>m. ev_at ((two_consumers fifo_device ^^ m) (two_consumers_start [])) = EvDone"
  using two_consumers_deliver[OF fifo_device.event_ok_axioms, of "[]"] fifo_device.event_eager_axioms by blast

subsection \<open>\<open>eventdev/parsing_event\<close>: the worker\<close>

text \<open>
  The worker's port 0 is linked to both queues, so that it is a port from which everything
  pending may be delivered. \<open>pkts\<close> are the contents of the buffers, which nobody changes;
  \<open>parsed\<close> is what is printed. The code does not look at the result of the enqueue;
  \<open>pe_refused\<close>, of the model only, records the buffers the device did not take.
\<close>

definition TX_QUEUE_ID :: nat where "TX_QUEUE_ID = 1"

record 'd pe_state =
  pe_device :: 'd
  parsed :: "(u32 \<times> u32) list"
  pe_refused :: "nat list"

definition event_worker :: "byteorder \<Rightarrow> (nat, 'd) event_ops \<Rightarrow> (nat \<Rightarrow> buffer) \<Rightarrow> 'd pe_state \<Rightarrow> 'd pe_state" where
  "event_worker bo eo pkts s =
     (case ev_dequeue eo 0 (pe_device s) of
        (None, d) \<Rightarrow> s\<lparr>pe_device := d\<rparr>
      | (Some ev, d) \<Rightarrow>
          let b = pkts (ev_data ev);
              ip = ETH_LEN;
              s = (if ether_type b = cpu_to_be_16 bo RTE_ETHER_TYPE_IPV4
                then s\<lparr>parsed := parsed s @ [(be_to_cpu_32 bo (load32 b (ip + 12)), be_to_cpu_32 bo (load32 b (ip + 16)))]\<rparr>
                else s);
              ev = ev\<lparr>queue_id := TX_QUEUE_ID\<rparr>
          in case ev_enqueue eo 0 ev d of (ok, d) \<Rightarrow>
               s\<lparr>pe_device := d, pe_refused := pe_refused s @ (if ok then [] else [ev_data ev])\<rparr>)"

definition pe_start :: "'d \<Rightarrow> 'd pe_state" where
  "pe_start d = \<lparr>pe_device = d, parsed = [], pe_refused = []\<rparr>"

text \<open>The two addresses of a packet in host order.\<close>

definition addresses :: "byteorder \<Rightarrow> buffer \<Rightarrow> u32 \<times> u32" where
  "addresses bo b = (be_to_cpu_32 bo (load32 b 26), be_to_cpu_32 bo (load32 b 30))"

context number_events
begin

lemma event_worker_conserves:
  "mset (map ev_data (pending (pe_device (event_worker bo eo pkts s)))) + mset (pe_refused (event_worker bo eo pkts s)) =
   mset (map ev_data (pending (pe_device s))) + mset (pe_refused s)"
proof (cases "ev_dequeue eo 0 (pe_device s)")
  case (Pair y d)
  show ?thesis
  proof (cases y)
    case None
    then show ?thesis using Pair deq_none by (simp add: event_worker_def)
  next
    case (Some e)
    with Pair have deq: "ev_dequeue eo 0 (pe_device s) = (Some e, d)" by simp
    obtain ok d' where e: "ev_enqueue eo 0 (e\<lparr>queue_id := TX_QUEUE_ID\<rparr>) d = (ok, d')" by fastforce
    show ?thesis
      using deq_mset[OF deq] enq[OF e] by (cases ok) (auto simp: event_worker_def deq e Let_def)
  qed
qed

end

lemma event_worker_again:
  assumes eager: "event_eager eo pending" and p: "pending (pe_device s) = [e]"
    and ip: "ether_type (pkts (ev_data e)) = cpu_to_be_16 bo RTE_ETHER_TYPE_IPV4"
  shows "pending (pe_device (event_worker bo eo pkts s)) = [e\<lparr>queue_id := TX_QUEUE_ID\<rparr>] \<and>
    parsed (event_worker bo eo pkts s) = parsed s @ [addresses bo (pkts (ev_data e))]"
proof -
  note ok = event_eager.axioms(1)[OF eager]
  obtain y d where d: "ev_dequeue eo 0 (pe_device s) = (y, d)" by fastforce
  then obtain x where y: "y = Some x" using event_eager.eager[OF eager, of "pe_device s" 0] p by auto
  then have x: "x = e" "pending d = []"
    using event_ok.deq_mset[OF ok, of 0 "pe_device s" x d] d p by simp_all
  obtain k d' where e: "ev_enqueue eo 0 (e\<lparr>queue_id := TX_QUEUE_ID\<rparr>) d = (k, d')" by fastforce
  then have "k" using event_eager.space[OF eager, of d 0 "e\<lparr>queue_id := TX_QUEUE_ID\<rparr>"] x by simp
  then have "pending d' = [e\<lparr>queue_id := TX_QUEUE_ID\<rparr>]" using event_ok.enq[OF ok e] x by simp
  then show ?thesis
    using d y x e ip by (simp add: event_worker_def addresses_def Let_def ETH_LEN_def)
qed

text \<open>
  The worker of \<open>parsing_event\<close>, for any event device that keeps its contract: however
  often it goes round, every packet is still in the device or was lost when the device
  refused it; the worker neither frees nor transmits one. As its port is linked to the
  transmit queue too, a device that delivers hands it its own output: a single IPv4 packet is
  parsed again in every round.
\<close>

theorem event_worker_rounds:
  assumes "event_ok eo pending"
  shows "mset (map ev_data (pending (pe_device ((event_worker bo eo pkts ^^ n) (pe_start d))))) +
      mset (pe_refused ((event_worker bo eo pkts ^^ n) (pe_start d))) = mset (map ev_data (pending d)) \<and>
    (event_eager eo pending \<longrightarrow> map ev_data (pending d) = [m] \<longrightarrow>
      ether_type (pkts m) = cpu_to_be_16 bo RTE_ETHER_TYPE_IPV4 \<longrightarrow>
      parsed ((event_worker bo eo pkts ^^ n) (pe_start d)) = replicate n (addresses bo (pkts m)))"
proof (intro conjI impI)
  let ?run = "(event_worker bo eo pkts ^^ n) (pe_start d)"
  have "number_events eo pending" using assms by (simp add: number_events_def)
  then show "mset (map ev_data (pending (pe_device ?run))) + mset (pe_refused ?run) = mset (map ev_data (pending d))"
    by (induction n) (simp_all only: funpow.simps comp_apply number_events.event_worker_conserves id_apply,
        simp add: pe_start_def)
  assume eager: "event_eager eo pending" and p: "map ev_data (pending d) = [m]"
    and ip: "ether_type (pkts m) = cpu_to_be_16 bo RTE_ETHER_TYPE_IPV4"
  have "(\<exists>e. pending (pe_device ?run) = [e] \<and> ev_data e = m) \<and> parsed ?run = replicate n (addresses bo (pkts m))"
  proof (induction n)
    case 0
    then show ?case using p by (auto simp: pe_start_def)
  next
    case (Suc n)
    then obtain e where "pending (pe_device ((event_worker bo eo pkts ^^ n) (pe_start d))) = [e]" "ev_data e = m"
      by blast
    with event_worker_again[OF eager this(1), of pkts bo] ip Suc show ?case
      by (auto simp: replicate_append_same[symmetric])
  qed
  then show "parsed ?run = replicate n (addresses bo (pkts m))" by blast
qed

definition pe_packet :: buffer where
  "pe_packet = store16 12 (cpu_to_be_16 le_host RTE_ETHER_TYPE_IPV4) (\<lambda>_. 0)"

theorem event_worker_rounds_witness:
  "parsed ((event_worker le_host fifo_device (\<lambda>_. pe_packet) ^^ 3) (pe_start [\<lparr>queue_id = 0, flow_id = 0, ev_data = 7\<rparr>])) =
     replicate 3 (addresses le_host pe_packet)"
  by (rule event_worker_rounds[OF fifo_device.event_ok_axioms, THEN conjunct2, THEN mp, THEN mp, THEN mp,
        OF fifo_device.event_eager_axioms])
    (simp_all add: pe_packet_def ether_type_def load16_store16)

end
