(* ===== verification/EventPrograms.thy ===== *)
theory EventPrograms
  imports Events Setup
begin

text \<open>
  The other programs around an event device: \<open>eventdev/01project\<close> and \<open>eventdev/practice\<close>, one
  event each, the two processes of \<open>inter_process_comm/eventdev\<close>, and the start-up code of
  these and of \<open>02practice\<close>. The device is the argument \<open>eo\<close> of theory Events.
\<close>

subsection \<open>\<open>eventdev/01project\<close>: one event, sent and awaited by one thread\<close>

datatype one_pc = OneSend | OnePoll | OneDone

record 'd one_state =
  one_device :: 'd
  one_got :: "nat event list"
  one_at :: one_pc

definition project_event :: "nat event" where
  "project_event = \<lparr>queue_id = 0, flow_id = 1, ev_data = 12345\<rparr>"

definition project_main :: "(nat, 'd) event_ops \<Rightarrow> 'd one_state \<Rightarrow> 'd one_state" where
  "project_main eo s =
     (case one_at s of
        OneSend \<Rightarrow> (case ev_enqueue eo 0 project_event (one_device s) of (ok, d) \<Rightarrow>
          s\<lparr>one_device := d, one_at := if ok then OnePoll else OneSend\<rparr>)
      | OnePoll \<Rightarrow> (case ev_dequeue eo 1 (one_device s) of
          (None, d) \<Rightarrow> s\<lparr>one_device := d\<rparr>
        | (Some out, d) \<Rightarrow> s\<lparr>one_device := d, one_got := one_got s @ [out], one_at := OneDone\<rparr>)
      | OneDone \<Rightarrow> s)"

definition project_start :: "'d \<Rightarrow> 'd one_state" where
  "project_start d = \<lparr>one_device = d, one_got = [], one_at = OneSend\<rparr>"

definition project_inv :: "('d \<Rightarrow> nat event list) \<Rightarrow> 'd one_state \<Rightarrow> bool" where
  "project_inv pending s \<longleftrightarrow>
     (case one_at s of
        OneSend \<Rightarrow> pending (one_device s) = [] \<and> one_got s = []
      | OnePoll \<Rightarrow> pending (one_device s) = [project_event] \<and> one_got s = []
      | OneDone \<Rightarrow> pending (one_device s) = [] \<and> one_got s = [project_event])"

subsection \<open>\<open>eventdev/practice\<close>: the event is for a worker on another lcore\<close>

text \<open>
  \<open>PwNone\<close>: no worker lcore exists, so that the launch loop starts nobody and
  \<open>rte_eal_mp_wait_lcore\<close> has nobody to wait for.
\<close>

datatype pm_pc = PmSend | PmWait | PmDone

datatype pw_pc = PwNone | PwPoll | PwDone

datatype pe_thread = PeMain | PeWorker

record 'd answer_state =
  pr_device :: 'd
  pr_got :: "nat event list"
  pr_main :: pm_pc
  pr_worker :: pw_pc

definition answer_event :: "nat event" where
  "answer_event = \<lparr>queue_id = 0, flow_id = 1, ev_data = 42\<rparr>"

definition answer_worker :: "(nat, 'd) event_ops \<Rightarrow> 'd answer_state \<Rightarrow> 'd answer_state" where
  "answer_worker eo s =
     (case pr_worker s of
        PwPoll \<Rightarrow> (case ev_dequeue eo 0 (pr_device s) of
          (None, d) \<Rightarrow> s\<lparr>pr_device := d\<rparr>
        | (Some ev, d) \<Rightarrow> s\<lparr>pr_device := d, pr_got := pr_got s @ [ev], pr_worker := PwDone\<rparr>)
      | _ \<Rightarrow> s)"

definition answer_main :: "(nat, 'd) event_ops \<Rightarrow> 'd answer_state \<Rightarrow> 'd answer_state" where
  "answer_main eo s =
     (case pr_main s of
        PmSend \<Rightarrow> (case ev_enqueue eo 0 answer_event (pr_device s) of (ok, d) \<Rightarrow>
          s\<lparr>pr_device := d, pr_main := if ok then PmWait else PmSend\<rparr>)
      | PmWait \<Rightarrow> if pr_worker s = PwPoll then s else s\<lparr>pr_main := PmDone\<rparr>
      | PmDone \<Rightarrow> s)"

fun answer_step :: "(nat, 'd) event_ops \<Rightarrow> pe_thread \<Rightarrow> 'd answer_state \<Rightarrow> 'd answer_state" where
  "answer_step eo PeMain = answer_main eo"
| "answer_step eo PeWorker = answer_worker eo"

text \<open>The launch: the first of the worker lcores.\<close>

definition answer_launch :: "nat list \<Rightarrow> 'd \<Rightarrow> 'd answer_state" where
  "answer_launch workers d =
     \<lparr>pr_device = d, pr_got = [], pr_main = PmSend,
      pr_worker = (case workers of [] \<Rightarrow> PwNone | lcore_id # _ \<Rightarrow> PwPoll)\<rparr>"

definition answer_inv :: "('d \<Rightarrow> nat event list) \<Rightarrow> 'd answer_state \<Rightarrow> bool" where
  "answer_inv pending s \<longleftrightarrow>
     pending (pr_device s) @ pr_got s = (if pr_main s = PmSend then [] else [answer_event]) \<and>
     (pr_worker s = PwDone \<longleftrightarrow> pr_got s \<noteq> []) \<and> (pr_main s = PmDone \<longrightarrow> pr_worker s \<noteq> PwPoll)"

context number_events
begin

lemma project_keeps:
  assumes "project_inv pending s"
  shows "project_inv pending (project_main eo s)"
proof (cases "one_at s")
  case OneSend
  then show ?thesis
    using assms enq[of 0 project_event "one_device s"]
    by (auto simp: project_main_def project_inv_def split: prod.splits)
next
  case OnePoll
  then show ?thesis
    using assms deq_none[of 1 "one_device s"] deq_mset[of 1 "one_device s"]
    by (auto simp: project_main_def project_inv_def split: prod.splits option.splits)
qed (use assms in \<open>simp add: project_main_def\<close>)

lemma answer_keeps:
  assumes "answer_inv pending s"
  shows "answer_inv pending (answer_step eo p s) \<and>
    (pr_worker (answer_step eo p s) = PwNone \<longleftrightarrow> pr_worker s = PwNone)"
proof (cases p)
  case PeMain
  then show ?thesis
    using assms enq[of 0 answer_event "pr_device s"]
    by (cases "pr_main s") (auto simp: answer_main_def answer_inv_def split: prod.splits)
next
  case PeWorker
  show ?thesis
  proof (cases "pr_worker s = PwPoll")
    case True
    then show ?thesis
      using PeWorker assms deq_none[of 0 "pr_device s"] deq_mset[of 0 "pr_device s"]
      by (auto simp: answer_worker_def answer_inv_def split: prod.splits option.splits if_splits)
  next
    case False
    then have "answer_worker eo s = s" by (cases "pr_worker s") (simp_all add: answer_worker_def)
    then show ?thesis using PeWorker assms by simp
  qed
qed

end

text \<open>With a device that delivers, both programs end.\<close>

definition project_mu :: "'d one_state \<Rightarrow> nat" where
  "project_mu s = (case one_at s of OneSend \<Rightarrow> 2 | OnePoll \<Rightarrow> 1 | OneDone \<Rightarrow> 0)"

lemma project_progress:
  assumes eager: "event_eager eo pending"
  shows "can_progress (\<lambda>_ :: unit. project_main eo) (project_inv pending) (\<lambda>s. one_at s = OneDone)
    project_mu (\<lambda>_. ())"
proof
  fix s and u :: unit
  have "number_events eo pending" using event_eager.axioms(1)[OF eager] by (simp add: number_events_def)
  then show "project_inv pending s \<Longrightarrow> project_inv pending (project_main eo s)"
    by (rule number_events.project_keeps)
  assume "project_inv pending s" and "one_at s \<noteq> OneDone"
  then show "project_mu (project_main eo s) < project_mu s"
    using event_eager.space[OF eager, of "one_device s" 0 project_event]
      event_eager.eager[OF eager, of "one_device s" 1]
    by (cases "one_at s") (auto simp: project_main_def project_inv_def project_mu_def
        split: prod.splits option.splits)
qed

definition answer_mu :: "'d answer_state \<Rightarrow> nat" where
  "answer_mu s = (case pr_main s of PmSend \<Rightarrow> 2 | PmWait \<Rightarrow> 1 | PmDone \<Rightarrow> 0) +
     (if pr_worker s = PwPoll then 1 else 0)"

definition answer_mover :: "'d answer_state \<Rightarrow> pe_thread" where
  "answer_mover s = (if pr_main s = PmWait \<and> pr_worker s = PwPoll then PeWorker else PeMain)"

lemma answer_progress:
  assumes eager: "event_eager eo pending"
  shows "fair_progress (answer_step eo) (answer_inv pending) (\<lambda>s. pr_main s = PmDone)
    answer_mu answer_mover"
proof
  fix s and p :: pe_thread
  have "number_events eo pending" using event_eager.axioms(1)[OF eager] by (simp add: number_events_def)
  then show "answer_inv pending s \<Longrightarrow> answer_inv pending (answer_step eo p s)"
    using number_events.answer_keeps by blast
  assume inv: "answer_inv pending s" and on: "pr_main s \<noteq> PmDone"
  have worker: "answer_worker eo s = s \<or> pr_main (answer_worker eo s) = pr_main s \<and>
      (answer_mu (answer_worker eo s) < answer_mu s \<or> pr_worker (answer_worker eo s) = pr_worker s)"
    by (cases "pr_worker s") (auto simp: answer_worker_def answer_mu_def split: prod.splits option.splits)
  show "answer_mu (answer_step eo (answer_mover s) s) < answer_mu s"
  proof (cases "answer_mover s")
    case PeMain
    then show ?thesis
      using inv on event_eager.space[OF eager, of "pr_device s" 0 answer_event]
      by (cases "pr_main s") (auto simp: answer_main_def answer_inv_def answer_mu_def
          answer_mover_def split: prod.splits if_splits)
  next
    case PeWorker
    then have "pr_main s = PmWait" "pr_worker s = PwPoll" by (auto simp: answer_mover_def split: if_splits)
    then show ?thesis
      using inv PeWorker event_eager.eager[OF eager, of "pr_device s" 0]
      by (auto simp: answer_worker_def answer_inv_def answer_mu_def split: prod.splits option.splits)
  qed
  assume "p \<noteq> answer_mover s"
  then show "answer_mu (answer_step eo p s) < answer_mu s \<or>
      answer_mu (answer_step eo p s) = answer_mu s \<and> answer_mover (answer_step eo p s) = answer_mover s"
    using worker
    by (cases p) (auto simp: answer_mover_def answer_mu_def answer_main_def split: if_splits)
qed

text \<open>
  The programs that send one event, for any event device that keeps its contract and is
  empty at the start. \<open>01project\<close>: when it has ended it has printed exactly the event it
  sent, and with a device that delivers it ends. \<open>practice\<close>, in any interleaving of the main
  lcore and the worker: when the main lcore has ended the worker has printed exactly the event
  sent, unless the machine has no worker lcore, when the program reports success with the event
  undelivered; with a device that delivers it ends under every fair schedule.
\<close>

theorem one_event_programs:
  assumes "event_ok eo pending" and "pending d = []"
  shows "(\<forall>n. one_at ((project_main eo ^^ n) (project_start d)) = OneDone \<longrightarrow>
        one_got ((project_main eo ^^ n) (project_start d)) = [project_event]) \<and>
    (\<forall>f n. let s = sched_run (answer_step eo) f (answer_launch workers d) n
       in pr_main s = PmDone \<longrightarrow>
          (if workers = [] then pr_got s = [] \<and> pending (pr_device s) = [answer_event]
           else pr_got s = [answer_event] \<and> pending (pr_device s) = [])) \<and>
    (event_eager eo pending \<longrightarrow>
      (\<exists>n. one_at ((project_main eo ^^ n) (project_start d)) = OneDone) \<and>
      (\<forall>f. fair f \<longrightarrow> (\<exists>n. pr_main (sched_run (answer_step eo) f (answer_launch workers d) n) = PmDone)))"
proof -
  have num: "number_events eo pending" using assms(1) by (simp add: number_events_def)
  have start: "project_inv pending (project_start d)" "answer_inv pending (answer_launch workers d)"
    using assms(2)
    by (auto simp: project_inv_def project_start_def answer_inv_def answer_launch_def split: list.split)
  have "project_inv pending ((project_main eo ^^ n) (project_start d))" for n
    using start by (induction n) (simp_all add: number_events.project_keeps[OF num])
  then have one: "one_got ((project_main eo ^^ n) (project_start d)) = [project_event]"
    if "one_at ((project_main eo ^^ n) (project_start d)) = OneDone" for n
    using that by (metis (mono_tags, lifting) one_pc.simps(9) project_inv_def)
  have two: "answer_inv pending (sched_run (answer_step eo) f (answer_launch workers d) n) \<and>
      (pr_worker (sched_run (answer_step eo) f (answer_launch workers d) n) = PwNone \<longleftrightarrow> workers = [])" for f n
  proof (induction n)
    case 0
    then show ?case using start by (simp add: answer_launch_def split: list.split)
  qed (simp add: number_events.answer_keeps[OF num])
  have three: "pr_main s = PmDone \<longrightarrow> (if workers = [] then pr_got s = [] \<and> pending (pr_device s) = [answer_event]
      else pr_got s = [answer_event] \<and> pending (pr_device s) = [])"
    if "answer_inv pending s \<and> (pr_worker s = PwNone \<longleftrightarrow> workers = [])" for s
    using that by (cases "pr_worker s"; cases "pr_got s") (auto simp: answer_inv_def append_eq_Cons_conv)
  have four: "\<exists>n. one_at ((project_main eo ^^ n) (project_start d)) = OneDone"
    "fair f \<Longrightarrow> \<exists>n. pr_main (sched_run (answer_step eo) f (answer_launch workers d) n) = PmDone"
    if eager: "event_eager eo pending" for f
    using can_progress.can_reach_final[OF project_progress[OF eager] start(1)]
      fair_progress.reaches_final[OF answer_progress[OF eager] _ start(2)]
    by (auto simp: fold_unit)
  show ?thesis using one three[OF two] four unfolding Let_def by blast
qed

theorem one_event_programs_witness:
  "(\<exists>n. one_at ((project_main fifo_device ^^ n) (project_start [])) = OneDone) \<and>
   pr_got (sched_run (answer_step fifo_device) (\<lambda>n. if even n then PeMain else PeWorker) (answer_launch [3] []) 3) =
     [answer_event]"
proof -
  let ?s = "sched_run (answer_step fifo_device) (\<lambda>n. if even n then PeMain else PeWorker) (answer_launch [3] []) 3"
  have "pr_main ?s = PmDone" by code_simp
  then show ?thesis
    using one_event_programs[OF fifo_device.event_ok_axioms, of "[]" "[3]"] fifo_device.event_eager_axioms
    unfolding Let_def by fastforce
qed

subsection \<open>\<open>inter_process_comm/eventdev\<close>: buffers from one process to the other\<close>

text \<open>
  The pool of buffers, shared by the processes, is the heap argument \<open>ho\<close>: an address handed
  out by \<open>rte_pktmbuf_alloc\<close> until it is passed to \<open>rte_pktmbuf_free\<close>. The primary does not
  look at the result of the enqueue; \<open>ei_lost\<close>, of the model only, are the buffers the device
  refused. \<open>ei_received\<close> counts the lines the secondary prints.
\<close>

datatype ei_process = EiPrimary | EiSecondary

datatype eip_pc = EipAlloc | EipSend nat

datatype eis_pc = EisPoll | EisFree nat

record ('h, 'd) ei_state =
  ei_pool :: 'h
  ei_device :: 'd
  ei_lost :: "nat list"
  ei_received :: nat
  ei_primary_at :: eip_pc
  ei_secondary_at :: eis_pc

definition ei_primary :: "(nat, 'd) event_ops \<Rightarrow> 'h heap_ops \<Rightarrow> ('h, 'd) ei_state \<Rightarrow> ('h, 'd) ei_state" where
  "ei_primary eo ho s =
     (case ei_primary_at s of
        EipAlloc \<Rightarrow> (case malloc ho (ei_pool s) of
          (None, h) \<Rightarrow> s\<lparr>ei_pool := h\<rparr>
        | (Some mbuf, h) \<Rightarrow> s\<lparr>ei_pool := h, ei_primary_at := EipSend mbuf\<rparr>)
      | EipSend mbuf \<Rightarrow> (case ev_enqueue eo 0 \<lparr>queue_id = 0, flow_id = 0, ev_data = mbuf\<rparr> (ei_device s) of (ok, d) \<Rightarrow>
          s\<lparr>ei_device := d, ei_lost := ei_lost s @ (if ok then [] else [mbuf]), ei_primary_at := EipAlloc\<rparr>))"

definition ei_secondary :: "(nat, 'd) event_ops \<Rightarrow> 'h heap_ops \<Rightarrow> ('h, 'd) ei_state \<Rightarrow> ('h, 'd) ei_state" where
  "ei_secondary eo ho s =
     (case ei_secondary_at s of
        EisPoll \<Rightarrow> (case ev_dequeue eo 1 (ei_device s) of
          (None, d) \<Rightarrow> s\<lparr>ei_device := d\<rparr>
        | (Some ev, d) \<Rightarrow> s\<lparr>ei_device := d, ei_received := ei_received s + 1, ei_secondary_at := EisFree (ev_data ev)\<rparr>)
      | EisFree mbuf \<Rightarrow> s\<lparr>ei_pool := release ho mbuf (ei_pool s), ei_secondary_at := EisPoll\<rparr>)"

fun ei_step :: "(nat, 'd) event_ops \<Rightarrow> 'h heap_ops \<Rightarrow> ei_process \<Rightarrow> ('h, 'd) ei_state \<Rightarrow> ('h, 'd) ei_state" where
  "ei_step eo ho EiPrimary = ei_primary eo ho"
| "ei_step eo ho EiSecondary = ei_secondary eo ho"

definition ei_start :: "'h \<Rightarrow> 'd \<Rightarrow> ('h, 'd) ei_state" where
  "ei_start h d = \<lparr>ei_pool = h, ei_device = d, ei_lost = [], ei_received = 0,
     ei_primary_at = EipAlloc, ei_secondary_at = EisPoll\<rparr>"

fun eip_hand :: "eip_pc \<Rightarrow> nat list" where
  "eip_hand (EipSend m) = [m]" | "eip_hand EipAlloc = []"

fun eis_hand :: "eis_pc \<Rightarrow> nat list" where
  "eis_hand (EisFree m) = [m]" | "eis_hand EisPoll = []"

text \<open>Where a buffer in use can be, with its multiplicity.\<close>

definition ei_held :: "('d \<Rightarrow> nat event list) \<Rightarrow> ('h, 'd) ei_state \<Rightarrow> nat multiset" where
  "ei_held pending s = mset (eip_hand (ei_primary_at s)) + mset (map ev_data (pending (ei_device s))) +
     mset (eis_hand (ei_secondary_at s)) + mset (ei_lost s)"

definition single :: "'a multiset \<Rightarrow> bool" where
  "single H \<longleftrightarrow> (\<forall>a. count H a \<le> 1)"

definition ei_inv :: "('d \<Rightarrow> nat event list) \<Rightarrow> ('h \<Rightarrow> nat set) \<Rightarrow> nat set \<Rightarrow> ('h, 'd) ei_state \<Rightarrow> bool" where
  "ei_inv pending used U s \<longleftrightarrow>
     single (ei_held pending s) \<and> set_mset (ei_held pending s) \<inter> U = {} \<and>
     used (ei_pool s) = U \<union> set_mset (ei_held pending s)"

lemma ei_primary_held:
  assumes ok: "event_ok eo pending" "heap_ok ho used"
  obtains "ei_held pending (ei_primary eo ho s) = ei_held pending s"
      "used (ei_pool (ei_primary eo ho s)) = used (ei_pool s)"
    | m where "ei_primary_at s = EipAlloc" "fst (malloc ho (ei_pool s)) = Some m" "m \<notin> used (ei_pool s)"
      "ei_held pending (ei_primary eo ho s) = add_mset m (ei_held pending s)"
      "used (ei_pool (ei_primary eo ho s)) = insert m (used (ei_pool s))"
proof (cases "ei_primary_at s")
  case EipAlloc
  obtain y h where "malloc ho (ei_pool s) = (y, h)" by fastforce
  then show ?thesis
    using EipAlloc that heap_ok.malloc_some[OF ok(2), of "ei_pool s" _ h] heap_ok.malloc_none[OF ok(2), of "ei_pool s" h]
    by (cases y) (auto simp: ei_primary_def ei_held_def)
next
  case (EipSend m)
  then have "ei_held pending (ei_primary eo ho s) = ei_held pending s" "ei_pool (ei_primary eo ho s) = ei_pool s"
    using event_ok.enq[OF ok(1), of 0 "\<lparr>queue_id = 0, flow_id = 0, ev_data = m\<rparr>" "ei_device s"]
    by (auto simp: ei_primary_def ei_held_def split: prod.splits)
  then show ?thesis using that(1) by simp
qed

lemma ei_secondary_held:
  assumes ok: "event_ok eo pending" "heap_ok ho used"
  obtains "ei_held pending (ei_secondary eo ho s) = ei_held pending s"
      "used (ei_pool (ei_secondary eo ho s)) = used (ei_pool s)"
    | m where "ei_held pending s = add_mset m (ei_held pending (ei_secondary eo ho s))"
      "used (ei_pool (ei_secondary eo ho s)) = used (ei_pool s) - {m}"
proof (cases "ei_secondary_at s")
  case EisPoll
  then have "ei_held pending (ei_secondary eo ho s) = ei_held pending s" "ei_pool (ei_secondary eo ho s) = ei_pool s"
    using event_ok.deq_none[OF ok(1), of 1 "ei_device s"] event_ok.deq_mset[OF ok(1), of 1 "ei_device s"]
    by (auto simp: ei_secondary_def ei_held_def split: prod.splits option.splits)
  then show ?thesis using that(1) by simp
next
  case (EisFree m)
  then show ?thesis
    using that(2)[of m] heap_ok.release[OF ok(2), of m "ei_pool s"] by (simp add: ei_secondary_def ei_held_def)
qed

lemma single_empty [simp]: "single {#}"
  by (simp add: single_def)

lemma single_add [simp]: "single (add_mset m H) \<longleftrightarrow> m \<notin># H \<and> single H"
proof
  assume s: "single (add_mset m H)"
  have "count H a \<le> count (add_mset m H) a" for a by simp
  then have "single H" using s unfolding single_def by (meson order.trans)
  moreover have "m \<notin># H" using s unfolding single_def not_in_iff by (auto dest: spec[of _ m])
  ultimately show "m \<notin># H \<and> single H" by simp
qed (simp add: single_def not_in_iff)

lemma ei_keeps:
  assumes ok: "event_ok eo pending" "heap_ok ho used" and inv: "ei_inv pending used U s"
  shows "ei_inv pending used U (ei_step eo ho p s)"
proof (cases p)
  case EiPrimary
  show ?thesis
    by (rule ei_primary_held[OF ok, of s]) (use inv EiPrimary in \<open>auto simp: ei_inv_def\<close>)
next
  case EiSecondary
  show ?thesis
    by (rule ei_secondary_held[OF ok, of s]) (use inv EiSecondary in \<open>auto simp: ei_inv_def\<close>)
qed

text \<open>
  A pool of \<open>n\<close> buffers, all of them free at the start, has one to give while fewer are in use.
\<close>

locale pool_ok = heap_ok ho used
  for ho :: "'h heap_ops" and used +
  fixes n :: nat
  assumes gives: "card (used h) < n \<Longrightarrow> fst (malloc ho h) \<noteq> None"
    and no_more: "malloc ho h = (Some a, h') \<Longrightarrow> card (used h) < n"

definition list_pool :: "nat \<Rightarrow> nat list heap_ops" where
  "list_pool n =
     \<lparr>malloc = (\<lambda>U. let a = Suc (sum_list U) in if card (set U) < n then (Some a, a # U) else (None, U)),
      release = (\<lambda>a U. removeAll a U)\<rparr>"

interpretation list_pool: pool_ok "list_pool n" set n
  by unfold_locales (auto simp: list_pool_def Let_def above_sum_list split: if_splits)

text \<open>With such a pool, no larger than the device, and a device that delivers nothing is lost.\<close>

definition ei_lossless :: "('d \<Rightarrow> nat event list) \<Rightarrow> ('h \<Rightarrow> nat set) \<Rightarrow> nat \<Rightarrow> ('h, 'd) ei_state \<Rightarrow> bool" where
  "ei_lossless pending used n s \<longleftrightarrow>
     ei_inv pending used {} s \<and> ei_lost s = [] \<and> size (ei_held pending s) \<le> n"

lemma ei_used_size: "ei_inv pending used {} s \<Longrightarrow> card (used (ei_pool s)) = size (ei_held pending s)"
proof -
  assume "ei_inv pending used {} s"
  then have u: "used (ei_pool s) = set_mset (ei_held pending s)" and c: "\<forall>m. count (ei_held pending s) m \<le> 1"
    by (auto simp: ei_inv_def single_def)
  have "count (ei_held pending s) m = 1" if "m \<in># ei_held pending s" for m
    using c[rule_format, of m] that
    by (simp add: count_greater_zero_iff[symmetric] le_less_Suc_eq del: count_greater_zero_iff)
  then show ?thesis by (simp add: u size_multiset_overloaded_eq)
qed

lemma ei_lossless_keeps:
  assumes ok: "event_eager eo pending" "pool_ok ho used n" and "n \<le> 4096" and inv: "ei_lossless pending used n s"
  shows "ei_lossless pending used n (ei_step eo ho p s)"
proof -
  note dev = event_eager.axioms(1)[OF ok(1)] and pool = pool_ok.axioms(1)[OF ok(2)]
  have keeps: "ei_inv pending used {} (ei_step eo ho p s)"
    using inv ei_keeps[OF dev pool] by (simp add: ei_lossless_def)
  have size: "card (used (ei_pool s)) = size (ei_held pending s)"
    using inv ei_used_size by (auto simp: ei_lossless_def)
  show ?thesis
  proof (cases p)
    case EiPrimary
    have "ei_lost (ei_primary eo ho s) = []"
    proof (cases "ei_primary_at s")
      case (EipSend m)
      then have "length (pending (ei_device s)) < 4096"
        using inv \<open>n \<le> 4096\<close> by (simp add: ei_lossless_def ei_held_def)
      then show ?thesis
        using EipSend inv event_eager.space[OF ok(1), of "ei_device s" 0 "\<lparr>queue_id = 0, flow_id = 0, ev_data = m\<rparr>"]
        by (cases "ev_enqueue eo 0 \<lparr>queue_id = 0, flow_id = 0, ev_data = m\<rparr> (ei_device s)")
          (simp add: ei_primary_def ei_lossless_def)
    qed (use inv in \<open>simp add: ei_primary_def ei_lossless_def split: prod.split option.split\<close>)
    moreover have "size (ei_held pending (ei_primary eo ho s)) \<le> n"
    proof (rule ei_primary_held[OF dev pool, of s])
      fix m
      assume "fst (malloc ho (ei_pool s)) = Some m"
      then have "card (used (ei_pool s)) < n"
        using pool_ok.no_more[OF ok(2)] by (metis prod.collapse)
      then show "ei_held pending (ei_primary eo ho s) = add_mset m (ei_held pending s) \<Longrightarrow> ?thesis" using size by simp
    qed (use inv in \<open>simp add: ei_lossless_def\<close>)
    ultimately show ?thesis using EiPrimary keeps by (simp add: ei_lossless_def)
  next
    case EiSecondary
    have "ei_lost (ei_secondary eo ho s) = []"
      using inv by (auto simp: ei_secondary_def ei_lossless_def split: eis_pc.split prod.split option.split)
    moreover have "size (ei_held pending (ei_secondary eo ho s)) \<le> n"
      by (rule ei_secondary_held[OF dev pool, of s]) (use inv in \<open>simp_all add: ei_lossless_def\<close>)
    ultimately show ?thesis using EiSecondary keeps by (simp add: ei_lossless_def)
  qed
qed

text \<open>How far the secondary is from its \<open>k\<close>-th event.\<close>

definition ei_mu :: "('d \<Rightarrow> nat event list) \<Rightarrow> nat \<Rightarrow> ('h, 'd) ei_state \<Rightarrow> nat" where
  "ei_mu pending k s = 4 * (k - ei_received s) +
     (if ei_secondary_at s \<noteq> EisPoll then 3 else if pending (ei_device s) \<noteq> [] then 0
      else if ei_primary_at s = EipAlloc then 2 else 1)"

definition ei_mover :: "('d \<Rightarrow> nat event list) \<Rightarrow> ('h, 'd) ei_state \<Rightarrow> ei_process" where
  "ei_mover pending s =
     (if ei_secondary_at s \<noteq> EisPoll \<or> pending (ei_device s) \<noteq> [] then EiSecondary else EiPrimary)"

lemma ei_progress:
  assumes ok: "event_eager eo pending" "pool_ok ho used n" and n: "0 < n" "n \<le> 4096"
  shows "fair_progress (ei_step eo ho) (ei_lossless pending used n) (\<lambda>s. k \<le> ei_received s)
    (ei_mu pending k) (ei_mover pending)"
proof
  fix s and p :: ei_process
  note dev = event_eager.axioms(1)[OF ok(1)]
  show "ei_lossless pending used n s \<Longrightarrow> ei_lossless pending used n (ei_step eo ho p s)"
    by (rule ei_lossless_keeps[OF ok n(2)])
  assume inv: "ei_lossless pending used n s" and more: "\<not> k \<le> ei_received s"
  have secondary: "ei_mu pending k (ei_secondary eo ho s) < ei_mu pending k s" if "ei_mover pending s = EiSecondary"
  proof (cases "ei_secondary_at s")
    case EisPoll
    then have "fst (ev_dequeue eo 1 (ei_device s)) \<noteq> None"
      using that by (intro event_eager.eager[OF ok(1)]) (auto simp: ei_mover_def split: if_splits)
    then show ?thesis
      using EisPoll more by (auto simp: ei_secondary_def ei_mu_def split: prod.split option.splits)
  qed (simp add: ei_secondary_def ei_mu_def)
  have primary: "ei_mu pending k (ei_primary eo ho s) < ei_mu pending k s" if "ei_mover pending s = EiPrimary"
  proof (cases "ei_primary_at s")
    case EipAlloc
    have "ei_held pending s = {#}"
      using that inv EipAlloc by (auto simp: ei_mover_def ei_held_def ei_lossless_def split: if_splits)
    then have "fst (malloc ho (ei_pool s)) \<noteq> None"
      using inv n(1) ei_used_size[of pending used s] by (intro pool_ok.gives[OF ok(2)]) (simp add: ei_lossless_def)
    then show ?thesis
      using EipAlloc that by (auto simp: ei_primary_def ei_mu_def ei_mover_def split: prod.split option.splits if_splits)
  next
    case (EipSend m)
    let ?e = "\<lparr>queue_id = 0, flow_id = 0, ev_data = m\<rparr>"
    have "pending (ei_device s) = []" "ei_secondary_at s = EisPoll"
      using that by (auto simp: ei_mover_def split: if_splits)
    moreover from this have "fst (ev_enqueue eo 0 ?e (ei_device s))"
      by (intro event_eager.space[OF ok(1)]) simp
    ultimately show ?thesis
      using EipSend event_ok.enq[OF dev, of 0 ?e "ei_device s"]
      by (cases "ev_enqueue eo 0 ?e (ei_device s)") (simp add: ei_primary_def ei_mu_def)
  qed
  show "ei_mu pending k (ei_step eo ho (ei_mover pending s) s) < ei_mu pending k s"
    using primary secondary by (cases "ei_mover pending s") simp_all
  assume "p \<noteq> ei_mover pending s"
  then consider "p = EiPrimary" "ei_mover pending s = EiSecondary" | "p = EiSecondary" "ei_mover pending s = EiPrimary"
    by (cases p; cases "ei_mover pending s") simp_all
  then show "ei_mu pending k (ei_step eo ho p s) < ei_mu pending k s \<or>
      ei_mu pending k (ei_step eo ho p s) = ei_mu pending k s \<and>
      ei_mover pending (ei_step eo ho p s) = ei_mover pending s"
  proof cases
    case 1
    then show ?thesis
      using event_ok.enq[OF dev, of 0 _ "ei_device s"]
      by (cases "ei_primary_at s") (fastforce simp: ei_primary_def ei_mu_def ei_mover_def split: prod.splits option.splits if_splits)+
  next
    case 2
    then have "ei_secondary_at s = EisPoll" "pending (ei_device s) = []"
      by (auto simp: ei_mover_def split: if_splits)
    moreover from this have "fst (ev_dequeue eo 1 (ei_device s)) = None"
      using event_ok.deq_mset[OF dev, of 1 "ei_device s"] by (cases "ev_dequeue eo 1 (ei_device s)") (cases "fst (ev_dequeue eo 1 (ei_device s))", auto)
    ultimately show ?thesis
      using 2 event_ok.deq_none[OF dev, of 1 "ei_device s"]
      by (cases "ev_dequeue eo 1 (ei_device s)") (simp add: ei_secondary_def ei_mu_def ei_mover_def)
  qed
qed



subsection \<open>Setting up the device\<close>

definition project_setup :: "step list" where
  "project_setup =
     [(EalInit, ExitNeg ''EAL init failed''),
      (EventCall ''rte_event_dev_configure'' 0, ExitNeg ''Configure failed''),
      (EventCall ''rte_event_queue_setup'' 0, ExitNeg ''Queue setup failed''),
      (EventCall ''rte_event_port_default_conf_get'' 0, Ignored),
      (EventCall ''rte_event_port_setup'' 0, ExitNeg ''Producer port failed''),
      (EventCall ''rte_event_port_default_conf_get'' 1, Ignored),
      (EventCall ''rte_event_port_setup'' 1, ExitNeg ''Consumer port failed''),
      (EventCall ''rte_event_port_link'' 1, Ignored),
      (EventCall ''rte_event_dev_start'' 0, ExitNeg ''Start failed'')]"

definition two_consumers_setup :: "step list" where
  "two_consumers_setup =
     [(EalInit, ExitNeg ''EAL init failed''),
      (EventCall ''rte_event_dev_configure'' 0, ExitNeg ''Configure failed''),
      (EventCall ''rte_event_queue_setup'' 0, ExitNeg ''Queue setup failed''),
      (EventCall ''rte_event_port_default_conf_get'' 0, Ignored),
      (EventCall ''rte_event_port_setup'' 0, ExitNeg ''Producer port failed''),
      (EventCall ''rte_event_port_default_conf_get'' 1, Ignored),
      (EventCall ''rte_event_port_setup'' 1, ExitNeg ''Consumer port 1 failed''),
      (EventCall ''rte_event_port_default_conf_get'' 2, Ignored),
      (EventCall ''rte_event_port_setup'' 2, ExitNeg ''Consumer port 2 failed''),
      (EventCall ''rte_event_port_link'' 1, Ignored), (EventCall ''rte_event_port_link'' 2, Ignored),
      (EventCall ''rte_event_dev_start'' 0, ExitNeg ''Start failed'')]"

definition practice_setup :: "step list" where
  "practice_setup =
     [(EalInit, ExitNeg ''Eal init failed''),
      (EventCall ''rte_event_dev_configure'' 0, ExitNeg ''configure failed''),
      (EventCall ''rte_event_queue_setup'' 0, ExitNonZero ''Queue setup failed''),
      (EventCall ''rte_event_port_default_conf_get'' 0, Ignored),
      (EventCall ''rte_event_port_setup'' 0, ExitNonZero ''Port setup failed''),
      (EventCall ''rte_event_port_link'' 0, ExitNeg ''Port link failed''),
      (EventCall ''rte_event_dev_start'' 0, ExitNeg ''Start failed'')]"

definition ei_primary_setup :: "step list" where
  "ei_primary_setup =
     [(EalInit, ExitNeg ''EAL init failed''), (PoolCreate 1024 32, ExitZero ''Cannot create mempool''),
      (EventCall ''rte_event_dev_configure'' 0, Ignored), (EventCall ''rte_event_queue_setup'' 0, Ignored),
      (EventCall ''rte_event_port_setup'' 0, Ignored), (EventCall ''rte_event_port_setup'' 1, Ignored),
      (EventCall ''rte_event_port_link'' 0, Ignored), (EventCall ''rte_event_port_link'' 1, Ignored),
      (EventCall ''rte_event_dev_start'' 0, Ignored)]"

text \<open>
  What a device needs before events may flow: configured, its queue and each of its \<open>np\<close> ports
  set up, then started, every one of these calls having succeeded.
\<close>

definition event_calls :: "nat \<Rightarrow> call list" where
  "event_calls np =
     EalInit # EventCall ''rte_event_dev_configure'' 0 # EventCall ''rte_event_queue_setup'' 0 #
     map (EventCall ''rte_event_port_setup'') [0..<np] @ [EventCall ''rte_event_dev_start'' 0]"

definition event_started :: "nat \<Rightarrow> trace \<Rightarrow> bool" where
  "event_started np tr \<longleftrightarrow> map fst (filter (\<lambda>(c, r). 0 \<le> r \<and> c \<in> set (event_calls np)) tr) = event_calls np"

lemma filter_zip_checked:
  assumes "length rs = length ps" and "\<forall>i<length ps. neg_fatal (snd (ps ! i)) \<longrightarrow> 0 \<le> rs ! i"
    and "\<forall>(c, k)\<in>set ps. c \<in> W \<longrightarrow> neg_fatal k"
  shows "map fst (filter (\<lambda>(c, r). 0 \<le> r \<and> c \<in> W) (zip (map fst ps) rs)) = filter (\<lambda>c. c \<in> W) (map fst ps)"
  using assms
proof (induction ps arbitrary: rs)
  case (Cons s ps)
  then obtain r rs' where r: "rs = r # rs'" by (cases rs) auto
  moreover have "\<forall>i<length ps. neg_fatal (snd (ps ! i)) \<longrightarrow> 0 \<le> rs' ! i"
    using Cons.prems(2) r by (auto simp: nth_Cons split: nat.splits)
  moreover have "fst s \<in> W \<Longrightarrow> 0 \<le> r" using Cons.prems(2,3) r by (cases s) force
  ultimately show ?case using Cons by auto
qed simp

definition event_checked :: "nat \<Rightarrow> step list \<Rightarrow> bool" where
  "event_checked np ps \<longleftrightarrow> list_all (\<lambda>(c, k). c \<in> set (event_calls np) \<longrightarrow> neg_fatal k) ps \<and>
     filter (\<lambda>c. c \<in> set (event_calls np)) (map fst ps) = event_calls np"

lemma event_checked_sound:
  assumes "event_checked np ps" and "run_setup env ps [] = (Running, tr)"
  shows "event_started np tr"
proof -
  from run_setup_trace[OF assms(2)] obtain rs where "tr = zip (map fst ps) rs" "length rs = length ps"
      "\<forall>i<length ps. neg_fatal (snd (ps ! i)) \<longrightarrow> 0 \<le> rs ! i" by auto
  then show ?thesis 
    using filter_zip_checked[of rs ps "set (event_calls np)"] assms(1)
    by (simp add: event_started_def event_checked_def list_all_iff)
qed

lemma event_setups_checked:
  "event_checked 2 project_setup" "event_checked 3 two_consumers_setup" "event_checked 1 practice_setup"
  by (simp_all add: event_checked_def event_calls_def project_setup_def two_consumers_setup_def
      practice_setup_def upt_rec)

text \<open>An environment in which one call returns \<open>v\<close>, a pool is created, and the others return 0.\<close>

definition result_env :: "call \<Rightarrow> int \<Rightarrow> env" where
  "result_env c0 v tr c = (if c = c0 then v else if is_pool c then 1 else 0)"

text \<open>
  The start-up code of the event programs, whatever the library returns. \<open>01project\<close>,
  \<open>02practice\<close> and \<open>practice\<close> go on only with a device that is configured, has its queue and
  all its ports, and has started; the primary of \<open>inter_process_comm/eventdev\<close> goes on although
  the device did not start. None of them makes sure that its consumers are linked to the queue:
  \<open>01project\<close> and \<open>02practice\<close> ignore the result, and \<open>practice\<close> takes the number of links
  made, 0, for success.
\<close>

theorem event_setups:
  "(\<forall>(np, ps)\<in>{(2, project_setup), (3, two_consumers_setup), (1, practice_setup)}. \<forall>env tr.
      run_setup env ps [] = (Running, tr) \<longrightarrow> event_started np tr) \<and>
   (let run = run_setup (result_env (EventCall ''rte_event_dev_start'' 0) (-1)) ei_primary_setup []
    in fst run = Running \<and> \<not> event_started 2 (snd run)) \<and>
   fst (run_setup (result_env (EventCall ''rte_event_port_link'' 1) (-1)) project_setup []) = Running \<and>
   fst (run_setup (result_env (EventCall ''rte_event_port_link'' 1) (-1)) two_consumers_setup []) = Running \<and>
   fst (run_setup (result_env (EventCall ''rte_event_port_link'' 0) 0) practice_setup []) = Running"
proof (intro conjI)
  show "\<forall>(np, ps)\<in>{(2, project_setup), (3, two_consumers_setup), (1, practice_setup)}. \<forall>env tr.
      run_setup env ps [] = (Running, tr) \<longrightarrow> event_started np tr"
    using event_setups_checked event_checked_sound by blast
qed (simp_all add: ei_primary_setup_def project_setup_def two_consumers_setup_def practice_setup_def
    result_env_def stops_def event_started_def event_calls_def Let_def upt_rec)

theorem event_setups_witness:
  "event_started 2 (snd (run_setup (result_env EalInit 0) project_setup []))"
proof -
  have "run_setup (result_env EalInit 0) project_setup [] =
      (Running, snd (run_setup (result_env EalInit 0) project_setup []))"
    by (simp add: project_setup_def result_env_def stops_def)
  then show ?thesis using event_setups by blast
qed

end
