(* ===== verification/ReorderSample.thy ===== *)
theory ReorderSample
  imports Reorder Processes
begin

text \<open>
  \<open>reordering/sample/main.c\<close>: eight buffers inserted out of order into a reorder buffer and
  drained. This program needs more of the library's contract than the loops of theory Reorder:
  the locale \<open>reorder_window\<close> says what a buffer inserted ahead of its turn waits for.
\<close>

text \<open>The buffers held from a number on, without a gap; \<open>n\<close> at most.\<close>

fun consecutive :: "nat \<Rightarrow> (u32 \<rightharpoonup> mbuf) \<Rightarrow> u32 \<Rightarrow> mbuf list" where
  "consecutive 0 h e = []"
| "consecutive (Suc n) h e = (case h e of None \<Rightarrow> [] | Some m \<Rightarrow> m # consecutive n h (e + 1))"

text \<open>
  \<open>base\<close> is the number the buffer is waiting for, none before the first insertion, which sets
  it; \<open>held\<close> are the buffers waiting. A number within the window from the base is accepted.
\<close>

locale reorder_window =
  fixes ro :: "'r reorder_ops" and base :: "'r \<Rightarrow> u32 option" and held :: "'r \<Rightarrow> u32 \<rightharpoonup> mbuf"
    and win :: "'r \<Rightarrow> u32"
  assumes ins: "insert_packet ro m s r = (ok, r') \<Longrightarrow> held r s = None \<Longrightarrow>
      s - (case base r of None \<Rightarrow> s | Some e \<Rightarrow> e) < win r \<Longrightarrow>
      ok \<and> base r' = Some (case base r of None \<Rightarrow> s | Some e \<Rightarrow> e) \<and> held r' = (held r)(s \<mapsto> m) \<and> win r' = win r"
    and drn: "drain_packets ro n r = (ms, r') \<Longrightarrow> base r = Some e \<Longrightarrow> ms = consecutive n (held r) e"

type_synonym window_buffer = "u32 \<times> u32 option \<times> (u32 \<rightharpoonup> mbuf)"

definition window_reorder :: "window_buffer reorder_ops" where
  "window_reorder =
     \<lparr>insert_packet = (\<lambda>m s (w, e, h).
        let b = (case e of None \<Rightarrow> s | Some e \<Rightarrow> e)
        in if s - b < w \<and> h s = None then (True, (w, Some b, h(s \<mapsto> m))) else (False, (w, e, h))),
      drain_packets = (\<lambda>n (w, e, h). case e of None \<Rightarrow> ([], (w, e, h)) | Some b \<Rightarrow>
        let ms = consecutive n h b; b' = b + of_nat (length ms)
        in (ms, (w, Some b', \<lambda>s. if s - b < of_nat (length ms) then None else h s)))\<rparr>"

interpretation window_reorder: reorder_window window_reorder "\<lambda>(w, e, h). e" "\<lambda>(w, e, h). h" "\<lambda>(w, e, h). w"
  by unfold_locales (auto simp: window_reorder_def Let_def split: if_splits option.splits)

subsection \<open>The program\<close>

datatype reorder_exit = AllocFailed

text \<open>\<open>inserted\<close> and \<open>drained\<close> are the numbers printed.\<close>

record ('h, 'r) sample_run =
  pool :: 'h
  rob :: 'r
  seqno_of :: "mbuf \<Rightarrow> u32"
  inserted :: "u32 list"
  drained_seqs :: "u32 list"

definition seq_list :: "u32 list" where
  "seq_list = [0, 2, 1, 4, 3, 6, 5, 7]"

fun sample_insert :: "'h heap_ops \<Rightarrow> 'r reorder_ops \<Rightarrow> u32 list \<Rightarrow> ('h, 'r) sample_run \<Rightarrow> reorder_exit + ('h, 'r) sample_run" where
  "sample_insert ho ro [] s = Inr s"
| "sample_insert ho ro (q # qs) s =
     (case malloc ho (pool s) of
        (None, h) \<Rightarrow> Inl AllocFailed
      | (Some m, h) \<Rightarrow>
          let s = s\<lparr>pool := h, seqno_of := (seqno_of s)(m := q), inserted := inserted s @ [q]\<rparr>
          in sample_insert ho ro qs (s\<lparr>rob := snd (insert_packet ro m (seqno_of s m) (rob s))\<rparr>))"

definition sample_free :: "'h heap_ops \<Rightarrow> mbuf \<Rightarrow> ('h, 'r) sample_run \<Rightarrow> ('h, 'r) sample_run" where
  "sample_free ho m s = s\<lparr>drained_seqs := drained_seqs s @ [seqno_of s m], pool := release ho m (pool s)\<rparr>"

definition sample_main :: "'h heap_ops \<Rightarrow> 'r reorder_ops \<Rightarrow> ('h, 'r) sample_run \<Rightarrow> reorder_exit + ('h, 'r) sample_run" where
  "sample_main ho ro s =
     (case sample_insert ho ro seq_list s of
        Inl e \<Rightarrow> Inl e
      | Inr s \<Rightarrow> (case drain_packets ro 8 (rob s) of (out, r) \<Rightarrow> Inr (fold (sample_free ho) out (s\<lparr>rob := r\<rparr>))))"

definition sample_start :: "'h \<Rightarrow> 'r \<Rightarrow> ('h, 'r) sample_run" where
  "sample_start h r = \<lparr>pool = h, rob = r, seqno_of = (\<lambda>_. 0), inserted = [], drained_seqs = []\<rparr>"

lemma consecutive_full:
  "set (numbers e n) \<subseteq> dom h \<Longrightarrow> consecutive n h e = map (the \<circ> h) (numbers e n)"
  by (induction n arbitrary: e) auto

lemma ran_image: "ran h = (the \<circ> h) ` dom h"
  by (force simp: ran_def dom_def image_def)

text \<open>
  After the insertion of the numbers \<open>qs\<close>, each within the window from the first: their buffers
  wait under their numbers, are different, and are what the pool has handed out.
\<close>

definition waiting ::
    "('r \<Rightarrow> u32 option) \<Rightarrow> ('r \<Rightarrow> u32 \<rightharpoonup> mbuf) \<Rightarrow> ('h \<Rightarrow> nat set) \<Rightarrow> nat set \<Rightarrow> u32 list \<Rightarrow> ('h, 'r) sample_run \<Rightarrow> bool" where
  "waiting base held used U qs s \<longleftrightarrow>
     base (rob s) = (if qs = [] then None else Some (hd qs)) \<and> dom (held (rob s)) = set qs \<and>
     inj_on (held (rob s)) (set qs) \<and> (\<forall>q m. held (rob s) q = Some m \<longrightarrow> seqno_of s m = q) \<and>
     used (pool s) = U \<union> ran (held (rob s)) \<and> ran (held (rob s)) \<inter> U = {} \<and>
     inserted s = qs \<and> drained_seqs s = []"

lemma sample_insert_waiting:
  assumes ok: "reorder_window ro base held win" "heap_ok ho used"
    and "waiting base held used U done s" and "win (rob s) = w"
    and "distinct (done @ qs)" and "\<forall>q\<in>set qs. q - hd (done @ qs) < w"
    and "sample_insert ho ro qs s = Inr s'"
  shows "waiting base held used U (done @ qs) s'"
  using assms(3-)
proof (induction qs arbitrary: "done" s)
  case (Cons q qs)
  then obtain m h where m: "malloc ho (pool s) = (Some m, h)"
    by (auto split: prod.splits option.splits)
  obtain k r where r: "insert_packet ro m q (rob s) = (k, r)" by fastforce
  let ?s = "s\<lparr>pool := h, seqno_of := (seqno_of s)(m := q), inserted := inserted s @ [q], rob := r\<rparr>"
  have run: "sample_insert ho ro qs ?s = Inr s'" using Cons.prems(5) m r by (simp add: Let_def)
  have new: "m \<notin> used (pool s)" "used h = insert m (used (pool s))"
    using heap_ok.malloc_some[OF ok(2) m] by auto
  have free: "held (rob s) q = None" using Cons.prems(1,3) by (auto simp: waiting_def)
  have "q - (case base (rob s) of None \<Rightarrow> q | Some e \<Rightarrow> e) < win (rob s)"
    using Cons.prems(1,2,4) by (cases "done") (auto simp: waiting_def)
  from reorder_window.ins[OF ok(1) r free this]
  have r': "base r = Some (case base (rob s) of None \<Rightarrow> q | Some e \<Rightarrow> e)" "held r = (held (rob s))(q \<mapsto> m)"
    "win r = win (rob s)" by simp_all
  have "ran (held r) = insert m (ran (held (rob s)))" using free r'(2) by simp
  then have "waiting base held used U (done @ [q]) ?s"
    using Cons.prems(1,3) r' new
    by (auto simp: waiting_def hd_append inj_on_def ran_def split: option.splits)
  from Cons.IH[OF this] show ?case using Cons.prems(2,3,4) r'(3) run by simp
qed simp

lemma fold_sample_free:
  assumes "heap_ok ho used"
  shows "drained_seqs (fold (sample_free ho) ms s) = drained_seqs s @ map (seqno_of s) ms \<and>
    used (pool (fold (sample_free ho) ms s)) = used (pool s) - set ms \<and>
    inserted (fold (sample_free ho) ms s) = inserted s"
  by (induction ms arbitrary: s) (auto simp: sample_free_def heap_ok.release[OF assms])

lemma seq_list_facts:
  "distinct seq_list" "set seq_list = set (numbers 0 8)" "\<forall>q\<in>set seq_list. q - hd seq_list < 8"
  by code_simp+

text \<open>
  The reorder sample, with any reorder buffer of window 8 and any pool that meet their
  documentation: it panics when the pool is empty; otherwise it inserts the numbers 0, 2, 1, 4,
  3, 6, 5, 7, drains 0 to 7 in order, and has given all eight buffers back.
\<close>

theorem reorder_sample:
  assumes "reorder_window ro base held win" and "heap_ok ho used"
    and "base r = None" and "held r = Map.empty" and "win r = 8"
  shows "(case sample_main ho ro (sample_start h r) of
      Inl e \<Rightarrow> \<exists>h'. fst (malloc ho h') = None
    | Inr s \<Rightarrow> inserted s = seq_list \<and> drained_seqs s = [0, 1, 2, 3, 4, 5, 6, 7] \<and> used (pool s) = used h)"
proof (cases "sample_insert ho ro seq_list (sample_start h r)")
  case (Inl e)
  have "sample_insert ho ro qs s = Inl e \<Longrightarrow> \<exists>h'. fst (malloc ho h') = None" for qs s
    by (induction qs arbitrary: s) (auto simp: Let_def split: prod.splits option.splits, metis fst_conv)
  with Inl show ?thesis by (simp add: sample_main_def)
next
  case (Inr s)
  have "waiting base held used (used h) [] (sample_start h r)"
    using assms(3,4) by (simp add: waiting_def sample_start_def)
  from sample_insert_waiting[OF assms(1,2) this _ _ _ Inr] have w: "waiting base held used (used h) seq_list s"
    using assms(5) seq_list_facts(1,3) by (simp add: sample_start_def)
  obtain out r' where d: "drain_packets ro 8 (rob s) = (out, r')" by fastforce
  have "out = consecutive 8 (held (rob s)) 0"
    using reorder_window.drn[OF assms(1) d, of 0] w by (simp add: waiting_def seq_list_def)
  then have out: "out = map (the \<circ> held (rob s)) (numbers 0 8)"
    using w seq_list_facts(2) by (simp add: consecutive_full waiting_def)
  have seqs: "seqno_of s (the (held (rob s) q)) = q" if "q \<in> set (numbers 0 8)" for q
    using that w seq_list_facts(2) by (force simp: waiting_def)
  have "set out = ran (held (rob s))"
    using w seq_list_facts(2) by (simp add: out ran_image waiting_def del: numbers.simps)
  moreover have "map (seqno_of s) out = numbers 0 8"
    unfolding out by (simp add: seqs map_idI)
  moreover have "numbers 0 8 = [0, 1, 2, 3, 4, 5, 6, 7]" by code_simp
  ultimately show ?thesis
    using w fold_sample_free[OF assms(2), of out "s\<lparr>rob := r'\<rparr>"]
    by (auto simp: sample_main_def Inr d waiting_def)
qed

theorem reorder_sample_witness:
  "case sample_main list_heap window_reorder (sample_start [] (8, None, Map.empty)) of
     Inl e \<Rightarrow> False
   | Inr s \<Rightarrow> drained_seqs s = [0, 1, 2, 3, 4, 5, 6, 7] \<and> pool s = []"
  using reorder_sample[OF window_reorder.reorder_window_axioms list_heap.heap_ok_axioms,
      of "(8, None, Map.empty)" "[]"]
  by (auto simp: list_heap_never_full split: sum.splits)

end
