(* ===== verification/Arguments.thy ===== *)
theory Arguments
  imports Prelude
begin

text \<open>
  Command-line arguments: the functions of the C library with which the programs read numbers,
  and the code that uses them, \<open>parse_args\<close> of \<open>ACL/l2fwd_acl/main.c\<close> and the first lines of
  \<open>main\<close> in \<open>feature_arc/graph_arc\<close> and \<open>graph_private_context/sample\<close>. A \<open>long\<close> has 64 bits, an
  \<open>int\<close> 32.
\<close>

subsection \<open>\<open>strtoul\<close>, \<open>strtol\<close>, \<open>atoi\<close>\<close>

definition digit_value :: "char \<Rightarrow> nat option" where
  "digit_value c =
     (let n = of_char c :: nat
      in if 48 \<le> n \<and> n \<le> 57 then Some (n - 48)
         else if 97 \<le> n \<and> n \<le> 122 then Some (n - 87)
         else if 65 \<le> n \<and> n \<le> 90 then Some (n - 55) else None)"

fun scan_digits :: "nat \<Rightarrow> nat \<Rightarrow> string \<Rightarrow> nat" where
  "scan_digits b a [] = a"
| "scan_digits b a (c # cs) =
     (case digit_value c of None \<Rightarrow> a | Some d \<Rightarrow> if d < b then scan_digits b (a * b + d) cs else a)"

definition isspace :: "char \<Rightarrow> bool" where
  "isspace c \<longleftrightarrow> (let n = of_char c :: nat in n = 32 \<or> 9 \<le> n \<and> n \<le> 13)"

text \<open>
  The sign and the magnitude of the number at the start of a string. With base 16 a prefix 0x
  is skipped; where no digit follows it the number is 0 either way.
\<close>

definition scan_number :: "nat \<Rightarrow> string \<Rightarrow> bool \<times> nat" where
  "scan_number b s =
     (let s = dropWhile isspace s;
          neg = (take 1 s = ''-'');
          s = (if take 1 s \<in> {''-'', ''+''} then drop 1 s else s);
          s = (if b = 16 \<and> take 2 s \<in> {''0x'', ''0X''} then drop 2 s else s)
      in (neg, scan_digits b 0 s))"

definition strtoul :: "nat \<Rightarrow> string \<Rightarrow> u64" where
  "strtoul b s =
     (case scan_number b s of (neg, n) \<Rightarrow>
        if 2 ^ 64 \<le> n then - 1 else if neg then - of_nat n else of_nat n)"

definition strtol :: "nat \<Rightarrow> string \<Rightarrow> int" where
  "strtol b s =
     (case scan_number b s of (neg, n) \<Rightarrow>
        if neg then max (- (2 ^ 63)) (- int n) else min (2 ^ 63 - 1) (int n))"

text \<open>A conversion to \<open>int\<close>.\<close>

definition to_int :: "int \<Rightarrow> int" where
  "to_int i = sint (word_of_int i :: 32 word)"

definition atoi :: "string \<Rightarrow> int" where
  "atoi s = to_int (strtol 10 s)"

subsection \<open>Printing numbers\<close>

definition digit_char :: "nat \<Rightarrow> char" where
  "digit_char d = char_of (if d < 10 then 48 + d else 87 + d)"

fun show_number :: "nat \<Rightarrow> nat \<Rightarrow> string" where
  "show_number b n =
     (if n < b \<or> b < 2 then [digit_char n] else show_number b (n div b) @ [digit_char (n mod b)])"

declare show_number.simps [simp del]

lemma digit_value_char: "d < 36 \<Longrightarrow> digit_value (digit_char d) = Some d"
  by (auto simp: digit_value_def digit_char_def Let_def of_char_of)

lemma scan_digits_append:
  assumes "list_all (\<lambda>c. \<exists>d<b. digit_value c = Some d) xs"
  shows "scan_digits b a (xs @ ys) = scan_digits b (scan_digits b a xs) ys"
  using assms by (induction xs arbitrary: a) auto

lemma show_number_digits:
  assumes "2 \<le> b" and "b \<le> 36"
  shows "list_all (\<lambda>c. \<exists>d<b. digit_value c = Some d) (show_number b n) \<and> scan_digits b 0 (show_number b n) = n"
proof (induction n rule: less_induct)
  case (less n)
  show ?case
  proof (cases "n < b")
    case True
    then show ?thesis using assms by (simp add: show_number.simps[of b n] digit_value_char)
  next
    case False
    then have "n div b < n" using assms by simp
    from less[OF this] show ?thesis
      using False assms less_le_trans[OF mod_less_divisor[of b n] assms(2)]
      by (simp add: show_number.simps[of b n] digit_value_char scan_digits_append)
  qed
qed

lemma show_number_first:
  assumes "2 \<le> b" and "b \<le> 36"
  shows "\<exists>d cs. d < b \<and> show_number b n = digit_char d # cs"
proof (induction n rule: less_induct)
  case (less n)
  show ?case
  proof (cases "n < b")
    case True
    then show ?thesis by (auto simp: show_number.simps[of b n])
  next
    case False
    then have "n div b < n" using assms by simp
    from less[OF this] show ?thesis using False assms by (auto simp: show_number.simps[of b n])
  qed
qed

lemma digit_char_first:
  assumes "d < 36"
  shows "\<not> isspace (digit_char d)" "digit_char d \<noteq> CHR ''-''" "digit_char d \<noteq> CHR ''+''"
    "digit_char d = CHR ''x'' \<longleftrightarrow> d = 33" "digit_char d \<noteq> CHR ''X''"
proof -
  have n: "of_char (digit_char d) = (if d < 10 then 48 + d else 87 + d)"
    using assms by (simp add: digit_char_def of_char_of)
  show "\<not> isspace (digit_char d)" using assms by (simp add: isspace_def n)
  have eq: "digit_char d = c \<longleftrightarrow> (if d < 10 then 48 + d else 87 + d) = of_char c" for c
    using n by (metis of_char_eq_iff)
  show "digit_char d \<noteq> CHR ''-''" "digit_char d \<noteq> CHR ''+''" "digit_char d = CHR ''x'' \<longleftrightarrow> d = 33"
    "digit_char d \<noteq> CHR ''X''"
    using assms by (auto simp: eq)
qed

lemma digit_value_x [simp]: "digit_value CHR ''x'' = Some 33" "digit_value CHR ''X'' = Some 33"
  by code_simp+

lemma no_prefix:
  assumes "list_all (\<lambda>c. \<exists>d<16. digit_value c = Some d) (c # cs)"
  shows "take (Suc 0) cs \<noteq> ''x''" "take (Suc 0) cs \<noteq> ''X''"
  using assms by (cases cs; auto)+

lemma scan_number_show:
  assumes "b = 10 \<or> b = 16"
  shows "scan_number b (show_number b n) = (False, n)" "scan_number b (CHR ''-'' # show_number b n) = (True, n)"
proof -
  obtain d cs where dc: "d < b" "show_number b n = digit_char d # cs"
    using show_number_first[of b n] assms by auto
  then have d: "d < 36" using assms by auto
  have digits: "list_all (\<lambda>c. \<exists>d<b. digit_value c = Some d) (show_number b n)" "scan_digits b 0 (show_number b n) = n"
    using show_number_digits[of b n] assms by auto
  have "b = 16 \<Longrightarrow> take (Suc 0) cs \<noteq> ''x'' \<and> take (Suc 0) cs \<noteq> ''X''"
    using no_prefix[of "digit_char d" cs] digits(1) dc(2) by simp
  then show "scan_number b (show_number b n) = (False, n)" "scan_number b (CHR ''-'' # show_number b n) = (True, n)"
    using digits(2) digit_char_first[OF d]
    by (auto simp: scan_number_def dc(2) isspace_def Let_def simp del: scan_digits.simps)
qed

lemma strtoul_show:
  assumes "b = 10 \<or> b = 16" and "n < 2 ^ 64"
  shows "strtoul b (show_number b n) = of_nat n" "strtoul b (CHR ''-'' # show_number b n) = - of_nat n"
  using assms scan_number_show[OF assms(1)] by (simp_all add: strtoul_def)

definition show_int :: "int \<Rightarrow> string" where
  "show_int i = (if i < 0 then CHR ''-'' # show_number 10 (nat (- i)) else show_number 10 (nat i))"

lemma strtol_show: "strtol 10 (show_int i) = max (- (2 ^ 63)) (min (2 ^ 63 - 1) i)"
  using scan_number_show[of 10] by (auto simp: strtol_def show_int_def)

lemma to_int_range: "- (2 ^ 31) \<le> i \<Longrightarrow> i < 2 ^ 31 \<Longrightarrow> to_int i = i"
  by (simp add: to_int_def sint_uint uint_word_of_int_eq signed_take_bit_take_bit signed_take_bit_int_eq_self)

subsection \<open>\<open>ACL/l2fwd_acl\<close>: the port mask\<close>

text \<open>
  \<open>getopt\<close> with the option string p: looks at one argument after the other from the second on,
  passes over those that are not options, and stops at two dashes. \<open>None\<close> is the return value
  -1; otherwise the result is \<open>portmask\<close> afterwards.
\<close>

fun getopt_p :: "string list \<Rightarrow> u32 \<Rightarrow> u32 option" where
  "getopt_p [] portmask = Some portmask"
| "getopt_p (arg # args) portmask =
     (if arg = ''--'' then Some portmask
      else if take 1 arg = ''-'' \<and> 1 < length arg then
        (if arg ! 1 \<noteq> CHR ''p'' then None
         else if 2 < length arg then getopt_p args (ucast (strtoul 16 (drop 2 arg)))
         else case args of [] \<Rightarrow> None | optarg # rest \<Rightarrow> getopt_p rest (ucast (strtoul 16 optarg)))
      else getopt_p args portmask)"

definition parse_args :: "string list \<Rightarrow> u32 \<Rightarrow> u32 option" where
  "parse_args argv portmask = getopt_p (tl argv) portmask"

lemma ucast_u32: "(ucast (of_nat n :: u64) :: u32) = of_nat n"
  by (simp add: unsigned_of_nat word_of_nat_eq_iff)

lemma parse_args_show:
  assumes "n < 2 ^ 64"
  shows "parse_args [prog, ''-p'', show_number 16 n] m = Some (of_nat n)"
    "parse_args [prog, ''-p'' @ show_number 16 n] m = Some (of_nat n)"
proof -
  obtain d cs where "show_number 16 n = digit_char d # cs" using show_number_first[of 16 n] by auto
  then show "parse_args [prog, ''-p'', show_number 16 n] m = Some (of_nat n)"
    "parse_args [prog, ''-p'' @ show_number 16 n] m = Some (of_nat n)"
    using strtoul_show(1)[of 16 n] assms by (simp_all add: parse_args_def ucast_u32)
qed

subsection \<open>Arguments of the graph programs\<close>

datatype usage = Usage

text \<open>
  After \<open>rte_eal_init\<close> returned \<open>ret\<close>, the number of arguments it has taken: the two flags of
  \<open>graph_arc\<close>, and the initial state of the context in \<open>graph_private_context\<close>.
\<close>

definition ga_arguments :: "nat \<Rightarrow> string list \<Rightarrow> usage + int \<times> int" where
  "ga_arguments ret argv =
     (let argv = drop ret argv
      in if length argv < 3 then Inl Usage
         else let f1 = to_int (strtol 10 (argv ! 1)); f2 = to_int (strtol 10 (argv ! 2)) in Inr (f1, f2))"

definition gp_arguments :: "nat \<Rightarrow> string list \<Rightarrow> usage + u8" where
  "gp_arguments ret argv =
     (let argv = drop ret argv
      in if length argv < 2 then Inl Usage else Inr (word_of_int (atoi (argv ! 1))))"

lemma clamp: "- (2 ^ 31) \<le> k \<Longrightarrow> k < 2 ^ 31 \<Longrightarrow> to_int (max (- (2 ^ 63)) (min (2 ^ 63 - 1) k)) = k"
  using to_int_range[of k] by simp

lemma ga_arguments_show:
  assumes "- (2 ^ 31) \<le> i" "i < 2 ^ 31" and "- (2 ^ 31) \<le> j" "j < 2 ^ 31"
  shows "ga_arguments (length taken) (taken @ prog # show_int i # show_int j # more) = Inr (i, j)"
  using clamp[OF assms(1,2)] clamp[OF assms(3,4)] by (simp add: ga_arguments_def strtol_show)

text \<open>
  Reading back what was printed. \<open>parse_args\<close> gives the port mask written in hexadecimal
  after the option, as a word of its own or attached to it, reduced to 32 bits. The flags of \<open>graph_arc\<close> are the integers
  written, after any number of arguments taken by the library; the context of
  \<open>graph_private_context\<close> gets the integer modulo 256, so that 256 switches the feature off.
\<close>

theorem arguments_roundtrip:
  assumes "n < 2 ^ 64" and "- (2 ^ 31) \<le> i" "i < 2 ^ 31" and "- (2 ^ 31) \<le> j" "j < 2 ^ 31"
  shows "parse_args [prog, ''-p'', show_number 16 n] m = Some (of_nat n) \<and>
    parse_args [prog, ''-p'' @ show_number 16 n] m = Some (of_nat n) \<and>
    ga_arguments (length taken) (taken @ prog # show_int i # show_int j # more) = Inr (i, j) \<and>
    gp_arguments (length taken) (taken @ prog # show_int i # more) = Inr (of_int i)"
  using parse_args_show[OF assms(1)] ga_arguments_show[OF assms(2-5)] clamp[OF assms(2,3)]
  by (simp add: gp_arguments_def atoi_def strtol_show)

theorem arguments_roundtrip_witness:
  "parse_args [''l2fwd'', ''-p'', ''c''] 1 = Some 12 \<and>
   gp_arguments 2 [''app'', ''-l'', ''app'', ''256''] = Inr 0"
proof -
  have shown: "show_number 16 12 = ''c''" "show_int 256 = ''256''" by code_simp+
  note reads = arguments_roundtrip[where n = 12 and i = 256 and j = 0 and more = "[]" and taken = "[''app'', ''-l'']"]
  have "parse_args [''l2fwd'', ''-p'', show_number 16 12] 1 = Some (of_nat 12)"
    by (rule reads[THEN conjunct1]) simp_all
  moreover have "gp_arguments (length [''app'', ''-l'']) ([''app'', ''-l''] @ [''app'', show_int 256]) = Inr (of_int 256)"
    by (rule reads[THEN conjunct2, THEN conjunct2, THEN conjunct2]) simp_all
  moreover have "(of_int 256 :: u8) = 0" by simp
  moreover have "length [''app'', ''-l''] = 2" by simp
  ultimately show ?thesis by (simp only: shown of_nat_numeral append.simps)
qed

end
