(* ===== verification/WholePrograms.thy ===== *)
theory WholePrograms
  imports Programs Arguments GraphDemos Acl
begin

text \<open>
  Whole programs: the start-up code of theory Setup followed by the loop of the component. First
  what start-up code without an Ethernet port has to achieve, a graph or a built table of
  filter rules; then the graph demonstrations and the forwarder \<open>l2fwd_acl\<close> from their first line on.
\<close>

subsection \<open>What the results of checked calls satisfy\<close>

fun passes :: "check \<Rightarrow> int \<Rightarrow> bool" where
  "passes (ExitNeg m) r \<longleftrightarrow> 0 \<le> r"
| "passes (ExitZero m) r \<longleftrightarrow> r \<noteq> 0"
| "passes (ExitNonZero m) r \<longleftrightarrow> r = 0"
| "passes (ExitEq v m) r \<longleftrightarrow> r \<noteq> v"
| "passes k r \<longleftrightarrow> True"

lemma stops_passes: "stops k (tr @ [(c, r)]) = None \<Longrightarrow> passes k r"
  by (cases k) (auto simp: stops_def split: if_splits)

lemma run_setup_passes:
  "run_setup env ps tr = (Running, tr') \<Longrightarrow>
   \<exists>rs. tr' = tr @ zip (map fst ps) rs \<and> list_all2 (\<lambda>s r. passes (snd s) r) ps rs"
proof (induction ps arbitrary: tr)
  case (Cons s ps)
  obtain c k where s: "s = (c, k)" by force
  let ?r = "env tr c"
  from Cons.prems s have "run_setup env ps (tr @ [(c, ?r)]) = (Running, tr')"
    and ok: "stops k (tr @ [(c, ?r)]) = None"
    by (auto simp: Let_def split: option.splits)
  from Cons.IH[OF this(1)] obtain rs where "tr' = (tr @ [(c, ?r)]) @ zip (map fst ps) rs"
      "list_all2 (\<lambda>s r. passes (snd s) r) ps rs"
    by blast
  then show ?case using s stops_passes[OF ok] by (intro exI[of _ "?r # rs"]) simp
qed simp

text \<open>
  A graph that can be walked, and rules that can be applied: the calls that make them are in the
  trace, and each succeeded. 65535 is \<open>RTE_GRAPH_ID_INVALID\<close>.
\<close>

definition result_of :: "call \<Rightarrow> check \<Rightarrow> trace \<Rightarrow> bool" where
  "result_of c k tr \<longleftrightarrow> (case map_of tr c of None \<Rightarrow> False | Some r \<Rightarrow> passes k r)"

definition graph_ready :: "trace \<Rightarrow> bool" where
  "graph_ready tr \<longleftrightarrow> result_of EalInit (ExitNeg []) tr \<and>
     result_of (LibCall ''rte_graph_create'') (ExitEq 65535 []) tr \<and>
     result_of (LibCall ''rte_graph_lookup'') (ExitZero []) tr"

definition rules_ready :: "trace \<Rightarrow> bool" where
  "rules_ready tr \<longleftrightarrow> result_of (LibCall ''rte_acl_create'') (ExitZero []) tr \<and>
     result_of (LibCall ''rte_acl_add_rules'') (ExitNeg []) tr \<and>
     result_of (LibCall ''rte_acl_build'') (ExitNonZero []) tr"

subsection \<open>Start-up code\<close>

definition two_start_setup :: "step list" where
  "two_start_setup =
     [(EalInit, ExitNeg ''EAL init failed''), (PoolCreate 1024 256, ExitZero ''Cannot create mbuf pool''),
      (LibCall ''rte_graph_create'', ExitEq 65535 ''Graph creation failed''),
      (LibCall ''rte_graph_lookup'', ExitZero ''Graph lookup failed'')]"

definition graph_only :: "step list" where
  "graph_only =
     [(LibCall ''rte_graph_create'', ExitEq 65535 ''Graph creation failed''),
      (LibCall ''rte_graph_lookup'', ExitZero ''Graph lookup failed'')]"

definition two_worker_setup :: "step list" where
  "two_worker_setup = (EalInit, ExitNeg ''EAL init failed'') # graph_only"

definition node_sched_setup :: "step list" where
  "node_sched_setup = (EalInit, ExitNeg ''EAL init failed'') # graph_only"

definition graph_sample_setup :: "step list" where
  "graph_sample_setup = (EalInit, ExitNeg ''EAL init failed'') # graph_only"

text \<open>\<open>graph_arc\<close> reads its flags between the two parts; \<open>None\<close> when it has stopped before.\<close>

definition graph_arc_setup :: "env \<Rightarrow> string list \<Rightarrow> outcome \<times> trace \<times> (int \<times> int) option" where
  "graph_arc_setup env argv =
     (case run_setup env [(EalInit, ExitNeg ''EAL init failed'')] [] of
        (Exited msg, tr) \<Rightarrow> (Exited msg, tr, None)
      | (Running, tr) \<Rightarrow>
          (case ga_arguments (nat (snd (last tr))) argv of
             Inl Usage \<Rightarrow> (Exited ''Usage: ./main <f1> <f2> [EAL args]'', tr, None)
           | Inr flags \<Rightarrow> (case run_setup env graph_only tr of (out, tr) \<Rightarrow> (out, tr, Some flags))))"

text \<open>The programs that build a table of filter rules. \<open>muti_rule\<close> does not check \<open>rte_eal_init\<close>.\<close>

definition muti_setup :: "step list" where
  "muti_setup =
     [(EalInit, Ignored), (LibCall ''rte_acl_create'', ExitZero ''ACL create failed''),
      (LibCall ''rte_acl_add_rules'', ExitNeg ''Failed to add ACL rules''),
      (LibCall ''rte_acl_build'', ExitNonZero ''ACL build failed'')]"

definition dual_setup :: "step list" where
  "dual_setup =
     [(EalInit, ExitNeg ''EAL init failed''), (LibCall ''rte_acl_create'', ExitZero ''ACL create failed''),
      (LibCall ''rte_acl_add_rules'', ExitNeg ''Add rules failed''),
      (LibCall ''rte_acl_build'', ExitNonZero ''ACL build failed'')]"

definition init_acl :: "step list" where
  "init_acl =
     [(LibCall ''rte_acl_create'', ExitZero ''ACL create failed''),
      (LibCall ''rte_acl_add_rules'', ExitNeg ''ACL rule add failed''),
      (LibCall ''rte_acl_build'', ExitNonZero ''ACL build failed'')]"

lemmas graph_setup_defs = two_start_setup_def two_worker_setup_def node_sched_setup_def graph_sample_setup_def
  graph_only_def
lemmas rule_setup_defs = muti_setup_def dual_setup_def acl_exp_setup_def acl_real_setup_def

lemma graph_setups_ready:
  assumes "ps \<in> {two_start_setup, two_worker_setup, node_sched_setup, graph_sample_setup, rx_drop_setup}"
    and "run_setup env ps [] = (Running, tr)"
  shows "graph_ready tr"
  using run_setup_passes[OF assms(2)] assms(1)
  by (auto simp: graph_setup_defs rx_drop_setup_def graph_ready_def result_of_def list_all2_Cons1)

lemma rule_setups_ready:
  assumes "ps \<in> {muti_setup, dual_setup, acl_exp_setup, acl_real_setup}"
    and "run_setup env ps [] = (Running, tr)"
  shows "rules_ready tr"
  using run_setup_passes[OF assms(2)] assms(1)
  by (auto simp: rule_setup_defs rules_ready_def result_of_def list_all2_Cons1)

lemma reachable_run:
  "fst (run_setup env ps []) = Running \<Longrightarrow> P (snd (run_setup env ps [])) \<Longrightarrow>
   \<exists>env tr. run_setup env ps [] = (Running, tr) \<and> P tr"
  by (intro exI[of _ env] exI[of _ "snd (run_setup env ps [])"]) (simp add: prod_eq_iff)

text \<open>
  Start-up code without an Ethernet port. Whatever the library returns, the four graph
  demonstrations and \<open>rx_drop_sample\<close> begin to walk only a graph that was created and found,
  and the filter programs, \<open>exp\<close>, \<open>real_packet_acl\<close>, \<open>dual_rule_implementation\<close> and
  \<open>muti_rule\<close>, classify only with rules that were added and built. \<open>graph/pipeline\<close> ignores the
  result of the lookup and walks a null graph, and \<open>muti_rule\<close> goes on although the library is
  not initialised.
\<close>

theorem library_objects_ready:
  "(\<forall>ps\<in>{two_start_setup, two_worker_setup, node_sched_setup, graph_sample_setup, rx_drop_setup}.
      \<forall>env tr. run_setup env ps [] = (Running, tr) \<longrightarrow> graph_ready tr) \<and>
   (\<forall>ps\<in>{muti_setup, dual_setup, acl_exp_setup, acl_real_setup}.
      \<forall>env tr. run_setup env ps [] = (Running, tr) \<longrightarrow> rules_ready tr) \<and>
   (\<exists>env tr. run_setup env graph_pipeline_setup [] = (Running, tr) \<and> \<not> graph_ready tr) \<and>
   (\<exists>env tr. run_setup env muti_setup [] = (Running, tr) \<and> \<not> result_of EalInit (ExitNeg []) tr)"
proof (intro conjI)
  let ?env = "\<lambda>tr c. if c = LibCall ''rte_graph_lookup'' then 0 else 1 :: int"
  have "fst (run_setup ?env graph_pipeline_setup []) = Running"
    "\<not> graph_ready (snd (run_setup ?env graph_pipeline_setup []))"
    by (simp_all add: graph_pipeline_setup_def stops_def graph_ready_def result_of_def)
  then show "\<exists>env tr. run_setup env graph_pipeline_setup [] = (Running, tr) \<and> \<not> graph_ready tr"
    by (rule reachable_run)
  let ?env = "\<lambda>tr c. if c = EalInit then - 1 else if c = LibCall ''rte_acl_create'' then 1 else 0 :: int"
  have "fst (run_setup ?env muti_setup []) = Running"
    "\<not> result_of EalInit (ExitNeg []) (snd (run_setup ?env muti_setup []))"
    by (simp_all add: muti_setup_def stops_def result_of_def)
  then show "\<exists>env tr. run_setup env muti_setup [] = (Running, tr) \<and> \<not> result_of EalInit (ExitNeg []) tr"
    by (rule reachable_run)
qed (intro ballI allI impI, erule (1) graph_setups_ready, intro ballI allI impI, erule (1) rule_setups_ready)

theorem library_objects_ready_witness:
  "graph_ready (snd (run_setup (\<lambda>tr c. 1) node_sched_setup []))"
proof -
  have "fst (run_setup (\<lambda>tr c. 1) node_sched_setup []) = Running"
    by (simp add: graph_setup_defs stops_def)
  then have "run_setup (\<lambda>tr c. 1) node_sched_setup [] = (Running, snd (run_setup (\<lambda>tr c. 1) node_sched_setup []))"
    by (metis prod.collapse)
  then show ?thesis using library_objects_ready by blast
qed

subsection \<open>The graph demonstrations\<close>

text \<open>A program as a relation between its initial state and its end: \<open>Inl\<close> of the exit message.\<close>

definition program :: "env \<Rightarrow> step list \<Rightarrow> ('s \<Rightarrow> 's \<Rightarrow> bool) \<Rightarrow> 's \<Rightarrow> string + 's \<Rightarrow> bool" where
  "program env ps body s r =
     (case fst (run_setup env ps []) of
        Exited msg \<Rightarrow> r = Inl msg
      | Running \<Rightarrow> \<exists>u. body s u \<and> r = Inr u)"

definition ga_start :: ga_state where
  "ga_start = \<lparr>visited = [], hd_count = 0, stop = False, launched = 0\<rparr>"

definition graph_arc_program :: "env \<Rightarrow> string list \<Rightarrow> string + ga_state \<Rightarrow> bool" where
  "graph_arc_program env argv r =
     (case graph_arc_setup env argv of
        (Exited msg, _, _) \<Rightarrow> r = Inl msg
      | (Running, _, None) \<Rightarrow> False
      | (Running, _, Some (f1, f2)) \<Rightarrow> \<exists>u. ga_main f1 f2 ga_start u \<and> r = Inr u)"

definition outcome_of :: "outcome \<Rightarrow> 's \<Rightarrow> string + 's" where
  "outcome_of out u = (case out of Exited msg \<Rightarrow> Inl msg | Running \<Rightarrow> Inr u)"

lemma program_outcome:
  assumes "\<And>u. body s u \<longleftrightarrow> u = v"
  shows "program env ps body s r \<longleftrightarrow> r = outcome_of (fst (run_setup env ps [])) v"
  using assms by (auto simp: program_def outcome_of_def split: outcome.split)

lemma program_ends: "\<exists>u. body s u \<Longrightarrow> \<exists>r. program env ps body s r"
  by (cases "fst (run_setup env ps [])") (auto simp: program_def)

lemma loop_stopped: "\<not> c s \<Longrightarrow> loop c R s u \<longleftrightarrow> u = s"
  by (auto elim: loopE intro: loop_done)

lemma graph_arc_setup_flags:
  assumes "env [] EalInit = int (length taken)"
    and "- (2 ^ 31) \<le> f1" "f1 < 2 ^ 31" and "- (2 ^ 31) \<le> f2" "f2 < 2 ^ 31"
  shows "graph_arc_setup env (taken @ prog # show_int f1 # show_int f2 # rest) =
    (case run_setup env graph_only [(EalInit, int (length taken))] of (out, tr) \<Rightarrow> (out, tr, Some (f1, f2)))"
  using assms(1) ga_arguments_show[OF assms(2-5)] by (simp add: graph_arc_setup_def stops_def)

lemma graph_arc_ready:
  assumes "graph_arc_setup env argv = (Running, tr, flags)"
  shows "graph_ready tr"
proof -
  obtain out tr0 where first: "run_setup env [(EalInit, ExitNeg ''EAL init failed'')] [] = (out, tr0)" by fastforce
  then have out: "out = Running" using assms by (cases out) (simp_all add: graph_arc_setup_def)
  then have tr0: "tr0 = [(EalInit, env [] EalInit)]" "0 \<le> env [] EalInit"
    using first by (auto simp: stops_def split: if_splits)
  have run: "run_setup env graph_only tr0 = (Running, tr)"
    using assms first out by (auto simp: graph_arc_setup_def split: sum.splits usage.splits prod.splits)
  show ?thesis
    using run_setup_passes[OF run] tr0
    by (auto simp: graph_only_def graph_ready_def result_of_def list_all2_Cons1)
qed



subsection \<open>\<open>ACL/l2fwd_acl\<close>\<close>

lemma run_setup_append:
  "run_setup env (ps @ qs) tr =
     (case run_setup env ps tr of (Exited msg, tr') \<Rightarrow> (Exited msg, tr') | (Running, tr') \<Rightarrow> run_setup env qs tr')"
  by (induction ps arbitrary: tr) (auto simp: Let_def split: option.split)

text \<open>The calls after the arguments: \<open>init_acl\<close>, the pool, the ports of the mask.\<close>

definition l2fwd_rest :: "u32 \<Rightarrow> nat list \<Rightarrow> step list" where
  "l2fwd_rest portmask ports =
     init_acl @ [(PoolCreate 8192 256, ExitZero ''mempool failed'')] @ concat (map (l2fwd_port portmask) ports)"

definition l2fwd_start :: "env \<Rightarrow> string list \<Rightarrow> nat list \<Rightarrow> outcome \<times> trace \<times> u32" where
  "l2fwd_start env argv ports =
     (case run_setup env [(EalInit, ExitNeg ''EAL init failed'')] [] of
        (Exited msg, tr) \<Rightarrow> (Exited msg, tr, 1)
      | (Running, tr) \<Rightarrow>
          (case parse_args (drop (nat (snd (last tr))) argv) 1 of
             None \<Rightarrow> (Exited ''Invalid arguments'', tr, 1)
           | Some portmask \<Rightarrow> (case run_setup env (l2fwd_rest portmask ports) tr of (out, tr) \<Rightarrow> (out, tr, portmask))))"

text \<open>The program after \<open>k\<close> passes of its loop; the signal that ends it may come after any of them.\<close>

definition l2fwd_main ::
    "env \<Rightarrow> 'n ethdev \<Rightarrow> byteorder \<Rightarrow> classifier \<Rightarrow> string list \<Rightarrow> nat list \<Rightarrow> nat \<Rightarrow> ('n, 'z) world_scheme \<Rightarrow>
     string + ('n, 'z) world_scheme" where
  "l2fwd_main env nd bo cls argv ports k w =
     (case l2fwd_start env argv ports of
        (Exited msg, _, _) \<Rightarrow> Inl msg
      | (Running, _, portmask) \<Rightarrow> Inr ((l2fwd_pass nd bo cls portmask ports False ^^ k) w))"

lemma l2fwd_start_runs:
  assumes "l2fwd_start env argv ports = (Running, tr, pmask)"
  shows "run_setup env ((EalInit, ExitNeg ''EAL init failed'') # l2fwd_rest pmask ports) [] = (Running, tr)"
    "parse_args (drop (nat (env [] EalInit)) argv) 1 = Some pmask"
proof -
  obtain out tr0 where first: "run_setup env [(EalInit, ExitNeg ''EAL init failed'')] [] = (out, tr0)" by fastforce
  then have out: "out = Running" using assms by (cases out) (simp_all add: l2fwd_start_def)
  then have tr0: "tr0 = [(EalInit, env [] EalInit)]" using first by (auto simp: stops_def split: if_splits)
  then show "parse_args (drop (nat (env [] EalInit)) argv) 1 = Some pmask"
    using assms first out by (auto simp: l2fwd_start_def split: option.splits prod.splits)
  have "run_setup env (l2fwd_rest pmask ports) tr0 = (Running, tr)"
    using assms first out by (auto simp: l2fwd_start_def split: option.splits prod.splits)
  then show "run_setup env ((EalInit, ExitNeg ''EAL init failed'') # l2fwd_rest pmask ports) [] = (Running, tr)"
    using run_setup_append[of env "[(EalInit, ExitNeg ''EAL init failed'')]" "l2fwd_rest pmask ports" "[]"] first out
    by simp
qed

lemma l2fwd_start_ready:
  assumes "l2fwd_start env argv ports = (Running, tr, pmask)"
    and "distinct ports" and "p \<in> set ports" and "pmask AND push_bit p 1 \<noteq> 0"
  shows "ready p tr"
proof (rule fail_stop_sound[OF _ l2fwd_start_runs(1)[OF assms(1)]])
  show "fail_stop p ((EalInit, ExitNeg ''EAL init failed'') # l2fwd_rest pmask ports)"
    using l2fwd_port_started[OF assms(2-4)]
    by (auto simp: fail_stop_def l2fwd_rest_def init_acl_def checked_step_def l2fwd_port_def dev_after_append
        split: if_splits)
qed

lemma l2fwd_start_rules:
  assumes "l2fwd_start env argv ports = (Running, tr, pmask)"
  shows "rules_ready tr"
proof -
  obtain rs where "tr = zip (map fst ((EalInit, ExitNeg ''EAL init failed'') # l2fwd_rest pmask ports)) rs"
    and "list_all2 (\<lambda>s r. passes (snd s) r) ((EalInit, ExitNeg ''EAL init failed'') # l2fwd_rest pmask ports) rs"
    using run_setup_passes[OF l2fwd_start_runs(1)[OF assms]] by auto
  then show ?thesis
    by (auto simp: l2fwd_rest_def init_acl_def rules_ready_def result_of_def list_all2_Cons1)
qed

lemma l2fwd_passes_good:
  assumes "byteorder_ok bo" and "acl_ok cls"
  shows "\<exists>l. sent ((l2fwd_pass nd bo cls pmask ports False ^^ k) w) = sent w @ l \<and> list_all (good_tx pmask ports) l"
proof (induction k)
  case (Suc k)
  then obtain l where l: "sent ((l2fwd_pass nd bo cls pmask ports False ^^ k) w) = sent w @ l" "list_all (good_tx pmask ports) l"
    by blast
  obtain l' where "sent (l2fwd_pass nd bo cls pmask ports False ((l2fwd_pass nd bo cls pmask ports False ^^ k) w)) =
      sent ((l2fwd_pass nd bo cls pmask ports False ^^ k) w) @ l'" "list_all (good_tx pmask ports) l'"
    using l2fwd_fold_good[OF assms, of ports ports] by (fastforce simp: l2fwd_pass_def)
  then show ?case using l by (intro exI[of _ "l @ l'"]) simp
qed simp

lemma bit_u32_of_nat: "bit (of_nat n :: u32) p \<longleftrightarrow> p < 32 \<and> bit n p"
  by transfer (simp add: bit_take_bit_iff bit_of_nat_iff_bit)

lemma mask_bit: "(of_nat n :: u32) AND push_bit p 1 \<noteq> 0 \<longleftrightarrow> p < 32 \<and> bit n p"
proof -
  have "(of_nat n :: u32) AND push_bit p 1 = 0 \<longleftrightarrow> \<not> (p < 32 \<and> bit n p)"
    unfolding bit_eq_iff by (auto simp: bit_and_iff bit_push_bit_iff bit_1_iff bit_exp_iff bit_u32_of_nat)
  then show ?thesis by blast
qed

text \<open>
  C22. The forwarder \<open>l2fwd_acl\<close> as a whole, started with a port mask in hexadecimal, whatever
  the library returns and for any driver and classifier that keep their contracts: it exits, or
  it runs with the rules built and every port of the mask configured, set up and started; then
  after any number of passes it has sent nothing but TCP packets from 172.17.166.200, and on
  ports of the mask only. Without an argument after the option it exits.
\<close>

theorem l2fwd_whole_program:
  assumes "byteorder_ok bo" and "acl_ok cls" and "distinct ports" and "n < 2 ^ 64"
    and "env [] EalInit = int (length taken)"
  shows "(case l2fwd_start env (taken @ [prog, ''-p'', show_number 16 n]) ports of
      (Exited msg, _, _) \<Rightarrow> l2fwd_main env nd bo cls (taken @ [prog, ''-p'', show_number 16 n]) ports k w = Inl msg
    | (Running, tr, _) \<Rightarrow> rules_ready tr \<and> (\<forall>p\<in>set ports. p < 32 \<and> bit n p \<longrightarrow> ready p tr) \<and>
        (\<exists>w' l. l2fwd_main env nd bo cls (taken @ [prog, ''-p'', show_number 16 n]) ports k w = Inr w' \<and>
          sent w' = sent w @ l \<and>
          (\<forall>(p, q, m, c)\<in>set l. l2_wanted (bytes c) \<and> p \<in> set ports \<and> p < 32 \<and> bit n p))) \<and>
    l2fwd_main env nd bo cls (taken @ [prog, ''-p'']) ports k w = Inl ''Invalid arguments''"
proof (intro conjI)
  show "l2fwd_main env nd bo cls (taken @ [prog, ''-p'']) ports k w = Inl ''Invalid arguments''"
    using assms(5) by (simp add: l2fwd_main_def l2fwd_start_def stops_def parse_args_def)
  let ?argv = "taken @ [prog, ''-p'', show_number 16 n]"
  obtain out tr pm where start: "l2fwd_start env ?argv ports = (out, tr, pm)" by (metis prod_cases3)
  show "case l2fwd_start env ?argv ports of
      (Exited msg, _, _) \<Rightarrow> l2fwd_main env nd bo cls ?argv ports k w = Inl msg
    | (Running, tr, _) \<Rightarrow> rules_ready tr \<and> (\<forall>p\<in>set ports. p < 32 \<and> bit n p \<longrightarrow> ready p tr) \<and>
        (\<exists>w' l. l2fwd_main env nd bo cls ?argv ports k w = Inr w' \<and> sent w' = sent w @ l \<and>
          (\<forall>(p, q, m, c)\<in>set l. l2_wanted (bytes c) \<and> p \<in> set ports \<and> p < 32 \<and> bit n p))"
  proof (cases out)
    case (Exited msg)
    then show ?thesis by (simp add: start l2fwd_main_def)
  next
    case Running
    note start = start[unfolded Running]
    have pm: "pm = of_nat n"
      using l2fwd_start_runs(2)[OF start] parse_args_show(1)[OF assms(4)] assms(5) by simp
    obtain l where "sent ((l2fwd_pass nd bo cls pm ports False ^^ k) w) = sent w @ l" "list_all (good_tx pm ports) l"
      using l2fwd_passes_good[OF assms(1,2)] by blast
    moreover have "\<forall>p\<in>set ports. p < 32 \<and> bit n p \<longrightarrow> ready p tr"
      using l2fwd_start_ready[OF start assms(3)] mask_bit[of n] pm by blast
    ultimately show ?thesis
      using l2fwd_start_rules[OF start] mask_bit[of n]
      by (simp add: start l2fwd_main_def pm list_all_iff)
  qed
qed

definition no_failure :: "env" where
  "no_failure tr c = (if is_pool c \<or> c = LibCall ''rte_acl_create'' then 1 else 0)"

theorem l2fwd_whole_program_witness:
  "\<exists>w' l. l2fwd_main no_failure script_dev le_host acl_result [''l2fwd'', ''-p'', ''1''] [0] 3 (start_world acl_script) = Inr w' \<and>
     sent w' = l \<and> (\<forall>(p, q, m, c)\<in>set l. l2_wanted (bytes c) \<and> p = 0)"
proof -
  have one: "show_number 16 1 = ''1''" by code_simp
  have "fst (l2fwd_start no_failure [''l2fwd'', ''-p'', ''1''] [0]) = Running"
    using parse_args_show(1)[of 1 "''l2fwd''" 1] unfolding one
    by (simp add: l2fwd_start_def l2fwd_rest_def init_acl_def l2fwd_port_def no_failure_def stops_def)
  then obtain tr pm where start: "l2fwd_start no_failure [''l2fwd'', ''-p'', ''1''] [0] = (Running, tr, pm)"
    by (metis prod.collapse)
  have "case l2fwd_start no_failure ([] @ [''l2fwd'', ''-p'', show_number 16 1]) [0] of
      (Exited msg, _, _) \<Rightarrow> l2fwd_main no_failure script_dev le_host acl_result ([] @ [''l2fwd'', ''-p'', show_number 16 1]) [0] 3
        (start_world acl_script) = Inl msg
    | (Running, tr, _) \<Rightarrow> rules_ready tr \<and> (\<forall>p\<in>set [0]. p < 32 \<and> bit (1 :: nat) p \<longrightarrow> ready p tr) \<and>
        (\<exists>w' l. l2fwd_main no_failure script_dev le_host acl_result ([] @ [''l2fwd'', ''-p'', show_number 16 1]) [0] 3
            (start_world acl_script) = Inr w' \<and> sent w' = sent (start_world acl_script) @ l \<and>
          (\<forall>(p, q, m, c)\<in>set l. l2_wanted (bytes c) \<and> p \<in> set [0] \<and> p < 32 \<and> bit (1 :: nat) p))"
    by (rule l2fwd_whole_program[OF le_host.byteorder_ok_axioms acl_ref.acl_ok_axioms, THEN conjunct1])
      (simp_all add: no_failure_def)
  then obtain w' l where "l2fwd_main no_failure script_dev le_host acl_result [''l2fwd'', ''-p'', ''1''] [0] 3 (start_world acl_script) = Inr w'"
      "sent w' = l" "\<forall>(p, q, m, c)\<in>set l. l2_wanted (bytes c) \<and> p \<in> set [0] \<and> p < 32 \<and> bit (1 :: nat) p"
    unfolding one append_Nil start by auto
  then show ?thesis by (intro exI[of _ w'] exI[of _ l]) auto
qed

end
