(* ===== verification/GraphPrograms.thy ===== *)
theory GraphPrograms
  imports WholePrograms GraphPackets
begin

text \<open>
  The two programs that send packets through a graph, \<open>graph/pipeline\<close> and \<open>graph/rx_drop_sample\<close>,
  from their first line to the signal that ends them: start-up, then walks of the graph until the
  flag is seen, after \<open>k\<close> of them.
\<close>

text \<open>\<open>EndFault\<close>: a walk of the graph that a failed look-up has left null.\<close>

datatype 's ending = EndExit string | EndFault | EndState 's

definition pipeline_main ::
    "env \<Rightarrow> 'n ethdev \<Rightarrow> byteorder \<Rightarrow> nat \<Rightarrow> 'n graph_world \<Rightarrow> 'n graph_world ending \<Rightarrow> bool" where
  "pipeline_main env nd bo k w r =
     (case run_setup env graph_pipeline_setup [] of
        (Exited msg, _) \<Rightarrow> r = EndExit msg
      | (Running, tr) \<Rightarrow>
          if snd (last tr) = 0 \<and> 0 < k then r = EndFault
          else \<exists>u. (graph_walk (pipeline_app nd bo) ^^ k) w u \<and> r = EndState u)"

definition rx_drop_main ::
    "env \<Rightarrow> 'n ethdev \<Rightarrow> byteorder \<Rightarrow> nat \<Rightarrow> 'n graph_world \<Rightarrow> 'n graph_world ending \<Rightarrow> bool" where
  "rx_drop_main env nd bo k w r =
     (case run_setup env rx_drop_setup [] of
        (Exited msg, _) \<Rightarrow> r = EndExit msg
      | (Running, tr) \<Rightarrow> \<exists>u. (graph_walk (sample_app nd bo) ^^ k) w u \<and> r = EndState u)"

text \<open>
  What one walk does, in a form that composes: every buffer received is sent, freed or refused,
  and what is sent on port 0 is \<open>wanted\<close>.
\<close>

definition walked :: "(packet \<Rightarrow> bool) \<Rightarrow> 'n graph_world \<Rightarrow> 'n graph_world \<Rightarrow> bool" where
  "walked wanted w u \<longleftrightarrow>
     disposed u + mset (refused u) + mset (got w) = disposed w + mset (refused w) + mset (got u) \<and>
     (\<exists>l. sent u = sent w @ l \<and> list_all (\<lambda>(p, q, m, c). p = 0 \<and> q = 0 \<and> wanted c) l)"

lemma walked_trans: "walked wanted w u \<Longrightarrow> walked wanted u v \<Longrightarrow> walked wanted w v"
proof -
  assume wu: "walked wanted w u" and uv: "walked wanted u v"
  have sum: "a' + b + c = a + b' + c" if "a' + b = a + b'" for a a' b b' c :: "mbuf multiset"
    using that by (metis union_assoc union_commute)
  have "disposed v + mset (refused v) + mset (got w) = disposed w + mset (refused w) + mset (got v)"
  proof (rule add_right_imp_eq)
    show "disposed v + mset (refused v) + mset (got w) + (disposed u + mset (refused u) + mset (got u)) =
        disposed w + mset (refused w) + mset (got v) + (disposed u + mset (refused u) + mset (got u))"
      using arg_cong2[where f = "(+)", OF conjunct1[OF wu[unfolded walked_def]] conjunct1[OF uv[unfolded walked_def]]]
      by (simp add: ac_simps)
  qed
  moreover obtain l l' where "sent u = sent w @ l" "sent v = sent u @ l'"
      "list_all (\<lambda>(p, q, m, c). p = 0 \<and> q = 0 \<and> wanted c) l" "list_all (\<lambda>(p, q, m, c). p = 0 \<and> q = 0 \<and> wanted c) l'"
    using wu uv by (auto simp: walked_def)
  ultimately show ?thesis unfolding walked_def by (intro conjI exI[of _ "l @ l'"]) simp_all
qed

lemma walked_many:
  assumes "\<And>w u. R w u \<Longrightarrow> walked wanted w u" and "(R ^^ k) w u"
  shows "walked wanted w u"
  using assms(2)
proof (induction k arbitrary: u)
  case 0
  then show ?case by (simp add: walked_def)
next
  case (Suc k)
  then obtain v where "(R ^^ k) w v" "R v u" by auto
  then show ?case using Suc.IH assms(1) walked_trans by blast
qed

lemma walk_walked:
  assumes "eth_rx nd 0 0 32 w = (bufs, w1)" and "got u = got w @ bufs"
    and "sent u = sent w @ map (\<lambda>m. (0, 0, m, mem w1 m)) sb" and "freed u = freed w @ fr"
    and "refused u = refused w @ rf" and "mset sb + mset fr + mset rf = mset bufs"
    and "list_all (\<lambda>m. wanted (mem w1 m)) sb"
  shows "walked wanted w u"
proof -
  have "disposed u + mset (refused u) = disposed w + mset (refused w) + mset bufs"
    using assms(3,4,5) by (simp add: disposed_def sent_bufs_def comp_def assms(6)[symmetric] ac_simps)
  then show ?thesis
    using assms(2,3,7) unfolding walked_def by (auto simp: list_all_iff ac_simps)
qed

lemma pipeline_walked:
  assumes "ethdev_ok nd" and "byteorder_ok bo" and "graph_walk (pipeline_app nd bo) w u"
  shows "walked is_ip w u \<and> refused u = refused w \<and> overrun u = overrun w"
proof -
  from packet_graph.walk_outcome[OF pipeline_packet_graph[OF assms(1,2)] assms(3)]
  obtain bufs w1 sb fr rf where o: "eth_rx nd 0 0 32 w = (bufs, w1)" "got u = got w @ bufs" "overrun u = overrun w"
    "sent u = sent w @ map (\<lambda>m. (0, 0, m, mem w1 m)) sb" "freed u = freed w @ fr" "refused u = refused w @ rf"
    "list_all (\<lambda>m. is_ip (mem w1 m)) (sb @ rf)" "mset sb + mset fr + mset rf = mset bufs" by (elim exE conjE)
  have "walked is_ip w u" by (rule walk_walked[OF o(1,2,4,5,6,8)]) (use o(7) in simp)
  then show ?thesis using pipeline_refuses_nothing[OF assms(3)] o(3) by blast
qed

lemma rx_drop_walked:
  assumes "ethdev_ok nd" and "byteorder_ok bo" and "graph_walk (sample_app nd bo) w u"
  shows "walked (carries RTE_ETHER_TYPE_IPV4) w u"
proof -
  from packet_graph.walk_outcome[OF sample_packet_graph[OF assms(1,2)] assms(3)]
  obtain bufs w1 sb fr rf where o: "eth_rx nd 0 0 32 w = (bufs, w1)" "got u = got w @ bufs"
    "sent u = sent w @ map (\<lambda>m. (0, 0, m, mem w1 m)) sb" "freed u = freed w @ fr" "refused u = refused w @ rf"
    "list_all (\<lambda>m. carries RTE_ETHER_TYPE_IPV4 (mem w1 m)) (sb @ rf)" "mset sb + mset fr + mset rf = mset bufs"
    by (elim exE conjE)
  show ?thesis by (rule walk_walked[OF o(1,2,3,4,5,7)]) (use o(6) in simp)
qed

lemma walks_exist:
  fixes R :: "'s \<Rightarrow> 's \<Rightarrow> bool"
  assumes "\<And>w. \<exists>u. R w u"
  shows "\<exists>u. (R ^^ k) w u"
proof (induction k)
  case (Suc k)
  then obtain u where "(R ^^ k) w u" ..
  moreover obtain v where "R u v" using assms by blast
  ultimately show ?case by (blast intro: relpowp_Suc_I)
qed auto

lemma pipeline_walks:
  assumes "ethdev_ok nd" and "byteorder_ok bo" and "(graph_walk (pipeline_app nd bo) ^^ k) w u"
  shows "walked is_ip w u \<and> refused u = refused w \<and> overrun u = overrun w"
proof
  show "walked is_ip w u" using pipeline_walked[OF assms(1,2)] walked_many[OF _ assms(3)] by blast
  show "refused u = refused w \<and> overrun u = overrun w"
    using assms(3) by (induction k arbitrary: u) (auto dest: pipeline_walked[OF assms(1,2)])
qed

lemma pipeline_ends:
  assumes "ethdev_ok nd" and "byteorder_ok bo"
  shows "\<exists>r. pipeline_main env nd bo k w r"
proof -
  obtain out tr where run: "run_setup env graph_pipeline_setup [] = (out, tr)" by fastforce
  have "\<exists>u. (graph_walk (pipeline_app nd bo) ^^ k) w u"
    using walks_exist[of "graph_walk (pipeline_app nd bo)"]
      acyclic_graph.walk_exists[OF packet_graph.axioms(1)[OF pipeline_packet_graph[OF assms]]] by blast
  then show ?thesis by (cases out) (auto simp: pipeline_main_def run)
qed

lemma rx_drop_ends:
  assumes "ethdev_ok nd" and "byteorder_ok bo"
  shows "\<exists>r. rx_drop_main env nd bo k w r"
proof -
  obtain out tr where run: "run_setup env rx_drop_setup [] = (out, tr)" by fastforce
  have "\<exists>u. (graph_walk (sample_app nd bo) ^^ k) w u"
    using walks_exist[of "graph_walk (sample_app nd bo)"]
      acyclic_graph.walk_exists[OF packet_graph.axioms(1)[OF sample_packet_graph[OF assms]]] by blast
  then show ?thesis by (cases out) (auto simp: rx_drop_main_def run)
qed

lemma pipeline_main_state:
  assumes "pipeline_main env nd bo k w (EndState u)"
  shows "(graph_walk (pipeline_app nd bo) ^^ k) w u"
  using assms by (auto simp: pipeline_main_def split: prod.splits outcome.splits if_splits)

lemma rx_drop_main_state:
  assumes "rx_drop_main env nd bo k w (EndState u)"
  shows "(graph_walk (sample_app nd bo) ^^ k) w u" "\<exists>tr. run_setup env rx_drop_setup [] = (Running, tr)"
  using assms by (auto simp: rx_drop_main_def split: prod.splits outcome.splits)

lemma pipeline_main_fault:
  "pipeline_main env nd bo k w EndFault \<longleftrightarrow> 0 < k \<and>
     (\<exists>tr. run_setup env graph_pipeline_setup [] = (Running, tr) \<and> snd (last tr) = 0)"
proof -
  obtain out tr where run: "run_setup env graph_pipeline_setup [] = (out, tr)" by fastforce
  show ?thesis by (cases out) (auto simp: pipeline_main_def run)
qed

text \<open>From an empty set of refused buffers, what is outstanding is what has been refused.\<close>

lemma walked_ledger:
  assumes "walked wanted w u" and "balanced w" and "refused w = []"
  shows "accounted u" "outstanding u = mset (refused u)"
proof -
  have "disposed u + mset (refused u) + mset (got w) = mset (got u) + mset (got w)"
    using assms by (simp add: walked_def balanced_def ac_simps)
  then have "mset (got u) = disposed u + mset (refused u)" by simp
  then show "accounted u" "outstanding u = mset (refused u)" by (simp_all add: accounted_def outstanding_def)
qed



end
