(* ===== verification/GraphContext.thy ===== *)
theory GraphContext
  imports WholePrograms
begin

text \<open>
  \<open>graph_private_context/sample/main.c\<close>: a chain of three nodes, the second of which keeps a flag
  in its private context, set from the command line. The program calls \<open>rte_graph_walk\<close> with an
  array of objects, \<open>rte_node_ctx_get\<close> and \<open>rte_node_ctx_get_by_id\<close>, none of which is in the
  documented interface of the library. The result of the last is a result of the environment,
  and what a walk hands to the source node is the argument \<open>handed\<close>: nothing where the walk is
  the documented one, the array where it is what the call suggests.
\<close>

subsection \<open>The nodes\<close>

datatype gp_node = HelloNode | FeatureNode | SinkNode

datatype gp_line = Generating | Enabled | Disabled | ReachedEnd

text \<open>\<open>enabled\<close> is the context; \<open>shown\<close> and \<open>reached\<close>: the lines printed, and what the sink got.\<close>

record gp_state =
  enabled :: u8
  shown :: "gp_line list"
  reached :: "nat list list"

definition hello_node_process :: "nat list \<Rightarrow> gp_state \<Rightarrow> (nat \<times> nat list) list \<times> gp_state" where
  "hello_node_process objs s = ([(0, objs)], s\<lparr>shown := shown s @ [Generating]\<rparr>)"

definition feature_node_process :: "nat list \<Rightarrow> gp_state \<Rightarrow> (nat \<times> nat list) list \<times> gp_state" where
  "feature_node_process objs s =
     ([(0, objs)], s\<lparr>shown := shown s @ [if enabled s \<noteq> 0 then Enabled else Disabled]\<rparr>)"

definition sink_node_process :: "nat list \<Rightarrow> gp_state \<Rightarrow> (nat \<times> nat list) list \<times> gp_state" where
  "sink_node_process objs s = ([], s\<lparr>shown := shown s @ [ReachedEnd], reached := reached s @ [objs]\<rparr>)"

definition gp_app :: "(gp_node, nat, gp_state) graph_app" where
  "gp_app =
     \<lparr>sources = [HelloNode],
      next_nodes = (\<lambda>n. case n of HelloNode \<Rightarrow> [FeatureNode] | FeatureNode \<Rightarrow> [SinkNode] | SinkNode \<Rightarrow> []),
      process = (\<lambda>n. case n of HelloNode \<Rightarrow> hello_node_process | FeatureNode \<Rightarrow> feature_node_process
        | SinkNode \<Rightarrow> sink_node_process)\<rparr>"

subsection \<open>The program\<close>

text \<open>A walk that begins with objects at the source nodes; without any it is \<open>graph_walk\<close>.\<close>

definition walk_start_with :: "('v, 'o, 's) graph_app \<Rightarrow> 'o list \<Rightarrow> 's \<Rightarrow> ('v, 'o) streams \<times> 's" where
  "walk_start_with g objs s = ((\<lambda>n. if n \<in> set (sources g) then Some objs else None), s)"

definition walk_with :: "('v, 'o, 's) graph_app \<Rightarrow> 'o list \<Rightarrow> 's \<Rightarrow> 's \<Rightarrow> bool" where
  "walk_with g objs s s' \<longleftrightarrow> (graph_step g)\<^sup>*\<^sup>* (walk_start_with g objs s) ((\<lambda>_. None), s')"

lemma walk_with_none: "walk_with g [] = graph_walk g"
  by (simp add: fun_eq_iff walk_with_def graph_walk_def walk_start_with_def walk_start_def)

lemma forced_walk_with:
  assumes "forced g ns (walk_start_with g objs s)"
  shows "walk_with g objs s s' \<longleftrightarrow> s' = snd (fold (visit g) ns (walk_start_with g objs s))"
proof
  assume "walk_with g objs s s'"
  from forced_steps[OF this[unfolded walk_with_def] assms]
  show "s' = snd (fold (visit g) ns (walk_start_with g objs s))" by (metis fst_conv snd_conv)
next
  assume s': "s' = snd (fold (visit g) ns (walk_start_with g objs s))"
  have "fold (visit g) ns (walk_start_with g objs s) = ((\<lambda>_. None), s')"
    using forced_quiet[OF assms] s' by (simp add: prod_eq_iff)
  then show "walk_with g objs s s'"
    using fold_visit_steps[of g "walk_start_with g objs s" ns] by (simp add: walk_with_def)
qed

definition gp_calls :: "step list" where
  "gp_calls =
     [(LibCall ''rte_graph_create'', ExitEq 65535 ''Graph create failed''),
      (LibCall ''rte_graph_lookup'', ExitZero ''Graph lookup failed''),
      (LibCall ''rte_node_from_name'', Ignored), (LibCall ''rte_node_ctx_get_by_id'', Ignored)]"

datatype gp_end = GpExit string | GpFault | GpDone gp_state

text \<open>\<open>GpFault\<close> is the write through a null context.\<close>

definition gp_main :: "env \<Rightarrow> (nat list \<Rightarrow> nat list) \<Rightarrow> string list \<Rightarrow> gp_end \<Rightarrow> bool" where
  "gp_main env handed argv r =
     (case run_setup env [(EalInit, ExitNeg ''EAL init failed'')] [] of
        (Exited msg, _) \<Rightarrow> r = GpExit msg
      | (Running, tr) \<Rightarrow>
          (case gp_arguments (nat (snd (last tr))) argv of
             Inl Usage \<Rightarrow> r = GpExit ''Usage: ./app <0|1> [EAL args]''
           | Inr v \<Rightarrow>
               (case run_setup env gp_calls tr of
                  (Exited msg, _) \<Rightarrow> r = GpExit msg
                | (Running, tr) \<Rightarrow>
                    if snd (last tr) = 0 then r = GpFault
                    else let objs = [0xdeadbeef] in
                      \<exists>u. (walk_with gp_app (handed objs) ^^ 5) \<lparr>enabled = v, shown = [], reached = []\<rparr> u \<and> r = GpDone u)))"

definition gp_round :: "nat list \<Rightarrow> gp_state \<Rightarrow> gp_state" where
  "gp_round objs s =
     s\<lparr>shown := shown s @ [Generating, if enabled s \<noteq> 0 then Enabled else Disabled, ReachedEnd],
       reached := reached s @ [objs]\<rparr>"

lemma gp_visits:
  "forced gp_app [HelloNode, FeatureNode, SinkNode] (walk_start_with gp_app objs s) \<and>
   snd (fold (visit gp_app) [HelloNode, FeatureNode, SinkNode] (walk_start_with gp_app objs s)) = gp_round objs s"
  by (simp add: walk_start_with_def visit_def gp_app_def hello_node_process_def feature_node_process_def
      sink_node_process_def node_enqueue_def gp_round_def fun_eq_iff)

lemma gp_walk: "walk_with gp_app objs s t \<longleftrightarrow> t = gp_round objs s"
  using forced_walk_with[OF conjunct1[OF gp_visits]] conjunct2[OF gp_visits, of objs s] by simp

lemma gp_walks: "(walk_with gp_app objs ^^ k) s t \<longleftrightarrow> t = (gp_round objs ^^ k) s"
  by (induction k arbitrary: t) (auto simp: gp_walk)

lemma gp_rounds:
  "(gp_round objs ^^ k) s =
     s\<lparr>shown := shown s @ concat (replicate k [Generating, if enabled s \<noteq> 0 then Enabled else Disabled, ReachedEnd]),
       reached := reached s @ replicate k objs\<rparr>"
  by (induction k arbitrary: s) (simp_all add: gp_round_def funpow_Suc_right del: funpow.simps(2))



end
