(* ===== verification/StartUp.thy ===== *)
theory StartUp
  imports WholePrograms MacLearning
begin

text \<open>
  The start-up code that theories Programs and WholePrograms do not have: the programs on rings,
  hash tables, reorder buffers and bare buffers, and those that only launch functions or
  register handlers. The secondary processes do not create their rings but look for them until
  the primary has: a loop without a bound.
\<close>

subsection \<open>Sequences of calls\<close>

definition simple_ring_setup :: "step list" where
  "simple_ring_setup =
     [(EalInit, ExitNeg ''Error initializing EAL''), (RingCreate ''my_ring'' 1024, ExitZero ''Cannot create ring''),
      (Launch ''producer'' 1, Ignored), (Launch ''consumer'' 2, Ignored)]"

definition practice_ring_setup :: "step list" where
  "practice_ring_setup =
     [(EalInit, ExitNeg ''EAL init failed''), (RingCreate ''ring1'' 1024, ExitZero ''Ring creation failed''),
      (Launch ''handler'' 1, Ignored), (Launch ''handler2'' 2, Ignored)]"

definition duplex_primary_setup :: "step list" where
  "duplex_primary_setup =
     [(EalInit, ExitNeg ''EAL init failed''), (RingCreate ''a_to_b'' 1024, ExitZero ''Ring create failed''),
      (RingCreate ''b_to_a'' 1024, ExitZero ''Ring2 create failed'')]"

definition through_primary_setup :: "step list" where
  "through_primary_setup =
     [(EalInit, ExitNeg ''EAL init failed''), (RingCreate ''MSG_RING'' 1024, ExitZero ''Ring create failed'')]"

definition single_primary_setup :: "step list" where
  "single_primary_setup =
     [(EalInit, Ignored), (RingCreate ''FD_RING'' 1024, ExitZero ''Ring create failed'')]"

text \<open>\<open>rte_panic\<close> ends the program too.\<close>

definition reorder_sample_setup :: "step list" where
  "reorder_sample_setup =
     [(EalInit, ExitNeg ''EAL failed''), (PoolCreate 1024 32, ExitZero ''mempool failed''),
      (LibCall ''rte_reorder_create'', ExitZero ''reorder create failed'')]"

definition mbuf_simple_setup :: "step list" where
  "mbuf_simple_setup =
     [(EalInit, ExitNeg ''EAL init failed''), (PoolCreate 1024 256, ExitZero ''Cannot create mempool'')]"

definition append_prepend_setup :: "step list" where
  "append_prepend_setup =
     [(EalInit, ExitNeg ''EAL init failed''), (PoolCreate 1024 256, ExitZero ''Failed to create mempool'')]"

definition create_mac_table :: "step list" where
  "create_mac_table = [(HashCreate ''mac_table'' HASH_ENTRIES, ExitZero ''MAC table creation failed'')]"

definition l2_setup :: "step list" where
  "l2_setup = (EalInit, ExitNeg ''EAL init failed'') # create_mac_table"

definition ml_create_mac_table :: "step list" where
  "ml_create_mac_table = [(HashCreate ''mac_table'' HASH_ENTRIES, ExitZero ''Failed to create MAC table'')]"

definition ml_setup :: "step list" where
  "ml_setup = (EalInit, ExitNeg ''EAL init failed'') # ml_create_mac_table"

definition adv_stats_setup :: "nat list \<Rightarrow> step list" where
  "adv_stats_setup workers =
     (EalInit, ExitNeg ''EAL init failed'') # map (\<lambda>l. (Launch ''worker_loop'' l, Ignored)) workers @
     [(LibCall ''/adv/summary'', Ignored), (LibCall ''/adv/lcore_stats'', Ignored)]"

definition telemetry_setup :: "step list" where
  "telemetry_setup = [(EalInit, ExitNeg ''EAL init failed''), (LibCall ''/harsh_stats'', Ignored)]"

definition hello_world :: "step list" where
  "hello_world = [(EalInit, ExitNeg ''EAL init failed'')]"

definition practice_sample :: "step list" where
  "practice_sample =
     [(EalInit, ExitNeg ''EAL init failed''), (LibCall ''rte_malloc'', Ignored), (Launch ''handler'' 1, Ignored)]"

definition exp_lcore_main :: "step list" where
  "exp_lcore_main = [(EalInit, Ignored), (Launch ''func1'' 1, Ignored), (Launch ''func2'' 2, Ignored)]"

definition ports_sample :: "step list" where
  "ports_sample = [(EalInit, Ignored), (CountPorts, Ignored)]"

text \<open>What a program of this theory may use once its start-up code is through.\<close>

fun makes_object :: "call \<Rightarrow> bool" where
  "makes_object (PoolCreate n c) \<longleftrightarrow> True"
| "makes_object (RingCreate nm n) \<longleftrightarrow> True"
| "makes_object (HashCreate nm n) \<longleftrightarrow> True"
| "makes_object (LibCall nm) \<longleftrightarrow> nm \<in> {''rte_reorder_create'', ''rte_malloc''}"
| "makes_object c \<longleftrightarrow> False"

definition objects_ready :: "trace \<Rightarrow> bool" where
  "objects_ready tr \<longleftrightarrow> (\<forall>(c, r)\<in>set tr. (c = EalInit \<longrightarrow> 0 \<le> r) \<and> (makes_object c \<longrightarrow> r \<noteq> 0))"

definition object_step :: "step \<Rightarrow> bool" where
  "object_step s \<longleftrightarrow> (case s of (c, k) \<Rightarrow> (c = EalInit \<longrightarrow> neg_fatal k) \<and> (makes_object c \<longrightarrow> zero_fatal k))"

lemma object_steps_sound:
  assumes "list_all object_step ps" and "run_setup env ps [] = (Running, tr)"
  shows "objects_ready tr"
proof -
  from run_setup_trace[OF assms(2)] obtain rs where rs: "tr = zip (map fst ps) rs" "length rs = length ps"
      and ok: "\<forall>i<length ps. (neg_fatal (snd (ps ! i)) \<longrightarrow> 0 \<le> rs ! i) \<and> (zero_fatal (snd (ps ! i)) \<longrightarrow> rs ! i \<noteq> 0)"
    by auto
  have "(c = EalInit \<longrightarrow> 0 \<le> r) \<and> (makes_object c \<longrightarrow> r \<noteq> 0)" if "(c, r) \<in> set tr" for c r
  proof -
    from that rs obtain i where "i < length ps" "c = fst (ps ! i)" "r = rs ! i" by (auto simp: set_zip)
    moreover from this have "object_step (ps ! i)" using assms(1) by (simp add: list_all_length)
    ultimately show ?thesis using ok by (force simp: object_step_def case_prod_beta)
  qed
  then show ?thesis by (auto simp: objects_ready_def)
qed

definition object_programs :: "nat list \<Rightarrow> step list list" where
  "object_programs workers =
     [simple_ring_setup, practice_ring_setup, duplex_primary_setup, through_primary_setup, reorder_sample_setup,
      mbuf_simple_setup, append_prepend_setup, l2_setup, ml_setup, adv_stats_setup workers, telemetry_setup, hello_world]"

lemmas object_setup_defs = simple_ring_setup_def practice_ring_setup_def duplex_primary_setup_def
  through_primary_setup_def reorder_sample_setup_def mbuf_simple_setup_def append_prepend_setup_def
  l2_setup_def create_mac_table_def ml_setup_def ml_create_mac_table_def adv_stats_setup_def telemetry_setup_def
  hello_world_def

lemma object_programs_checked: "ps \<in> set (object_programs workers) \<Longrightarrow> list_all object_step ps"
  by (auto simp: object_programs_def object_setup_defs object_step_def list_all_iff)

lemma unchecked_object:
  assumes "ps \<in> {single_primary_setup, practice_sample, exp_lcore_main, ports_sample}"
  shows "\<exists>env tr. run_setup env ps [] = (Running, tr) \<and> \<not> objects_ready tr"
proof -
  let ?env = "\<lambda>tr c. if c = EalInit \<and> ps \<noteq> practice_sample then - 1 else if c = LibCall ''rte_malloc'' then 0 else 1 :: int"
  have "fst (run_setup ?env ps []) = Running" "\<not> objects_ready (snd (run_setup ?env ps []))"
    using assms
    by (auto simp: single_primary_setup_def practice_sample_def exp_lcore_main_def ports_sample_def stops_def objects_ready_def)
  then show ?thesis by (rule reachable_run)
qed

subsection \<open>Waiting for a ring\<close>

text \<open>
  \<open>while (!ring) ring = rte_ring_lookup(...)\<close>: \<open>look i\<close> is the result of a look-up at time \<open>i\<close>, and
  the value is the ring with the time after it was found. \<open>None\<close>: the loop does not end.
\<close>

partial_function (option) wait_ring :: "(nat \<Rightarrow> int) \<Rightarrow> nat \<Rightarrow> (int \<times> nat) option" where
  "wait_ring look i = (if look i \<noteq> 0 then Some (look i, Suc i) else wait_ring look (Suc i))"

lemma wait_ring_finds:
  assumes "look (i + d) \<noteq> 0" and "\<forall>j<d. look (i + j) = 0"
  shows "wait_ring look i = Some (look (i + d), Suc (i + d))"
  using assms
proof (induction d arbitrary: i)
  case 0
  then show ?case by (simp add: wait_ring.simps)
next
  case (Suc d)
  have "\<forall>j<d. look (Suc i + j) = 0" using Suc.prems(2) by (metis Suc_less_eq add_Suc add_Suc_right)
  moreover have "look i = 0" using Suc.prems(2) by (metis add_0_right zero_less_Suc)
  ultimately show ?case using Suc.IH[of "Suc i"] Suc.prems(1) by (simp add: wait_ring.simps[of look i])
qed

lemma wait_ring_found:
  assumes "wait_ring look i = Some rn"
  shows "\<exists>j\<ge>i. look j \<noteq> 0"
proof (rule wait_ring.raw_induct[where P = "\<lambda>look i rn. \<exists>j\<ge>i. look j \<noteq> 0", OF _ assms])
  fix wait and look :: "nat \<Rightarrow> int" and i and rn :: "int \<times> nat"
  assume IH: "\<And>look i rn. wait look i = Some rn \<Longrightarrow> \<exists>j\<ge>i. look j \<noteq> 0"
    and run: "(if look i \<noteq> 0 then Some (look i, Suc i) else wait look (Suc i)) = Some rn"
  show "\<exists>j\<ge>i. look j \<noteq> 0"
  proof (cases "look i = 0")
    case True
    then have "\<exists>j\<ge>Suc i. look j \<noteq> 0" using IH run by simp
    then show ?thesis using Suc_leD by blast
  qed auto
qed

text \<open>A ring that the primary creates at time \<open>t\<close>, or never.\<close>

definition published :: "nat option \<Rightarrow> int \<Rightarrow> nat \<Rightarrow> int" where
  "published t r i = (case t of None \<Rightarrow> 0 | Some t \<Rightarrow> if i < t then 0 else r)"

lemma wait_published:
  assumes "r \<noteq> 0"
  shows "wait_ring (published t r) i = (case t of None \<Rightarrow> None | Some t \<Rightarrow> Some (r, Suc (max i t)))"
proof (cases t)
  case None
  then show ?thesis using wait_ring_found[of "published t r" i] by (cases "wait_ring (published t r) i") (auto simp: published_def)
next
  case (Some t')
  have "\<forall>j<t' - i. published t r (i + j) = 0" using Some by (auto simp: published_def)
  moreover have "published t r (i + (t' - i)) = r" using Some by (auto simp: published_def)
  ultimately show ?thesis
    using wait_ring_finds[of "published t r" i "t' - i"] assms Some by (simp add: max_def)
qed

text \<open>The secondaries of \<open>ring_full_duplex\<close>, \<open>through_rte_ring\<close> and \<open>single_ring_full_duplex\<close>.\<close>

definition duplex_secondary_start :: "env \<Rightarrow> (nat \<Rightarrow> int) \<Rightarrow> (nat \<Rightarrow> int) \<Rightarrow> (string + int \<times> int) option" where
  "duplex_secondary_start env look look2 =
     (case run_setup env [(EalInit, ExitNeg ''EAL init failed'')] [] of
        (Exited msg, _) \<Rightarrow> Some (Inl msg)
      | (Running, _) \<Rightarrow> (case wait_ring look 0 of
          None \<Rightarrow> None
        | Some (ring, i) \<Rightarrow> (case wait_ring look2 i of
            None \<Rightarrow> None
          | Some (ring2, _) \<Rightarrow> Some (Inr (ring, ring2)))))"

definition through_secondary_start :: "env \<Rightarrow> (nat \<Rightarrow> int) \<Rightarrow> (string + int) option" where
  "through_secondary_start env look =
     (case run_setup env [(EalInit, ExitNeg ''EAL init failed'')] [] of
        (Exited msg, _) \<Rightarrow> Some (Inl msg)
      | (Running, _) \<Rightarrow> (case wait_ring look 0 of None \<Rightarrow> None | Some (ring, _) \<Rightarrow> Some (Inr ring)))"

definition single_secondary_start :: "env \<Rightarrow> (nat \<Rightarrow> int) \<Rightarrow> int option" where
  "single_secondary_start env look =
     (case run_setup env [(EalInit, Ignored)] [] of
        (Exited msg, _) \<Rightarrow> None
      | (Running, _) \<Rightarrow> map_option fst (wait_ring look 0))"

text \<open>
  C31. Start-up code around rings, tables and buffers. Whatever the library returns, twelve
  programs go on only with the library initialised and every object they create there;
  four, \<open>single_ring_full_duplex\<close>, \<open>practice/sample.c\<close>, \<open>exp_lcore\<close> and \<open>ports/begin/sample.c\<close>, can
  go on without. A secondary gets through its waiting loops exactly when the primary creates
  the rings, early or late, and then with those rings; when one is never created it waits for ever.
\<close>

theorem object_startup:
  assumes "r1 \<noteq> 0" and "r2 \<noteq> 0"
  shows "(\<forall>ps\<in>set (object_programs workers). \<forall>env tr. run_setup env ps [] = (Running, tr) \<longrightarrow> objects_ready tr) \<and>
    (\<forall>ps\<in>{single_primary_setup, practice_sample, exp_lcore_main, ports_sample}.
      \<exists>env tr. run_setup env ps [] = (Running, tr) \<and> \<not> objects_ready tr) \<and>
    duplex_secondary_start env (published t1 r1) (published t2 r2) =
      (if env [] EalInit < 0 then Some (Inl ''EAL init failed'')
       else if t1 = None \<or> t2 = None then None else Some (Inr (r1, r2))) \<and>
    through_secondary_start env (published t1 r1) =
      (if env [] EalInit < 0 then Some (Inl ''EAL init failed'') else if t1 = None then None else Some (Inr r1)) \<and>
    single_secondary_start env (published t1 r1) = (if t1 = None then None else Some r1)"
proof (intro conjI ballI allI impI)
  fix ps env tr
  assume "ps \<in> set (object_programs workers)" and "run_setup env ps [] = (Running, tr)"
  then show "objects_ready tr" using object_programs_checked object_steps_sound by blast
next
  fix ps
  assume "ps \<in> {single_primary_setup, practice_sample, exp_lcore_main, ports_sample}"
  then show "\<exists>env tr. run_setup env ps [] = (Running, tr) \<and> \<not> objects_ready tr" by (rule unchecked_object)
qed (simp_all add: duplex_secondary_start_def through_secondary_start_def single_secondary_start_def stops_def
    wait_published assms split: option.split)

theorem object_startup_witness:
  "duplex_secondary_start (\<lambda>tr c. 0) (published (Some 3) 7) (published (Some 5) 9) = Some (Inr (7, 9)) \<and>
   duplex_secondary_start (\<lambda>tr c. 0) (published (Some 3) 7) (published None 9) = None"
  using object_startup[where ?r1.0 = 7 and ?r2.0 = 9 and env = "\<lambda>tr c. 0" and ?t1.0 = "Some 3" and ?t2.0 = "Some 5"]
    object_startup[where ?r1.0 = 7 and ?r2.0 = 9 and env = "\<lambda>tr c. 0" and ?t1.0 = "Some 3" and ?t2.0 = None]
  by simp

end
