(* ===== verification/Frontend.thy ===== *)
theory Frontend
  imports EchoApps UdpBuild
begin

text \<open>
  The loop of \<open>inter_process_comm/virtu_vhost_ipc/frontend.c\<close>, the peer of the echoing backend:
  each pass allocates a buffer, writes a greeting, offers it to the driver and frees what has come
  back. \<open>rte_pktmbuf_alloc\<close> is the argument \<open>alloc\<close> over the state of a pool; it resets the
  lengths, and the headroom and room of a fresh buffer let \<open>rte_pktmbuf_append\<close> succeed. \<open>None\<close>
  is the access through a null buffer.
\<close>

text \<open>What \<open>snprintf\<close> writes, the terminating zero included; the rest of the 64 bytes stays as it was.\<close>

definition hello_text :: "u8 list" where
  "hello_text = map of_char ''hello from frontend'' @ [0]"

definition hello_packet :: "packet \<Rightarrow> packet" where
  "hello_packet p = \<lparr>bytes = store_bytes 0 hello_text (bytes p), data_len = 0 + 64, pkt_len = 0 + 64\<rparr>"

text \<open>A pass with the buffer \<open>m\<close>, which counts as received when it is allocated.\<close>

definition frontend_exchange :: "'n ethdev \<Rightarrow> mbuf \<Rightarrow> ('n, 'z) world_scheme \<Rightarrow> ('n, 'z) world_scheme" where
  "frontend_exchange nd m w =
     (let w = w\<lparr>got := got w @ [m], mem := (mem w)(m := hello_packet (mem w m))\<rparr>;
          w = snd (eth_tx nd 0 0 [m] w)
      in case eth_rx nd 0 0 32 w of (rx, w) \<Rightarrow> free_all rx w)"

definition frontend_pass ::
    "'n ethdev \<Rightarrow> ('p \<Rightarrow> mbuf option \<times> 'p) \<Rightarrow> ('n, 'z) world_scheme \<times> 'p \<Rightarrow> (('n, 'z) world_scheme \<times> 'p) option" where
  "frontend_pass nd alloc wp =
     (case alloc (snd wp) of
        (None, p) \<Rightarrow> None
      | (Some m, p) \<Rightarrow> Some (frontend_exchange nd m (fst wp), p))"

primrec frontend_main ::
    "'n ethdev \<Rightarrow> ('p \<Rightarrow> mbuf option \<times> 'p) \<Rightarrow> nat \<Rightarrow> ('n, 'z) world_scheme \<times> 'p \<Rightarrow> (('n, 'z) world_scheme \<times> 'p) option" where
  "frontend_main nd alloc 0 wp = Some wp"
| "frontend_main nd alloc (Suc k) wp =
     (case frontend_main nd alloc k wp of None \<Rightarrow> None | Some wp \<Rightarrow> frontend_pass nd alloc wp)"

text \<open>The pool after a number of allocations.\<close>

primrec pool_after :: "('p \<Rightarrow> mbuf option \<times> 'p) \<Rightarrow> nat \<Rightarrow> 'p \<Rightarrow> 'p" where
  "pool_after alloc 0 p = p"
| "pool_after alloc (Suc k) p = snd (alloc (pool_after alloc k p))"

text \<open>The buffer is left behind when the driver does not take it.\<close>

definition offered :: "mbuf \<Rightarrow> ('n, 'z) world_scheme \<Rightarrow> ('n, 'z) world_scheme" where
  "offered m w = w\<lparr>got := got w @ [m], mem := (mem w)(m := hello_packet (mem w m))\<rparr>"

definition frontend_lost :: "'n ethdev \<Rightarrow> mbuf \<Rightarrow> ('n, 'z) world_scheme \<Rightarrow> mbuf multiset" where
  "frontend_lost nd m w = (if fst (eth_tx nd 0 0 [m] (offered m w)) = 0 then {#m#} else {#})"

lemma offered_ledger: "disposed (offered m w) = disposed w" "got (offered m w) = got w @ [m]"
    "sent (offered m w) = sent w" "mem (offered m w) m = hello_packet (mem w m)"
  by (simp_all add: offered_def disposed_def sent_bufs_def)

lemma frontend_exchange_alt:
  "frontend_exchange nd m w =
     (case eth_rx nd 0 0 32 (snd (eth_tx nd 0 0 [m] (offered m w))) of (rx, w) \<Rightarrow> free_all rx w)"
  by (simp add: frontend_exchange_def offered_def)

interpretation frontend: packet_loop "frontend_exchange nd m" "frontend_lost nd m"
proof
  fix w
  show "disposed (frontend_exchange nd m w) + frontend_lost nd m w + mset (got w) =
      disposed w + mset (got (frontend_exchange nd m w))"
    by (cases "fst (eth_tx nd 0 0 [m] (offered m w))")
      (simp_all add: frontend_exchange_alt frontend_lost_def case_prod_beta ledger frame offered_ledger ac_simps)
qed

definition greeting :: "nat \<times> nat \<times> mbuf \<times> packet \<Rightarrow> bool" where
  "greeting = (\<lambda>(port, q, m, c). port = 0 \<and> q = 0 \<and> data_len c = 64 \<and> pkt_len c = 64 \<and>
     read_bytes (bytes c) 0 20 = hello_text)"

lemma hello_packet_greets: "greeting (0, 0, m, hello_packet c)"
proof -
  have len: "length hello_text = 20" by (simp add: hello_text_def)
  show ?thesis
    by (auto simp: greeting_def hello_packet_def read_bytes_def store_bytes_def len intro!: nth_equalityI)
qed

lemma frontend_exchange_sends:
  "\<exists>l. sent (frontend_exchange nd m w) = sent w @ l \<and> list_all greeting l \<and>
     length l + size (frontend_lost nd m w) = 1"
  by (cases "fst (eth_tx nd 0 0 [m] (offered m w))")
    (simp_all add: frontend_exchange_alt frontend_lost_def case_prod_beta frame eth_tx_sent offered_ledger
      hello_packet_greets)

lemma frontend_main_pool:
  "frontend_main nd alloc k (w, p) = Some wp \<Longrightarrow> snd wp = pool_after alloc k p"
proof (induction k arbitrary: wp)
  case (Suc k)
  then obtain uq m where "frontend_main nd alloc k (w, p) = Some uq" and q: "alloc (snd uq) = (Some m, snd wp)"
    by (auto simp: frontend_pass_def split: option.splits prod.splits)
  from Suc.IH[OF this(1)] q show ?case by (metis pool_after.simps(2) snd_conv)
qed auto

lemma frontend_main_runs:
  assumes "frontend_main nd alloc k (w, p) = Some (w', p')" and "accounted w"
  shows "accounted w' \<and>
    (\<exists>l. sent w' = sent w @ l \<and> list_all greeting l \<and> length l \<le> k \<and>
      size (outstanding w') = size (outstanding w) + (k - length l))"
  using assms(1)
proof (induction k arbitrary: w' p')
  case (Suc k)
  then obtain u q m where u: "frontend_main nd alloc k (w, p) = Some (u, q)" and q: "alloc q = (Some m, p')"
      and w': "w' = frontend_exchange nd m u"
    by (auto simp: frontend_pass_def split: option.splits prod.splits)
  from Suc.IH[OF u] obtain l where acc: "accounted u"
      and l: "sent u = sent w @ l" "list_all greeting l" "length l \<le> k"
        "size (outstanding u) = size (outstanding w) + (k - length l)"
    by blast
  obtain l' where l': "sent w' = sent u @ l'" "list_all greeting l'" "length l' + size (frontend_lost nd m u) = 1"
    using frontend_exchange_sends[of nd m u] w' by blast
  have "accounted w'" "outstanding w' = outstanding u + frontend_lost nd m u"
    using frontend.accounted_iter[OF acc, of nd m] w' by simp_all
  then show ?case
    using l l' by (intro conjI exI[of _ "l @ l'"]) simp_all
qed (simp add: assms(2))

lemma frontend_main_none:
  "frontend_main nd alloc k (w, p) = None \<longleftrightarrow> (\<exists>i<k. fst (alloc (pool_after alloc i p)) = None)"
proof (induction k)
  case (Suc k)
  show ?case
  proof (cases "frontend_main nd alloc k (w, p)")
    case None
    then show ?thesis using Suc by (auto simp: less_Suc_eq)
  next
    case (Some uq)
    note pool = frontend_main_pool[OF Some]
    show ?thesis
      using Suc Some pool[symmetric]
      by (cases "alloc (snd uq)"; cases "fst (alloc (snd uq))") (auto simp: frontend_pass_def less_Suc_eq)
  qed
qed simp

text \<open>
  C37. The frontend, with any driver and pool: \<open>k\<close> passes run unless one of the first \<open>k\<close> allocations fails,
  in which case the program writes through a null pointer. All it transmits are greetings of 64
  bytes, at most one in a pass, and every pass in which the driver does not take the greeting leaves its
  buffer behind: neither transmitted nor freed. What it receives it frees.
\<close>

theorem frontend_run:
  assumes "accounted w"
  shows "(case frontend_main nd alloc k (w, p) of
      None \<Rightarrow> \<exists>i<k. fst (alloc (pool_after alloc i p)) = None
    | Some (w', p') \<Rightarrow> (\<forall>i<k. fst (alloc (pool_after alloc i p)) \<noteq> None) \<and> accounted w' \<and>
        (\<exists>l. sent w' = sent w @ l \<and> list_all greeting l \<and> length l \<le> k \<and>
          size (outstanding w') = size (outstanding w) + (k - length l)))"
proof (cases "frontend_main nd alloc k (w, p)")
  case None
  then show ?thesis using frontend_main_none[of nd alloc k w p] by simp
next
  case (Some wp)
  then show ?thesis
    using frontend_main_none[of nd alloc k w p] frontend_main_runs[of nd alloc k w p "fst wp" "snd wp"] assms
    by (cases wp) auto
qed

definition three_buffers :: "nat \<Rightarrow> mbuf option \<times> nat" where
  "three_buffers n = (if n < 3 then (Some n, Suc n) else (None, n))"

theorem frontend_run_witness:
  "\<exists>w' p' l. frontend_main script_dev three_buffers 2
       (start_world \<lparr>next_addr = 100, bursts = [], tx_caps = [0, 1]\<rparr>, 0) = Some (w', p') \<and>
     sent w' = l \<and> list_all greeting l \<and> length l \<le> 2 \<and> size (outstanding w') = 2 - length l"
proof -
  let ?s = "\<lparr>next_addr = 100, bursts = [], tx_caps = [0, 1]\<rparr>"
  have "frontend_main script_dev three_buffers 2 (start_world ?s, 0) \<noteq> None"
    by (simp add: numeral_2_eq_2 frontend_pass_def three_buffers_def)
  then obtain w' p' where run: "frontend_main script_dev three_buffers 2 (start_world ?s, 0) = Some (w', p')" by auto
  have "outstanding (start_world ?s) = {#}" using balanced_iff balanced_start(1) by metis
  moreover have "accounted (start_world ?s)" by simp
  ultimately show ?thesis
    using frontend_run[where w = "start_world ?s" and nd = script_dev and alloc = three_buffers and k = 2 and p = 0] unfolding run by auto
qed

end
