(* ===== verification/MessageSample.thy ===== *)
theory MessageSample
  imports Processes
begin

text \<open>
  \<open>inter_process_comm/sample_rte_mp\<close>: the secondary sends one message, the primary waits until
  its handler has seen one. The channel is not under src/; as in theory Handshake, a message is
  delivered some time after it was sent to the handler registered for its name, and dropped
  when none is. The results \<open>reg\<close> and \<open>snt\<close> of the registration and of \<open>rte_mp_sendmsg\<close> are
  arguments.
\<close>

text \<open>The fields of \<open>struct rte_mp_msg\<close> in use.\<close>

record rte_mp_msg =
  msg_name :: string
  len_param :: int
  param :: "nat \<Rightarrow> u8"

definition send_message :: rte_mp_msg where
  "send_message =
     (let msg = \<lparr>msg_name = [], len_param = 0, param = (\<lambda>_. 0)\<rparr>;
          msg = msg\<lparr>msg_name := ''sample_mp''\<rparr>;
          val = 42 :: int;
          msg = msg\<lparr>len_param := 1 * 4\<rparr>
      in msg\<lparr>param := (param msg)(0 := word_of_int val, 1 := word_of_int (val + 1),
           2 := word_of_int (val + 2), 3 := word_of_int (val + 3))\<rparr>)"

datatype smp_actor = SmpPrimary | SmpSecondary | SmpDeliver

datatype smp_pc = SmpRegister | SmpWait | SmpEnd | SmpFailed

record smp_state =
  wire :: "rte_mp_msg list"
  handler_for :: "string option"
  out :: int
  printed :: "(nat \<times> u8) list"
  smp_at :: smp_pc
  smp_sent :: bool

definition mp_message_handler :: "rte_mp_msg \<Rightarrow> smp_state \<Rightarrow> smp_state" where
  "mp_message_handler msg s =
     s\<lparr>printed := printed s @ map (\<lambda>i. (i, param msg i)) [0..<nat (len_param msg)], out := 1\<rparr>"

definition smp_primary :: "int \<Rightarrow> smp_state \<Rightarrow> smp_state" where
  "smp_primary reg s =
     (case smp_at s of
        SmpRegister \<Rightarrow> if reg < 0 then s\<lparr>smp_at := SmpFailed\<rparr>
          else s\<lparr>handler_for := Some ''sample_mp'', smp_at := SmpWait\<rparr>
      | SmpWait \<Rightarrow> if out s = 0 then s else s\<lparr>smp_at := SmpEnd\<rparr>
      | _ \<Rightarrow> s)"

text \<open>The wait of two seconds before the message is one of the delays a schedule may have.\<close>

definition smp_secondary :: "int \<Rightarrow> smp_state \<Rightarrow> smp_state" where
  "smp_secondary snt s =
     (if smp_sent s then s
      else s\<lparr>smp_sent := True, wire := if snt < 0 then wire s else wire s @ [send_message]\<rparr>)"

fun smp_step :: "int \<Rightarrow> int \<Rightarrow> smp_actor \<Rightarrow> smp_state \<Rightarrow> smp_state" where
  "smp_step reg snt SmpPrimary s = smp_primary reg s"
| "smp_step reg snt SmpSecondary s = smp_secondary snt s"
| "smp_step reg snt SmpDeliver s =
     (case wire s of [] \<Rightarrow> s
      | msg # msgs \<Rightarrow> if handler_for s = Some (msg_name msg) then mp_message_handler msg (s\<lparr>wire := msgs\<rparr>)
          else s\<lparr>wire := msgs\<rparr>)"

definition smp_start :: smp_state where
  "smp_start = \<lparr>wire = [], handler_for = None, out = 0, printed = [], smp_at = SmpRegister, smp_sent = False\<rparr>"

definition smp_message :: "(nat \<times> u8) list" where
  "smp_message = [(0, 42), (1, 43), (2, 44), (3, 45)]"

lemma send_message_sel: "msg_name send_message = ''sample_mp''"
    "map (\<lambda>i. (i, param send_message i)) [0..<nat (len_param send_message)] = smp_message"
  by (simp_all add: send_message_def smp_message_def upt_rec)

subsection \<open>What every schedule keeps\<close>

text \<open>The message is before its sending, on the wire, delivered, or lost, and lost only before the registration.\<close>

definition smp_inv :: "smp_state \<Rightarrow> bool" where
  "smp_inv s \<longleftrightarrow>
     handler_for s = (if smp_at s \<in> {SmpRegister, SmpFailed} then None else Some ''sample_mp'') \<and>
     (wire s = [] \<or> wire s = [send_message] \<and> smp_sent s \<and> out s = 0) \<and>
     (out s = 0 \<and> printed s = [] \<or> out s = 1 \<and> printed s = smp_message \<and> smp_sent s) \<and>
     (smp_at s = SmpEnd \<longrightarrow> out s = 1)"

lemma smp_keeps: "smp_inv s \<Longrightarrow> smp_inv (smp_step reg snt p s)"
proof (cases p)
  case SmpPrimary
  then show "smp_inv s \<Longrightarrow> smp_inv (smp_step reg snt p s)"
    by (cases "smp_at s") (auto simp: smp_inv_def smp_primary_def)
next
  case SmpSecondary
  then show "smp_inv s \<Longrightarrow> smp_inv (smp_step reg snt p s)"
    by (cases "smp_sent s") (auto simp: smp_inv_def smp_secondary_def)
next
  case SmpDeliver
  then show "smp_inv s \<Longrightarrow> smp_inv (smp_step reg snt p s)"
    by (cases "wire s") (auto simp: smp_inv_def mp_message_handler_def send_message_sel)
qed

lemma smp_run_inv: "smp_inv (sched_run (smp_step reg snt) f smp_start n)"
  by (rule sched_run_keeps[where I = smp_inv]) (simp_all add: smp_keeps, simp add: smp_inv_def smp_start_def)

subsection \<open>A primary that is there first\<close>

definition smp_live :: "smp_state \<Rightarrow> bool" where
  "smp_live s \<longleftrightarrow> smp_inv s \<and> smp_at s \<in> {SmpWait, SmpEnd} \<and> (smp_sent s \<longrightarrow> wire s \<noteq> [] \<or> out s = 1)"

definition smp_final :: "smp_state \<Rightarrow> bool" where
  "smp_final s \<longleftrightarrow> smp_at s = SmpEnd"

definition smp_mover :: "smp_state \<Rightarrow> smp_actor" where
  "smp_mover s = (if \<not> smp_sent s then SmpSecondary else if wire s \<noteq> [] then SmpDeliver else SmpPrimary)"

definition smp_mu :: "smp_state \<Rightarrow> nat" where
  "smp_mu s = (if smp_sent s then 0 else 2) + length (wire s) + (if smp_at s = SmpEnd then 0 else 1)"

lemma smp_live_keeps:
  assumes live: "smp_live s"
  shows "smp_live (smp_step 0 0 p s)"
proof -
  have inv: "smp_inv (smp_step 0 0 p s)" using live smp_keeps by (simp add: smp_live_def)
  have "smp_at (smp_step 0 0 p s) \<in> {SmpWait, SmpEnd} \<and>
      (smp_sent (smp_step 0 0 p s) \<longrightarrow> wire (smp_step 0 0 p s) \<noteq> [] \<or> out (smp_step 0 0 p s) = 1)"
  proof (cases p)
    case SmpPrimary
    then show ?thesis using live by (auto simp: smp_live_def smp_primary_def split: smp_pc.split)
  next
    case SmpSecondary
    then show ?thesis using live by (auto simp: smp_live_def smp_secondary_def)
  next
    case SmpDeliver
    have "wire s = [] \<or> wire s = [send_message]" "handler_for s = Some ''sample_mp''"
      using live by (auto simp: smp_live_def smp_inv_def)
    then show ?thesis
      using SmpDeliver live by (auto simp: smp_live_def mp_message_handler_def send_message_sel(1))
  qed
  with inv show ?thesis by (simp add: smp_live_def)
qed

interpretation smp: fair_progress "smp_step 0 0" smp_live smp_final smp_mu smp_mover
proof
  fix s and p
  assume live: "smp_live s"
  then show "smp_live (smp_step 0 0 p s)" by (rule smp_live_keeps)
  assume on: "\<not> smp_final s"
  show "smp_mu (smp_step 0 0 (smp_mover s) s) < smp_mu s"
    using live on by (auto simp: smp_live_def smp_inv_def smp_final_def smp_mover_def smp_mu_def smp_primary_def
        smp_secondary_def mp_message_handler_def send_message_sel)
  assume "p \<noteq> smp_mover s"
  then show "smp_mu (smp_step 0 0 p s) < smp_mu s \<or>
      smp_mu (smp_step 0 0 p s) = smp_mu s \<and> smp_mover (smp_step 0 0 p s) = smp_mover s"
    using live on by (cases p) (auto simp: smp_live_def smp_inv_def smp_final_def smp_mover_def smp_mu_def smp_primary_def
        smp_secondary_def mp_message_handler_def send_message_sel split: smp_pc.splits if_splits)
qed

lemma smp_results:
  assumes "0 \<le> reg" and "0 \<le> snt"
  shows "smp_step reg snt = smp_step 0 0"
proof (intro ext)
  fix p s
  show "smp_step reg snt p s = smp_step 0 0 p s"
    using assms by (cases p) (simp_all add: smp_primary_def smp_secondary_def)
qed

lemma smp_first:
  assumes "f 0 = SmpPrimary" and "fair f"
  shows "\<exists>n. smp_at (sched_run (smp_step 0 0) f smp_start n) = SmpEnd"
proof -
  have "smp_live (smp_step 0 0 (f 0) smp_start)"
    using assms(1) by (simp add: smp_primary_def smp_start_def smp_live_def smp_inv_def)
  from smp.reaches_final[OF fair_shift[OF assms(2), of 1] this]
  obtain n where "smp_final (sched_run (smp_step 0 0) (\<lambda>i. f (1 + i)) (smp_step 0 0 (f 0) smp_start) n)" ..
  then show ?thesis
    using sched_run_add[of "smp_step 0 0" f smp_start 1 n] by (intro exI[of _ "1 + n"]) (simp add: smp_final_def)
qed

subsection \<open>A secondary that is there first\<close>

definition smp_round :: "nat \<Rightarrow> smp_actor" where
  "smp_round n = [SmpSecondary, SmpDeliver, SmpPrimary] ! (n mod 3)"

lemma smp_round_fair: "fair smp_round"
  unfolding fair_def
proof (intro allI)
  fix p and n :: nat
  have "smp_round (3 * n + k) = [SmpSecondary, SmpDeliver, SmpPrimary] ! (k mod 3)" for k
    by (simp add: smp_round_def)
  from this[of 0] this[of 1] this[of 2]
  have "smp_round (3 * n) = SmpSecondary" "smp_round (3 * n + 1) = SmpDeliver" "smp_round (3 * n + 2) = SmpPrimary"
    by simp_all
  moreover have "n \<le> 3 * n" "n \<le> 3 * n + 1" "n \<le> 3 * n + 2" by simp_all
  ultimately show "\<exists>m\<ge>n. smp_round m = p" by (cases p) blast+
qed

definition smp_lost :: "smp_state \<Rightarrow> bool" where
  "smp_lost s \<longleftrightarrow> smp_sent s \<and> wire s = [] \<and> out s = 0 \<and> printed s = [] \<and> smp_at s \<noteq> SmpEnd"

lemma smp_lost_keeps: "smp_lost s \<Longrightarrow> smp_lost (smp_step reg snt p s)"
  by (cases p) (auto simp: smp_lost_def smp_primary_def smp_secondary_def split: smp_pc.splits)

lemma smp_round_lost: "smp_at (sched_run (smp_step 0 0) smp_round smp_start n) \<noteq> SmpEnd"
proof (cases "n < 2")
  case True
  then have "n = 0 \<or> n = 1" by auto
  then show ?thesis by (auto simp: smp_round_def smp_secondary_def smp_start_def)
next
  case False
  have "smp_lost (sched_run (smp_step 0 0) smp_round smp_start 2)"
    by (simp add: numeral_2_eq_2 smp_round_def smp_secondary_def smp_start_def smp_lost_def send_message_sel)
  then have "smp_lost (sched_run (smp_step 0 0) (\<lambda>i. smp_round (2 + i)) (sched_run (smp_step 0 0) smp_round smp_start 2) (n - 2))"
    by (rule sched_run_keeps[where I = smp_lost, rotated]) (rule smp_lost_keeps)
  then have "smp_lost (sched_run (smp_step 0 0) smp_round smp_start (2 + (n - 2)))" unfolding sched_run_add .
  moreover have "2 + (n - 2) = n" using False by simp
  ultimately show ?thesis by (simp only: smp_lost_def not_False_eq_True)
qed


definition primary_first :: "nat \<Rightarrow> smp_actor" where
  "primary_first n = smp_round (n + 2)"


end
