(* ===== verification/Lcores.thy ===== *)
theory Lcores
  imports Processes "HOL-Library.Countable"
begin

text \<open>
  The programs that launch a function on the lcores, \<open>lcore/lcore_wit.c\<close> and
  \<open>lcore/lcore_var_example.c\<close>. Each lcore takes its steps in any order; what is printed is
  recorded with the lcore that prints it.
\<close>

subsection \<open>Launching a function on every lcore and waiting for it\<close>

text \<open>
  The lcores by number; the main lcore runs the function before it waits, as the flag
  \<open>CALL_MAIN\<close> asks. \<open>Finished r\<close> holds the return value that \<open>rte_eal_wait_lcore\<close> fetches.
\<close>

datatype lcore_pc = Ready | Working | Finished int

record lcore_state =
  lcore_at :: "nat \<Rightarrow> lcore_pc"
  my_counter :: "nat \<Rightarrow> int"
  lines :: "(nat \<times> string \<times> int) list"
  waiting :: "nat list"
  ended :: bool

text \<open>\<open>lcore_wit.c\<close>: a line, a delay, a line, and ten times the number of the lcore.\<close>

definition wit_lcore_main :: "nat \<Rightarrow> lcore_state \<Rightarrow> lcore_state" where
  "wit_lcore_main l s =
     (case lcore_at s l of
        Ready \<Rightarrow> s\<lparr>lines := lines s @ [(l, ''started work'', int l)], lcore_at := (lcore_at s)(l := Working)\<rparr>
      | Working \<Rightarrow> s\<lparr>lines := lines s @ [(l, ''finished work'', int l)], lcore_at := (lcore_at s)(l := Finished (int l * 10))\<rparr>
      | Finished r \<Rightarrow> s)"

text \<open>
  The main lcore \<open>m\<close> after the launch: it runs the function itself, then waits for the workers
  in turn, which takes a line before and a line after each wait.
\<close>

definition wit_main :: "nat \<Rightarrow> lcore_state \<Rightarrow> lcore_state" where
  "wit_main m s =
     (case lcore_at s m of
        Finished r \<Rightarrow>
          (case waiting s of
             [] \<Rightarrow> if ended s then s else s\<lparr>lines := lines s @ [(m, ''Main core finished waiting'', 0)], ended := True\<rparr>
           | l # ls \<Rightarrow> (case lcore_at s l of
               Finished ret \<Rightarrow> s\<lparr>lines := lines s @ [(m, ''returned'', ret)], waiting := ls\<rparr>
             | _ \<Rightarrow> s))
      | _ \<Rightarrow> wit_lcore_main m s)"

definition wit_step :: "nat \<Rightarrow> nat list \<Rightarrow> nat \<Rightarrow> lcore_state \<Rightarrow> lcore_state" where
  "wit_step m workers l s =
     (if l = m then wit_main m s else if l \<in> set workers then wit_lcore_main l s else s)"

definition lcores_start :: "nat list \<Rightarrow> lcore_state" where
  "lcores_start workers =
     \<lparr>lcore_at = (\<lambda>_. Ready), my_counter = (\<lambda>_. 0), lines = [], waiting = workers, ended = False\<rparr>"

text \<open>The lines of the waiting loop.\<close>

definition returned :: "lcore_state \<Rightarrow> int list" where
  "returned s = map (snd \<circ> snd) (filter (\<lambda>(l, t, r). t = ''returned'') (lines s))"

definition wit_inv :: "nat list \<Rightarrow> lcore_state \<Rightarrow> bool" where
  "wit_inv workers s \<longleftrightarrow>
     (\<forall>l r. lcore_at s l = Finished r \<longrightarrow> r = int l * 10) \<and>
     (\<exists>past. workers = past @ waiting s \<and> returned s = map (\<lambda>l. int l * 10) past) \<and>
     (ended s \<longrightarrow> waiting s = [])"

lemma wit_lcore_keeps:
  assumes "wit_inv workers s"
  shows "wit_inv workers (wit_lcore_main l s)"
  using assms by (auto simp: wit_inv_def wit_lcore_main_def returned_def split: lcore_pc.splits if_splits)

lemma wit_main_keeps:
  assumes "wit_inv workers s"
  shows "wit_inv workers (wit_main m s)"
proof (cases "lcore_at s m")
  case (Finished r)
  then show ?thesis
    using assms by (auto simp: wit_inv_def wit_main_def returned_def split: list.split lcore_pc.splits)
qed (use wit_lcore_keeps[OF assms] in \<open>simp_all add: wit_main_def\<close>)

text \<open>What is left to do, and who does it.\<close>

definition pc_left :: "lcore_pc \<Rightarrow> nat" where
  "pc_left p = (case p of Ready \<Rightarrow> 2 | Working \<Rightarrow> 1 | Finished r \<Rightarrow> 0)"

definition wit_left :: "nat \<Rightarrow> nat list \<Rightarrow> lcore_state \<Rightarrow> nat" where
  "wit_left m workers s =
     (\<Sum>l\<in>set (m # workers). pc_left (lcore_at s l)) + length (waiting s) + (if ended s then 0 else 1)"

definition wit_mover :: "nat \<Rightarrow> lcore_state \<Rightarrow> nat" where
  "wit_mover m s =
     (case lcore_at s m of
        Finished r \<Rightarrow> (case waiting s of [] \<Rightarrow> m | l # ls \<Rightarrow> (case lcore_at s l of Finished r \<Rightarrow> m | _ \<Rightarrow> l))
      | _ \<Rightarrow> m)"

lemma wit_lcore_moves:
  assumes "l \<in> set (m # workers)"
  shows "(\<exists>r. lcore_at s l = Finished r) \<and> wit_lcore_main l s = s \<or>
    wit_left m workers (wit_lcore_main l s) < wit_left m workers s"
proof (cases "\<exists>r. lcore_at s l = Finished r")
  case True
  then show ?thesis by (auto simp: wit_lcore_main_def)
next
  case False
  let ?s = "wit_lcore_main l s"
  obtain p where p: "lcore_at ?s = (lcore_at s)(l := p)" "pc_left p < pc_left (lcore_at s l)"
      "waiting ?s = waiting s" "ended ?s = ended s"
    using False by (cases "lcore_at s l") (auto simp: wit_lcore_main_def pc_left_def)
  then have "(\<Sum>l\<in>set (m # workers). pc_left (lcore_at ?s l)) < (\<Sum>l\<in>set (m # workers). pc_left (lcore_at s l))"
    using assms by (intro sum_strict_mono_ex1 bexI[of _ l]) auto
  then show ?thesis using p(3,4) unfolding wit_left_def by simp
qed

lemma wit_main_moves:
  "wit_main m s = s \<and> (wit_mover m s \<noteq> m \<or> ended s) \<or> wit_left m workers (wit_main m s) < wit_left m workers s"
proof (cases "lcore_at s m")
  case (Finished r)
  then show ?thesis
    by (auto simp: wit_main_def wit_mover_def wit_left_def split: list.split lcore_pc.splits)
next
  case Ready
  then show ?thesis using wit_lcore_moves[of m m workers s] by (simp add: wit_main_def)
next
  case Working
  then show ?thesis using wit_lcore_moves[of m m workers s] by (simp add: wit_main_def)
qed

lemma wit_progress:
  "fair_progress (wit_step m workers) (wit_inv workers) ended (wit_left m workers) (wit_mover m)"
proof
  fix s and l :: nat
  assume inv: "wit_inv workers s"
  then show "wit_inv workers (wit_step m workers l s)"
    using wit_main_keeps wit_lcore_keeps by (simp add: wit_step_def)
  assume on: "\<not> ended s"
  have "waiting s = k # ks \<Longrightarrow> k \<in> set workers" for k ks
    using inv by (auto simp: wit_inv_def)
  then have mover: "wit_mover m s = m \<or> wit_mover m s \<in> set workers \<and> (\<nexists>r. lcore_at s (wit_mover m s) = Finished r)"
    by (auto simp: wit_mover_def split: list.splits lcore_pc.splits)
  show "wit_left m workers (wit_step m workers (wit_mover m s) s) < wit_left m workers s"
  proof (cases "wit_mover m s = m")
    case True
    then show ?thesis using wit_main_moves[of m s workers] on by (simp add: wit_step_def)
  next
    case False
    then show ?thesis using wit_lcore_moves[of "wit_mover m s" m workers s] mover by (simp add: wit_step_def)
  qed
  assume "l \<noteq> wit_mover m s"
  have "wit_step m workers l s = s \<or> wit_left m workers (wit_step m workers l s) < wit_left m workers s"
    using wit_main_moves[of m s workers] wit_lcore_moves[of l m workers s] by (auto simp: wit_step_def)
  then show "wit_left m workers (wit_step m workers l s) < wit_left m workers s \<or>
      wit_left m workers (wit_step m workers l s) = wit_left m workers s \<and> wit_mover m (wit_step m workers l s) = wit_mover m s"
    by auto
qed

interpretation wit: fair_progress "wit_step m workers" "wit_inv workers" ended "wit_left m workers" "wit_mover m"
  by (rule wit_progress)

subsection \<open>A counter per lcore\<close>

text \<open>\<open>lcore_var_example.c\<close>: the counter is the lcore's own, so that the order does not matter.\<close>

definition var_lcore_main :: "nat \<Rightarrow> lcore_state \<Rightarrow> lcore_state" where
  "var_lcore_main l s =
     (case lcore_at s l of
        Ready \<Rightarrow> s\<lparr>my_counter := (my_counter s)(l := my_counter s l + 1), lcore_at := (lcore_at s)(l := Working)\<rparr>
      | Working \<Rightarrow> s\<lparr>lines := lines s @ [(l, ''counter'', my_counter s l)], lcore_at := (lcore_at s)(l := Finished 0)\<rparr>
      | Finished r \<Rightarrow> s)"

definition var_inv :: "lcore_state \<Rightarrow> bool" where
  "var_inv s \<longleftrightarrow>
     (\<forall>l. my_counter s l = (if lcore_at s l = Ready then 0 else 1)) \<and>
     distinct (map fst (lines s)) \<and>
     set (lines s) = {(l, ''counter'', 1) |l. lcore_at s l \<noteq> Ready \<and> lcore_at s l \<noteq> Working}"

lemma var_keeps:
  assumes "var_inv s"
  shows "var_inv (var_lcore_main l s)"
  using assms by (auto simp: var_inv_def var_lcore_main_def image_iff split: lcore_pc.splits)

text \<open>
  Launching and waiting. \<open>lcore_wit.c\<close>, for any main lcore and workers and in any
  interleaving of their steps: when the main lcore has finished it has printed the value each
  worker returned, ten times its number, in the order of the lcore list, however long each took; and under a
  fair schedule it finishes. \<open>lcore_var_example.c\<close>: whichever lcores have run, each has
  printed 1, once.
\<close>

theorem lcores_waited_for:
  "(ended (sched_run (wit_step m workers) f (lcores_start workers) n) \<longrightarrow>
      returned (sched_run (wit_step m workers) f (lcores_start workers) n) = map (\<lambda>l. int l * 10) workers) \<and>
   (fair f \<longrightarrow> (\<exists>n. ended (sched_run (wit_step m workers) f (lcores_start workers) n))) \<and>
   distinct (map fst (lines (fold var_lcore_main ls (lcores_start workers)))) \<and>
   set (lines (fold var_lcore_main ls (lcores_start workers))) = {(l, ''counter'', 1) |l. 2 \<le> count_list ls l}"
proof (intro conjI impI)
  let ?run = "sched_run (wit_step m workers) f (lcores_start workers)"
  have start: "wit_inv workers (lcores_start workers)"
    by (simp add: wit_inv_def lcores_start_def returned_def)
  have "wit_inv workers (?run n)"
    by (rule sched_run_keeps[where I = "wit_inv workers"]) (use start wit.keeps in blast)+
  then show "ended (?run n) \<Longrightarrow> returned (?run n) = map (\<lambda>l. int l * 10) workers" by (auto simp: wit_inv_def)
  show "fair f \<Longrightarrow> \<exists>n. ended (?run n)" using wit.reaches_final[OF _ start] by blast
  have "var_inv (lcores_start workers)" by (simp add: var_inv_def lcores_start_def)
  then have inv: "var_inv (fold var_lcore_main ls (lcores_start workers))"
    by (rule fold_invariant[where I = var_inv, rotated]) (simp add: var_keeps)
  have at: "lcore_at (fold var_lcore_main ls (lcores_start workers)) l =
      (case count_list ls l of 0 \<Rightarrow> Ready | Suc 0 \<Rightarrow> Working | _ \<Rightarrow> Finished 0)" for l
    by (induction ls rule: rev_induct)
      (auto simp: lcores_start_def var_lcore_main_def split: lcore_pc.splits nat.splits)
  show "distinct (map fst (lines (fold var_lcore_main ls (lcores_start workers))))"
    using inv by (simp add: var_inv_def)
  have "lcore_at (fold var_lcore_main ls (lcores_start workers)) l \<noteq> Ready \<and>
      lcore_at (fold var_lcore_main ls (lcores_start workers)) l \<noteq> Working \<longleftrightarrow> 2 \<le> count_list ls l" for l
    unfolding at by (auto split: nat.split)
  then show "set (lines (fold var_lcore_main ls (lcores_start workers))) = {(l, ''counter'', 1) |l. 2 \<le> count_list ls l}"
    using inv by (simp add: var_inv_def)
qed

text \<open>A schedule in which every number comes up again and again.\<close>

definition every_lcore :: "nat \<Rightarrow> nat" where
  "every_lcore n = snd (prod_decode n)"

lemma every_lcore_fair: "fair every_lcore"
  unfolding fair_def every_lcore_def
proof (intro allI)
  fix p n :: nat
  show "\<exists>m\<ge>n. snd (prod_decode m) = p"
    by (rule exI[of _ "prod_encode (n, p)"]) (simp add: le_prod_encode_1)
qed

theorem lcores_waited_for_witness:
  "\<exists>n. ended (sched_run (wit_step 0 [1, 2]) every_lcore (lcores_start [1, 2]) n) \<and>
     returned (sched_run (wit_step 0 [1, 2]) every_lcore (lcores_start [1, 2]) n) = [10, 20]"
  using lcores_waited_for[where m = 0 and workers = "[1, 2]" and f = every_lcore] every_lcore_fair by fastforce

end
