(* ===== verification/Reports.thy ===== *)
theory Reports
  imports Prelude
begin

text \<open>
  The functions that only report: \<open>print_mbuf_info\<close> of \<open>ports/packet_parsing\<close> and
  \<open>ports/port_mempool\<close> (two copies of one file), and the statistics of \<open>nic_stats/sample/main.c\<close>.
  What they print is their result.
\<close>

subsection \<open>\<open>mk_buff_info.c\<close>: the fields of a buffer\<close>

text \<open>
  The members of \<open>struct rte_mbuf\<close> that are printed. The types of the layers are bit fields of
  \<open>packet_type\<close>, four bits each from the least significant on.
\<close>

record mbuf_info =
  mi_port :: u16
  mi_pkt_len :: u32
  mi_data_len :: u16
  mi_nb_segs :: u16
  mi_rss :: u32
  mi_vlan_tci :: u16
  packet_type :: u32

definition ptype_field :: "nat \<Rightarrow> u32 \<Rightarrow> u8" where
  "ptype_field k t = ucast (drop_bit (4 * k) t AND 15)"

definition l2_to_str :: "u8 \<Rightarrow> string" where
  "l2_to_str t = (if t = 1 then ''Ethernet'' else if t = 2 then ''VLAN'' else if t = 3 then ''QinQ'' else ''Unknown-L2'')"

definition l3_to_str :: "u8 \<Rightarrow> string" where
  "l3_to_str t = (if t = 1 then ''IPv4'' else if t = 2 then ''IPv4-EXT'' else if t = 3 then ''IPv6''
     else if t = 4 then ''IPv6-EXT'' else ''Unknown-L3'')"

definition l4_to_str :: "u8 \<Rightarrow> string" where
  "l4_to_str t = (if t = 1 then ''TCP'' else if t = 2 then ''UDP'' else if t = 3 then ''SCTP''
     else if t = 4 then ''ICMP'' else ''Unknown-L4'')"

datatype info_line =
    Field string nat
  | Layer string string nat
  | Inner nat nat nat

definition print_mbuf_info :: "mbuf_info \<Rightarrow> info_line list" where
  "print_mbuf_info m =
     (let t = packet_type m
      in [Field ''Port'' (unat (mi_port m)), Field ''Total Packet Length'' (unat (mi_pkt_len m)),
          Field ''Segment Data Length'' (unat (mi_data_len m)), Field ''Segments'' (unat (mi_nb_segs m)),
          Field ''RSS Hash'' (unat (mi_rss m)), Field ''VLAN TCI'' (unat (mi_vlan_tci m)),
          Field ''Packet Type Raw'' (unat t),
          Layer ''L2'' (l2_to_str (ptype_field 0 t)) (unat (ptype_field 0 t)),
          Layer ''L3'' (l3_to_str (ptype_field 1 t)) (unat (ptype_field 1 t)),
          Layer ''L4'' (l4_to_str (ptype_field 2 t)) (unat (ptype_field 2 t)),
          Field ''Tunnel Type'' (unat (ptype_field 3 t)),
          Inner (unat (ptype_field 4 t)) (unat (ptype_field 5 t)) (unat (ptype_field 6 t))])"

text \<open>The file of \<open>ports/port_mempool\<close> is the same, character by character.\<close>

definition pm_print_mbuf_info :: "mbuf_info \<Rightarrow> info_line list" where
  "pm_print_mbuf_info = print_mbuf_info"

text \<open>
  What the library means by the first three: the values of \<open>RTE_PTYPE_L2_ETHER\<close> and so on,
  restricted to the layers the functions name.
\<close>

definition rte_l2 :: "u8 \<Rightarrow> string" where
  "rte_l2 t = (if t = 1 then ''Ethernet'' else if t = 6 then ''VLAN'' else if t = 7 then ''QinQ'' else ''Unknown-L2'')"

definition rte_l3 :: "u8 \<Rightarrow> string" where
  "rte_l3 t = (if t = 1 then ''IPv4'' else if t = 3 then ''IPv4-EXT'' else if t = 4 then ''IPv6''
     else if t = 12 then ''IPv6-EXT'' else ''Unknown-L3'')"

definition rte_l4 :: "u8 \<Rightarrow> string" where
  "rte_l4 t = (if t = 1 then ''TCP'' else if t = 2 then ''UDP'' else if t = 4 then ''SCTP''
     else if t = 5 then ''ICMP'' else ''Unknown-L4'')"

text \<open>The numbers printed, put together again.\<close>

definition shown_type :: "info_line list \<Rightarrow> nat" where
  "shown_type ls =
     (case drop 7 ls of
        [Layer _ _ a, Layer _ _ b, Layer _ _ c, Field _ d, Inner e f g] \<Rightarrow>
          a + 2 ^ 4 * b + 2 ^ 8 * c + 2 ^ 12 * d + 2 ^ 16 * e + 2 ^ 20 * f + 2 ^ 24 * g
      | _ \<Rightarrow> 0)"

lemma ptype_field_unat: "unat (ptype_field k t) = unat t div 2 ^ (4 * k) mod 16"
proof -
  have "drop_bit (4 * k) t AND 15 = take_bit 4 (drop_bit (4 * k) t)"
    by (simp add: take_bit_eq_mask mask_eq_exp_minus_1)
  moreover have "unat t < 2 ^ LENGTH(32)" by (rule unsigned_less)
  then have "take_bit 32 (unat t) = unat t" by (simp add: take_bit_nat_eq_self)
  ultimately have "unat (ptype_field k t) = take_bit 8 (take_bit 4 (drop_bit (4 * k) (unat t)))"
    by (simp add: ptype_field_def unsigned_ucast_eq unsigned_take_bit_eq unsigned_drop_bit_eq)
  then show ?thesis by (simp add: take_bit_eq_mod drop_bit_eq_div)
qed

lemma hex_digit: "(n :: nat) mod 2 ^ (k + 4) = n mod 2 ^ k + 2 ^ k * (n div 2 ^ k mod 16)"
  by (simp add: power_add mod_mult2_eq)

lemma hex_digits: "(n :: nat) mod 16 + 2 ^ 4 * (n div 2 ^ 4 mod 16) + 2 ^ 8 * (n div 2 ^ 8 mod 16) +
    2 ^ 12 * (n div 2 ^ 12 mod 16) + 2 ^ 16 * (n div 2 ^ 16 mod 16) + 2 ^ 20 * (n div 2 ^ 20 mod 16) +
    2 ^ 24 * (n div 2 ^ 24 mod 16) = n mod 2 ^ 28"
  using hex_digit[of n 4] hex_digit[of n 8] hex_digit[of n 12] hex_digit[of n 16] hex_digit[of n 20]
    hex_digit[of n 24] by simp

text \<open>
  \<open>print_mbuf_info\<close>, for any buffer: the raw packet type is printed, and its fields printed
  one by one put the lower 28 bits of it together again. The names are those of the library
  for Ethernet, IPv4, TCP and UDP only: the function counts the named layers through, while in
  the library VLAN is 6, QinQ 7, IPv4 with options 3, IPv6 4 or 12, SCTP 4 and ICMP 5.
\<close>

theorem mbuf_info_types:
  "Field ''Packet Type Raw'' (unat (packet_type m)) \<in> set (print_mbuf_info m) \<and>
   shown_type (print_mbuf_info m) = unat (packet_type m) mod 2 ^ 28 \<and>
   (l2_to_str t = rte_l2 t \<longleftrightarrow> t \<notin> {2, 3, 6, 7}) \<and> (l3_to_str t = rte_l3 t \<longleftrightarrow> t \<notin> {2, 3, 4, 12}) \<and>
   (l4_to_str t = rte_l4 t \<longleftrightarrow> t \<notin> {3, 4, 5})"
proof (intro conjI)
  show "shown_type (print_mbuf_info m) = unat (packet_type m) mod 2 ^ 28"
    using hex_digits[of "unat (packet_type m)"]
    by (simp add: print_mbuf_info_def shown_type_def Let_def ptype_field_unat)
qed (simp_all add: print_mbuf_info_def Let_def l2_to_str_def l3_to_str_def l4_to_str_def rte_l2_def rte_l3_def rte_l4_def)

subsection \<open>\<open>nic_stats\<close>: the statistics of a port\<close>

text \<open>
  \<open>rte_eth_stats_get\<close> and the two calls for the extended statistics are not under src/: their
  return values and what they write are arguments. \<open>xget n\<close> and \<open>xnames n\<close> are the calls with
  room for \<open>n\<close> entries (\<open>xget 0\<close> also the one without an array): documented to fill in as many
  entries as they return, or none that may be used when they return more than \<open>n\<close>. The arrays
  are local and not initialised, their contents the arguments \<open>junk\<close>; an array of length 0 is
  undefined in C.
\<close>

record eth_stats =
  ipackets :: u64
  opackets :: u64
  ibytes :: u64
  obytes :: u64
  imissed :: u64
  ierrors :: u64
  oerrors :: u64

definition print_eth_stats :: "int \<times> eth_stats \<Rightarrow> u16 \<Rightarrow> (string \<times> nat) list" where
  "print_eth_stats result port_id =
     (case result of (ret, stats) \<Rightarrow>
        if ret = 0 then
          [(''rte_eth_stats'', unat port_id), (''RX packets'', unat (ipackets stats)), (''TX packets'', unat (opackets stats)),
           (''RX bytes'', unat (ibytes stats)), (''TX bytes'', unat (obytes stats)),
           (''RX dropped'', unat (imissed stats)), (''RX errors'', unat (ierrors stats)), (''TX errors'', unat (oerrors stats))]
        else [(''Failed to get stats'', unat port_id)])"

datatype xstats_out = NoCount | NoNames | NoValues | ZeroLengthArray | XStats "(string \<times> u64) list"

text \<open>What an array of length \<open>n\<close> holds after a call returned \<open>ret\<close> with the entries \<open>xs\<close>.\<close>

definition filled :: "nat \<Rightarrow> int \<times> 'a list \<Rightarrow> 'a list \<Rightarrow> 'a list" where
  "filled n result junk =
     (case result of (ret, xs) \<Rightarrow> if int n < ret then junk else take (nat ret) xs @ drop (nat ret) junk)"

definition print_xstats ::
    "(nat \<Rightarrow> nat \<Rightarrow> int \<times> u64 list) \<Rightarrow> (nat \<Rightarrow> int \<times> string list) \<Rightarrow> u64 list \<Rightarrow> string list \<Rightarrow> xstats_out" where
  "print_xstats xget xnames junk junk_names =
     (let len = fst (xget 0 0)
      in if len < 0 then NoCount
         else if len = 0 then ZeroLengthArray
         else let n = nat len; got_names = xnames n
              in if fst got_names < 0 then NoNames
                 else let got = xget 1 n
                      in if fst got < 0 then NoValues
                         else XStats (zip (take n (filled n got_names junk_names)) (take n (filled n got junk))))"

text \<open>
  \<open>print_xstats\<close>, for any driver and any contents of the stack: when the three calls agree on
  the number of statistics it prints each value under its name. Each call that fails ends it
  with a message of its own. When statistics have been added between the first and the last
  call, which the code does not notice, it prints what lay on the stack; and a port without
  extended statistics makes it declare an array of length 0.
\<close>

theorem xstats_printed:
  "(\<forall>ns xs. 0 < length ns \<and> length xs = length ns \<and> fst (xget 0 0) = int (length ns) \<and>
      xnames (length ns) = (int (length ns), ns) \<and> xget 1 (length ns) = (int (length ns), xs) \<longrightarrow>
      print_xstats xget xnames junk junk_names = XStats (zip ns xs)) \<and>
   (print_xstats xget xnames junk junk_names = NoCount \<longleftrightarrow> fst (xget 0 0) < 0) \<and>
   (print_xstats xget xnames junk junk_names = ZeroLengthArray \<longleftrightarrow> fst (xget 0 0) = 0) \<and>
   (\<forall>n. 0 < n \<and> fst (xget 0 0) = int n \<longrightarrow>
      (print_xstats xget xnames junk junk_names = NoNames \<longleftrightarrow> fst (xnames n) < 0) \<and>
      (print_xstats xget xnames junk junk_names = NoValues \<longleftrightarrow> 0 \<le> fst (xnames n) \<and> fst (xget 1 n) < 0) \<and>
      (0 \<le> fst (xnames n) \<and> int n < fst (xget 1 n) \<and> length junk = n \<and> length junk_names = n \<and> length (snd (xnames n)) \<ge> n \<longrightarrow>
        (\<exists>ns. print_xstats xget xnames junk junk_names = XStats (zip ns junk) \<and> length ns = n)))"
  by (auto simp: print_xstats_def Let_def filled_def case_prod_beta)

theorem xstats_printed_witness:
  "print_xstats (\<lambda>k n. (2, [10, 20])) (\<lambda>n. (2, [''rx'', ''tx''])) [7, 7] [[], []] = XStats [(''rx'', 10), (''tx'', 20)]"
proof -
  have "0 < length [''rx'', ''tx''] \<and> length [10, 20 :: u64] = length [''rx'', ''tx''] \<and>
      fst (2 :: int, [10, 20 :: u64]) = int (length [''rx'', ''tx'']) \<and>
      (2, [''rx'', ''tx'']) = (int (length [''rx'', ''tx'']), [''rx'', ''tx'']) \<and>
      (2, [10, 20 :: u64]) = (int (length [''rx'', ''tx'']), [10, 20 :: u64])" by simp
  from xstats_printed[THEN conjunct1, rule_format, where xget = "\<lambda>k n. (2, [10, 20])" and
      xnames = "\<lambda>n. (2, [''rx'', ''tx''])", OF this]
  show ?thesis by simp
qed

end
