(* ===== verification/FrameCodec.thy ===== *)
theory FrameCodec
  imports PacketParser ControlData
begin

text \<open>
  Frames as structured values, the bytes they have on the wire, and what the two programs that
  look into packets, the decoder of the pipelines (theory PacketParser) and the classifier of
  \<open>control_data_segregation\<close> (theory ControlData), make of these bytes. The encoder is the
  specification: the layouts of Ethernet, 802.1Q, IPv4 with options, IPv6, UDP, TCP and ICMP.
\<close>

subsection \<open>Frames\<close>

text \<open>\<open>OtherL4\<close> and \<open>OtherL3\<close>: a protocol number and an EtherType the programs do not decode.\<close>

datatype transport =
    Udp u16 u16
  | Tcp u16 u16 u32 u32 u8
  | Icmp u8 u8
  | OtherL4 u8

text \<open>
  \<open>V4 a b fixed options l4\<close>: addresses, the eight bytes from the type of service to the time to
  live, and the options, in whole words; \<open>V6 a b fixed l4\<close>: the bytes before the next header.
\<close>

datatype network =
    V4 "u8 list" "u8 list" "u8 list" "u8 list" transport
  | V6 "u8 list" "u8 list" "u8 list" transport
  | OtherL3 u16

record frame =
  dst_mac :: "u8 list"
  src_mac :: "u8 list"
  vlan_tci :: "u16 option"
  net :: network

definition wire16 :: "u16 \<Rightarrow> u8 list" where
  "wire16 v = [ucast (drop_bit 8 v), ucast v]"

definition wire32 :: "u32 \<Rightarrow> u8 list" where
  "wire32 v = [ucast (drop_bit 24 v), ucast (drop_bit 16 v), ucast (drop_bit 8 v), ucast v]"

fun proto_of :: "transport \<Rightarrow> u8" where
  "proto_of (Udp s d) = 17"
| "proto_of (Tcp s d sq ak fl) = 6"
| "proto_of (Icmp t c) = 1"
| "proto_of (OtherL4 p) = p"

fun encode_l4 :: "transport \<Rightarrow> u8 list" where
  "encode_l4 (Udp s d) = wire16 s @ wire16 d @ [0, 8, 0, 0]"
| "encode_l4 (Tcp s d sq ak fl) = wire16 s @ wire16 d @ wire32 sq @ wire32 ak @ [0x50, fl, 0, 0, 0, 0, 0, 0]"
| "encode_l4 (Icmp t c) = [t, c, 0, 0, 0, 0, 0, 0]"
| "encode_l4 (OtherL4 p) = []"

fun ethertype_of :: "network \<Rightarrow> u16" where
  "ethertype_of (V4 a b fixed opts l4) = 0x0800"
| "ethertype_of (V6 a b fixed l4) = 0x86DD"
| "ethertype_of (OtherL3 t) = t"

fun encode_l3 :: "network \<Rightarrow> u8 list" where
  "encode_l3 (V4 a b fixed opts l4) =
     [0x45 + of_nat (length opts div 4)] @ fixed @ [proto_of l4, 0, 0] @ a @ b @ opts @ encode_l4 l4"
| "encode_l3 (V6 a b fixed l4) = fixed @ [proto_of l4, 64] @ a @ b @ encode_l4 l4"
| "encode_l3 (OtherL3 t) = []"

definition encode :: "frame \<Rightarrow> u8 list" where
  "encode f =
     dst_mac f @ src_mac f @ (case vlan_tci f of None \<Rightarrow> [] | Some tci \<Rightarrow> wire16 0x8100 @ wire16 tci) @
     wire16 (ethertype_of (net f)) @ encode_l3 (net f)"

fun wf_l4 :: "transport \<Rightarrow> bool" where
  "wf_l4 (OtherL4 p) \<longleftrightarrow> p \<notin> {1, 6, 17}" | "wf_l4 l4 \<longleftrightarrow> True"

fun wf_l3 :: "network \<Rightarrow> bool" where
  "wf_l3 (V4 a b fixed opts l4) \<longleftrightarrow>
     length a = 4 \<and> length b = 4 \<and> length fixed = 8 \<and> (\<exists>k\<le>10. length opts = 4 * k) \<and> wf_l4 l4"
| "wf_l3 (V6 a b fixed l4) \<longleftrightarrow> length a = 16 \<and> length b = 16 \<and> length fixed = 6 \<and> wf_l4 l4"
| "wf_l3 (OtherL3 t) \<longleftrightarrow> t \<notin> {0x0800, 0x86DD}"

definition wf_frame :: "frame \<Rightarrow> bool" where
  "wf_frame f \<longleftrightarrow> length (dst_mac f) = 6 \<and> length (src_mac f) = 6 \<and> wf_l3 (net f) \<and>
     (vlan_tci f = None \<longrightarrow> ethertype_of (net f) \<noteq> 0x8100)"

subsection \<open>What the programs should make of them\<close>

fun shown_l4 :: "transport \<Rightarrow> out_line list" where
  "shown_l4 (Udp s d) = [OutUdp s d]"
| "shown_l4 (Tcp s d sq ak fl) = [OutTcp s d sq ak fl]"
| "shown_l4 (Icmp t c) = [OutIcmp t c]"
| "shown_l4 (OtherL4 p) = []"

text \<open>Over IPv6 the decoder shows the ports only, and no ICMP.\<close>

fun shown_l4_6 :: "transport \<Rightarrow> out_line list" where
  "shown_l4_6 (Udp s d) = [OutUdp6 s d]"
| "shown_l4_6 (Tcp s d sq ak fl) = [OutTcp6 s d]"
| "shown_l4_6 l4 = []"

fun shown_l3 :: "network \<Rightarrow> out_line list" where
  "shown_l3 (V4 a b fixed opts l4) = OutIPv4 (map ucast a) (map ucast b) # shown_l4 l4"
| "shown_l3 (V6 a b fixed l4) = OutIPv6 a b # shown_l4_6 l4"
| "shown_l3 (OtherL3 t) = []"

definition shown_frame :: "frame \<Rightarrow> out_line list" where
  "shown_frame f =
     OutEthernet (src_mac f) (dst_mac f) #
     (case vlan_tci f of None \<Rightarrow> [] | Some tci \<Rightarrow> [OutVlan tci]) @ shown_l3 (net f)"

fun control_l4 :: "transport \<Rightarrow> bool" where
  "control_l4 (Udp s d) \<longleftrightarrow> d \<in> {53, 67, 68, 123, 161}"
| "control_l4 (Tcp s d sq ak fl) \<longleftrightarrow> d \<in> {22, 53, 179, 389}"
| "control_l4 (Icmp t c) \<longleftrightarrow> True"
| "control_l4 (OtherL4 p) \<longleftrightarrow> p = 89"

fun control_l3 :: "network \<Rightarrow> bool" where
  "control_l3 (V4 a b fixed opts l4) \<longleftrightarrow> control_l4 l4" | "control_l3 n \<longleftrightarrow> False"

subsection \<open>Bytes at an offset\<close>

definition holds :: "buffer \<Rightarrow> nat \<Rightarrow> u8 list \<Rightarrow> bool" where
  "holds b off xs \<longleftrightarrow> (\<forall>i<length xs. b (off + i) = xs ! i)"

lemma holds_Nil [simp]: "holds b off []"
  by (simp add: holds_def)

lemma holds_Cons [simp]: "holds b off (x # xs) \<longleftrightarrow> b off = x \<and> holds b (Suc off) xs"
  by (simp add: holds_def All_less_Suc2)

lemma holds_append [simp]: "holds b off (xs @ ys) \<longleftrightarrow> holds b off xs \<and> holds b (off + length xs) ys"
  by (induction xs arbitrary: off) simp_all

lemma holds_nth: "holds b off xs \<Longrightarrow> i < length xs \<Longrightarrow> b (off + i) = xs ! i"
  by (simp add: holds_def)

lemma holds_read: "holds b off xs \<Longrightarrow> n = length xs \<Longrightarrow> read_bytes b off n = xs"
  by (auto simp: holds_def read_bytes_def intro: nth_equalityI)

lemma be16_wire: "be16 (ucast (drop_bit 8 v)) (ucast v) = v"
  by (simp add: be16_def bytes)

lemma be32_wire: "be32 (ucast (drop_bit 24 v)) (ucast (drop_bit 16 v)) (ucast (drop_bit 8 v)) (ucast v) = v"
  by (simp add: be32_def bytes)

lemma dotted_bytes: "dotted_raw (le32 a b c d) = [ucast a, ucast b, ucast c, ucast d]"
proof -
  have ff: "(0xFF :: u32) = mask 8" by (simp add: mask_eq_exp_minus_1)
  show ?thesis
    unfolding dotted_raw_def list.inject ff
    by (intro conjI refl; rule bit_word_eqI) (auto simp: le32_def bit_simps dest: bit_u8_less)
qed

lemma dotted_holds:
  assumes "holds b off xs" and "length xs = 4"
  shows "dotted_raw (load32 b off) = map ucast xs"
proof -
  obtain x y z u where "xs = [x, y, z, u]" using assms(2) by (auto simp: numeral_eq_Suc length_Suc_conv)
  then show ?thesis using assms(1) by (simp add: load32_def dotted_bytes eval_nat_numeral)
qed

lemma ihl_encoded:
  assumes "k \<le> 10"
  shows "ihl_bytes (0x45 + of_nat k) = 20 + 4 * k"
proof -
  have "k = 0 \<or> k = 1 \<or> k = 2 \<or> k = 3 \<or> k = 4 \<or> k = 5 \<or> k = 6 \<or> k = 7 \<or> k = 8 \<or> k = 9 \<or> k = 10"
    using assms by arith
  then show ?thesis by (auto simp: ihl_bytes_def)
qed

context byteorder_ok begin

lemma udp_fields:
  assumes "holds b l (encode_l4 (Udp s d))"
  shows "be_to_cpu_16 bo (load16 b l) = s" and "be_to_cpu_16 bo (load16 b (l + 2)) = d"
  using holds_nth[OF assms, of 0] holds_nth[OF assms, of 1] holds_nth[OF assms, of 2] holds_nth[OF assms, of 3]
  by (simp_all add: wire16_def be16_wire numeral_3_eq_3)

lemma tcp_fields:
  assumes "holds b l (encode_l4 (Tcp s d sq ak fl))"
  shows "be_to_cpu_16 bo (load16 b l) = s" and "be_to_cpu_16 bo (load16 b (l + 2)) = d"
    and "be_to_cpu_32 bo (load32 b (l + 4)) = sq" and "be_to_cpu_32 bo (load32 b (l + 8)) = ak"
    and "b (l + 13) = fl"
proof -
  note nth = holds_nth[OF assms]
  show "be_to_cpu_16 bo (load16 b l) = s" and "be_to_cpu_16 bo (load16 b (l + 2)) = d"
    using nth[of 0] nth[of 1] nth[of 2] nth[of 3] by (simp_all add: wire16_def wire32_def be16_wire numeral_3_eq_3)
  show "be_to_cpu_32 bo (load32 b (l + 4)) = sq"
    using nth[of 4] nth[of 5] nth[of 6] nth[of 7] by (simp add: wire16_def wire32_def be32_wire ac_simps)
  show "be_to_cpu_32 bo (load32 b (l + 8)) = ak"
    using nth[of 8] nth[of 9] nth[of 10] nth[of 11] by (simp add: wire16_def wire32_def be32_wire ac_simps)
  show "b (l + 13) = fl" using nth[of 13] by (simp add: wire16_def wire32_def)
qed

lemma icmp_fields: "holds b l (encode_l4 (Icmp t c)) \<Longrightarrow> b l = t \<and> b (l + 1) = c"
  by simp

end

subsection \<open>The decoder\<close>

lemma encoded_v4:
  assumes "wf_l3 (V4 x y fixed opts l4)" and "holds b off (encode_l3 (V4 x y fixed opts l4))"
  shows "ihl_bytes (b off) = 20 + length opts" and "b (off + 9) = proto_of l4"
    and "holds b (off + ihl_bytes (b off)) (encode_l4 l4)"
    and "dotted_raw (load32 b (off + 12)) = map ucast x" and "dotted_raw (load32 b (off + 16)) = map ucast y"
proof -
  obtain k where k: "k \<le> 10" "length opts = 4 * k" using assms(1) by auto
  show ihl: "ihl_bytes (b off) = 20 + length opts" using assms(2) k ihl_encoded[OF k(1)] by simp
  have len: "length x = 4" "length y = 4" "length fixed = 8" using assms(1) by auto
  have offs: "Suc off + 8 = off + 9" "Suc (Suc (Suc (off + 9))) = off + 12" "off + 12 + 4 = off + 16"
    "off + 16 + 4 = off + 20" "off + 20 + n = off + (20 + n)" for n by simp_all
  have parts: "b (off + 9) = proto_of l4 \<and> holds b (off + 12) x \<and> holds b (off + 16) y \<and>
      holds b (off + (20 + length opts)) (encode_l4 l4)"
    using assms(2)
    by (simp only: encode_l3.simps holds_append holds_Cons holds_Nil append_Cons append_Nil len offs simp_thms)
  then show "b (off + 9) = proto_of l4" and "holds b (off + ihl_bytes (b off)) (encode_l4 l4)"
    and "dotted_raw (load32 b (off + 12)) = map ucast x" and "dotted_raw (load32 b (off + 16)) = map ucast y"
    using dotted_holds len by (auto simp only: ihl)
qed

lemma encoded_v6:
  assumes "wf_l3 (V6 x y fixed l4)" and "holds b off (encode_l3 (V6 x y fixed l4))"
  shows "b (off + 6) = proto_of l4" and "holds b (off + IPV6_LEN) (encode_l4 l4)"
    and "read_bytes b (off + 8) 16 = x" and "read_bytes b (off + 24) 16 = y"
proof -
  have len: "length x = 16" "length y = 16" "length fixed = 6" using assms(1) by auto
  have offs: "Suc (Suc (off + 6)) = off + 8" "off + 8 + 16 = off + 24" "off + 24 + 16 = off + 40" by simp_all
  have parts: "b (off + 6) = proto_of l4 \<and> holds b (off + 8) x \<and> holds b (off + 24) y \<and>
      holds b (off + 40) (encode_l4 l4)"
    using assms(2)
    by (simp only: encode_l3.simps holds_append holds_Cons holds_Nil append_Cons append_Nil len offs simp_thms)
  then show "b (off + 6) = proto_of l4" and "holds b (off + IPV6_LEN) (encode_l4 l4)"
    and "read_bytes b (off + 8) 16 = x" and "read_bytes b (off + 24) 16 = y"
    using holds_read[of b "off + 8" x 16] holds_read[of b "off + 24" y 16] len by (auto simp only: IPV6_LEN_def)
qed

lemma parse_ipv4_encoded:
  assumes "byteorder_ok bo" and "wf_l3 (V4 x y fixed opts l4)"
    and "holds b off (encode_l3 (V4 x y fixed opts l4))"
  shows "parse_ipv4 bo b off = shown_l3 (V4 x y fixed opts l4)"
proof -
  note v4 = encoded_v4[OF assms(2,3)]
  obtain l where l: "off + ihl_bytes (b off) = l" by simp
  have l4: "holds b l (encode_l4 l4)" using v4(3) by (simp only: l)
  have wf: "wf_l4 l4" using assms(2) by simp
  show ?thesis
    using l4 wf byteorder_ok.udp_fields[OF assms(1), of b l] byteorder_ok.tcp_fields[OF assms(1), of b l]
      byteorder_ok.icmp_fields[OF assms(1), of b l]
    by (cases l4) (simp_all add: parse_ipv4_def Let_def l v4(2,4,5) proto_consts del: encode_l4.simps)
qed

lemma parse_ipv6_encoded:
  assumes "byteorder_ok bo" and "wf_l3 (V6 x y fixed l4)" and "holds b off (encode_l3 (V6 x y fixed l4))"
  shows "parse_ipv6 bo b off = shown_l3 (V6 x y fixed l4)"
proof -
  note v6 = encoded_v6[OF assms(2,3)]
  obtain l where l: "off + IPV6_LEN = l" by simp
  have l4: "holds b l (encode_l4 l4)" using v6(2) by (simp only: l)
  have wf: "wf_l4 l4" using assms(2) by simp
  show ?thesis
    using l4 wf byteorder_ok.udp_fields[OF assms(1), of b l] byteorder_ok.tcp_fields[OF assms(1), of b l]
    by (cases l4) (simp_all add: parse_ipv6_def Let_def l v6(1,3,4) proto_consts del: encode_l4.simps)
qed

lemma encoded_eth:
  assumes "byteorder_ok bo" and "wf_frame f" and "holds b 0 (encode f)"
  shows "read_bytes b 0 6 = dst_mac f" and "read_bytes b 6 6 = src_mac f"
    and "vlan_tci f = None \<Longrightarrow>
      be_to_cpu_16 bo (load16 b 12) = ethertype_of (net f) \<and> holds b 14 (encode_l3 (net f))"
    and "vlan_tci f = Some tci \<Longrightarrow>
      be_to_cpu_16 bo (load16 b 12) = 0x8100 \<and> be_to_cpu_16 bo (load16 b 14) = tci \<and>
      be_to_cpu_16 bo (load16 b 16) = ethertype_of (net f) \<and> holds b 18 (encode_l3 (net f))"
proof -
  note be = byteorder_ok.be_to_cpu_16_load[OF assms(1)]
  have len: "length (dst_mac f) = 6" "length (src_mac f) = 6" using assms(2) by (simp_all add: wf_frame_def)
  have macs: "holds b 0 (dst_mac f)" "holds b 6 (src_mac f)"
    using assms(3) len by (simp_all add: encode_def)
  show "read_bytes b 0 6 = dst_mac f" and "read_bytes b 6 6 = src_mac f"
    using macs len holds_read[where n = 6] by auto
  have tag: "be16 (ucast (drop_bit 8 (0x8100 :: u16))) (ucast (0x8100 :: u16)) = 0x8100" by (rule be16_wire)
  show "be_to_cpu_16 bo (load16 b 12) = ethertype_of (net f) \<and> holds b 14 (encode_l3 (net f))"
    if "vlan_tci f = None"
    using assms(3) len that by (simp add: encode_def wire16_def be be16_wire)
  show "be_to_cpu_16 bo (load16 b 12) = 0x8100 \<and> be_to_cpu_16 bo (load16 b 14) = tci \<and>
      be_to_cpu_16 bo (load16 b 16) = ethertype_of (net f) \<and> holds b 18 (encode_l3 (net f))"
    if "vlan_tci f = Some tci"
    using assms(3) len that by (simp add: encode_def wire16_def be be16_wire tag[simplified])
qed

lemma parse_l3_encoded:
  assumes "byteorder_ok bo" and "wf_l3 n" and "holds b off (encode_l3 n)"
  shows "(if ethertype_of n = RTE_ETHER_TYPE_IPV4 then parse_ipv4 bo b off
          else if ethertype_of n = RTE_ETHER_TYPE_IPV6 then parse_ipv6 bo b off else []) = shown_l3 n"
proof (cases n)
  case (V4 a c fixed opts l4)
  then show ?thesis using parse_ipv4_encoded[OF assms(1)] assms by (simp add: ether_consts del: encode_l3.simps wf_l3.simps)
next
  case (V6 a c fixed l4)
  then show ?thesis using parse_ipv6_encoded[OF assms(1)] assms by (simp add: ether_consts del: encode_l3.simps wf_l3.simps)
next
  case (OtherL3 t)
  then show ?thesis using assms(2) by (simp add: ether_consts)
qed

lemma parse_encoded:
  assumes "byteorder_ok bo" and "wf_frame f" and "holds b 0 (encode f)"
  shows "parse_packet bo b = shown_frame f"
proof (cases "vlan_tci f")
  case None
  have t: "ethertype_of (net f) \<noteq> 0x8100" using assms(2) None by (simp add: wf_frame_def)
  have l3: "wf_l3 (net f)" using assms(2) by (simp add: wf_frame_def)
  have e: "be_to_cpu_16 bo (load16 b 12) = ethertype_of (net f)" "holds b 14 (encode_l3 (net f))"
    using encoded_eth(3)[OF assms None] by simp_all
  show ?thesis
    using t parse_l3_encoded[OF assms(1) l3 e(2)]
    by (simp add: parse_packet_def shown_frame_def ether_type_def None e(1) encoded_eth(1,2)[OF assms] Let_def
        header_lens ether_consts split: if_splits)
next
  case (Some tci)
  have l3: "wf_l3 (net f)" using assms(2) by (simp add: wf_frame_def)
  have e: "be_to_cpu_16 bo (load16 b 12) = 0x8100" "be_to_cpu_16 bo (load16 b 14) = tci"
    "be_to_cpu_16 bo (load16 b 16) = ethertype_of (net f)" "holds b 18 (encode_l3 (net f))"
    using encoded_eth(4)[OF assms Some] by simp_all
  show ?thesis
    using parse_l3_encoded[OF assms(1) l3 e(4)]
    by (simp add: parse_packet_def shown_frame_def ether_type_def Some e(1-3) encoded_eth(1,2)[OF assms] Let_def
        header_lens ether_consts split: if_splits)
qed

subsection \<open>The classifier\<close>

lemma classify_l3_encoded:
  assumes "byteorder_ok bo" and "wf_l3 n" and "holds (bytes m) off (encode_l3 n)"
    and "off + length (encode_l3 n) \<le> data_len m"
  shows "classify_l3 bo m (ethertype_of n) off \<longleftrightarrow> control_l3 n"
proof (cases n)
  case (V4 x y fixed opts l4)
  have h: "holds (bytes m) off (encode_l3 (V4 x y fixed opts l4))" and wf3: "wf_l3 (V4 x y fixed opts l4)"
    using assms(2,3) V4 by simp_all
  note v4 = encoded_v4[OF wf3 h]
  obtain l where l: "off + ihl_bytes (bytes m off) = l" by simp
  have l4: "holds (bytes m) l (encode_l4 l4)" using v4(3) by (simp only: l)
  have wf: "wf_l4 l4" "length x = 4" "length y = 4" "length fixed = 8" using wf3 by auto
  have len: "off + IPV4_LEN \<le> data_len m" "l + length (encode_l4 l4) \<le> data_len m"
    using assms(4) V4 wf(2-4) v4(1) l by (simp_all add: IPV4_LEN_def)
  show ?thesis
    using l4 wf(1) len byteorder_ok.udp_fields(2)[OF assms(1), of "bytes m" l]
      byteorder_ok.tcp_fields(2)[OF assms(1), of "bytes m" l]
    by (cases l4) (auto simp: V4 classify_l3_def Let_def l v4(2) proto_consts ether_consts UDP_LEN_def TCP_LEN_def
        is_control_udp_port_def is_control_tcp_port_def wire16_def wire32_def simp del: holds_append holds_Cons)
next
  case (V6 a c fixed l4)
  then show ?thesis by (simp add: classify_l3_def ether_consts)
next
  case (OtherL3 t)
  then show ?thesis using assms(2) by (simp add: classify_l3_def ether_consts)
qed

lemma classify_encoded:
  assumes "byteorder_ok bo" and "wf_frame f" and "holds (bytes m) 0 (encode f)" and "length (encode f) \<le> data_len m"
  shows "classify_packet bo m \<longleftrightarrow> control_l3 (net f)"
proof (cases "vlan_tci f")
  case None
  have wf: "wf_l3 (net f)" "ethertype_of (net f) \<noteq> 0x8100" "length (dst_mac f) = 6" "length (src_mac f) = 6"
    using assms(2) None by (simp_all add: wf_frame_def)
  have e: "be_to_cpu_16 bo (load16 (bytes m) 12) = ethertype_of (net f)" "holds (bytes m) 14 (encode_l3 (net f))"
    using encoded_eth(3)[OF assms(1-3) None] by simp_all
  have len: "14 + length (encode_l3 (net f)) \<le> data_len m"
    using assms(4) wf by (simp add: encode_def None wire16_def)
  show ?thesis
    using classify_l3_encoded[OF assms(1) wf(1) e(2) len] wf(2) len
    by (simp add: classify_packet_def ether_type_def e(1) Let_def header_lens ether_consts)
next
  case (Some tci)
  have wf: "wf_l3 (net f)" "length (dst_mac f) = 6" "length (src_mac f) = 6"
    using assms(2) by (simp_all add: wf_frame_def)
  have e: "be_to_cpu_16 bo (load16 (bytes m) 12) = 0x8100"
    "be_to_cpu_16 bo (load16 (bytes m) 16) = ethertype_of (net f)" "holds (bytes m) 18 (encode_l3 (net f))"
    using encoded_eth(4)[OF assms(1-3) Some] by simp_all
  have len: "18 + length (encode_l3 (net f)) \<le> data_len m"
    using assms(4) wf by (simp add: encode_def Some wire16_def)
  show ?thesis
    using classify_l3_encoded[OF assms(1) wf(1) e(3) len] len
    by (simp add: classify_packet_def ether_type_def e(1,2) Let_def header_lens ether_consts)
qed


text \<open>A tagged DNS query over TCP, with one word of options.\<close>

definition tagged_query :: frame where
  "tagged_query = \<lparr>dst_mac = [0, 0, 0, 0, 0, 1], src_mac = [0, 0, 0, 0, 0, 2], vlan_tci = Some 0x2005,
     net = V4 [10, 0, 0, 1] [10, 0, 0, 2] [0, 0, 44, 0, 0, 0, 0, 64] [1, 1, 1, 0] (Tcp 49152 53 7 9 0x18)\<rparr>"

definition packet_of_frame :: "frame \<Rightarrow> packet" where
  "packet_of_frame f = \<lparr>bytes = buffer_of (encode f), data_len = length (encode f), pkt_len = length (encode f)\<rparr>"

lemma holds_buffer_of: "holds (buffer_of xs) 0 xs"
  by (simp add: holds_def buffer_of_def)


end
