(* ===== verification/VhostLink.thy ===== *)
theory VhostLink
  imports Frontend Processes "HOL-Library.Sublist"
begin

text \<open>
  The two processes of \<open>inter_process_comm/virtu_vhost_ipc\<close> on one link: the frontend, which sends
  greetings and frees what comes back (theory Frontend), and the echoing backend
  (\<open>vhost_backend_pass\<close> of theory EchoApps). The link is the documented behaviour of a virtio
  port and its vhost peer: what one side transmits the other receives, in order, through a queue
  of bounded size in each direction. The processes run concurrently, so a step is one call of one
  of them into its driver, with what the process does up to its next call.
\<close>

subsection \<open>The link\<close>

record pipe =
  items :: "packet list"
  cap :: nat
  taken :: "packet list"                  \<comment> \<open>what has been received from it so far\<close>

definition pipe_put :: "packet list \<Rightarrow> pipe \<Rightarrow> nat \<times> pipe" where
  "pipe_put ps p = (let k = min (length ps) (cap p - length (items p)) in (k, p\<lparr>items := items p @ take k ps\<rparr>))"

definition pipe_get :: "nat \<Rightarrow> pipe \<Rightarrow> packet list \<times> pipe" where
  "pipe_get n p = (take n (items p), p\<lparr>items := drop n (items p), taken := taken p @ take n (items p)\<rparr>)"

record vlink =
  up :: pipe                              \<comment> \<open>from the frontend to the backend\<close>
  down :: pipe
  fresh :: nat                            \<comment> \<open>addresses for received buffers\<close>

definition front_port :: "vlink ethdev" where
  "front_port =
     \<lparr>rx_burst = (\<lambda>port q n l. case pipe_get n (down l) of (ps, p) \<Rightarrow>
        (zip [fresh l..<fresh l + length ps] ps, l\<lparr>down := p, fresh := fresh l + length ps\<rparr>)),
      tx_burst = (\<lambda>port q ms l. case pipe_put (map snd ms) (up l) of (k, p) \<Rightarrow> (k, l\<lparr>up := p\<rparr>))\<rparr>"

definition back_port :: "vlink ethdev" where
  "back_port =
     \<lparr>rx_burst = (\<lambda>port q n l. case pipe_get n (up l) of (ps, p) \<Rightarrow>
        (zip [fresh l..<fresh l + length ps] ps, l\<lparr>up := p, fresh := fresh l + length ps\<rparr>)),
      tx_burst = (\<lambda>port q ms l. case pipe_put (map snd ms) (down l) of (k, p) \<Rightarrow> (k, l\<lparr>down := p\<rparr>))\<rparr>"

interpretation front_port: ethdev_ok front_port
  by unfold_locales (simp_all add: front_port_def pipe_get_def pipe_put_def Let_def)

interpretation back_port: ethdev_ok back_port
  by unfold_locales (simp_all add: back_port_def pipe_get_def pipe_put_def Let_def)

subsection \<open>The calls of the two processes\<close>

definition frontend_offer :: "'n ethdev \<Rightarrow> mbuf \<Rightarrow> ('n, 'z) world_scheme \<Rightarrow> ('n, 'z) world_scheme" where
  "frontend_offer nd m w =
     snd (eth_tx nd 0 0 [m] (w\<lparr>got := got w @ [m], mem := (mem w)(m := hello_packet (mem w m))\<rparr>))"

definition frontend_collect :: "'n ethdev \<Rightarrow> ('n, 'z) world_scheme \<Rightarrow> ('n, 'z) world_scheme" where
  "frontend_collect nd w = (case eth_rx nd 0 0 32 w of (rx, w) \<Rightarrow> free_all rx w)"

definition backend_fetch ::
    "'n ethdev \<Rightarrow> ('n, 'z) world_scheme \<Rightarrow> mbuf list option \<times> ('n, 'z) world_scheme" where
  "backend_fetch nd w =
     (case eth_rx nd 0 0 32 w of (pkts, w) \<Rightarrow> (if pkts \<noteq> [] then Some pkts else None, w))"

definition backend_echo :: "'n ethdev \<Rightarrow> mbuf list \<Rightarrow> ('n, 'z) world_scheme \<Rightarrow> ('n, 'z) world_scheme" where
  "backend_echo nd pkts w = snd (eth_tx nd 0 0 pkts w)"

text \<open>The calls one after the other are the passes of the two programs.\<close>

lemma frontend_exchange_calls: "frontend_exchange nd m w = frontend_collect nd (frontend_offer nd m w)"
  by (simp add: frontend_exchange_def frontend_collect_def frontend_offer_def)

lemma vhost_backend_calls:
  "vhost_backend_pass nd w =
     (case backend_fetch nd w of (None, w) \<Rightarrow> w | (Some pkts, w) \<Rightarrow> backend_echo nd pkts w)"
  by (simp add: vhost_backend_pass_def backend_fetch_def backend_echo_def case_prod_beta)

datatype side = Front | Back

record 'p duo =
  front :: "vlink world"
  collecting :: bool                      \<comment> \<open>the frontend's next call: receive, or else allocate and transmit\<close>
  pool :: 'p
  faulted :: bool                         \<comment> \<open>it wrote through a null buffer\<close>
  echoer :: "vlink world"
  held :: "mbuf list option"              \<comment> \<open>what the backend is about to transmit\<close>
  link :: vlink

definition front_step :: "('p \<Rightarrow> mbuf option \<times> 'p) \<Rightarrow> 'p duo \<Rightarrow> 'p duo" where
  "front_step alloc s =
     (if faulted s then s
      else if collecting s then
        (let w = frontend_collect front_port ((front s)\<lparr>nic := link s\<rparr>)
         in s\<lparr>front := w, link := nic w, collecting := False\<rparr>)
      else
        (case alloc (pool s) of
           (None, p) \<Rightarrow> s\<lparr>pool := p, faulted := True\<rparr>
         | (Some m, p) \<Rightarrow>
             (let w = frontend_offer front_port m ((front s)\<lparr>nic := link s\<rparr>)
              in s\<lparr>front := w, link := nic w, collecting := True, pool := p\<rparr>)))"

definition back_step :: "'p duo \<Rightarrow> 'p duo" where
  "back_step s =
     (case held s of
        None \<Rightarrow> (case backend_fetch back_port ((echoer s)\<lparr>nic := link s\<rparr>) of (h, w) \<Rightarrow>
                   s\<lparr>echoer := w, link := nic w, held := h\<rparr>)
      | Some pkts \<Rightarrow>
          (let w = backend_echo back_port pkts ((echoer s)\<lparr>nic := link s\<rparr>)
           in s\<lparr>echoer := w, link := nic w, held := None\<rparr>))"

fun duo_step :: "('p \<Rightarrow> mbuf option \<times> 'p) \<Rightarrow> side \<Rightarrow> 'p duo \<Rightarrow> 'p duo" where
  "duo_step alloc Front s = front_step alloc s"
| "duo_step alloc Back s = back_step s"

subsection \<open>What each call changes\<close>

definition contents :: "('n, 'z) world_scheme \<Rightarrow> packet list" where
  "contents w = map (\<lambda>(p, q, m, c). c) (sent w)"

definition holding :: "'p duo \<Rightarrow> packet list" where
  "holding s = (case held s of None \<Rightarrow> [] | Some pkts \<Rightarrow> map (mem (echoer s)) pkts)"

definition greets :: "packet \<Rightarrow> bool" where
  "greets c \<longleftrightarrow> greeting (0, 0, 0, c)"

definition room :: "pipe \<Rightarrow> nat" where
  "room p = cap p - length (items p)"

lemma greets_hello: "greets (hello_packet c)"
  by (simp add: greets_def hello_packet_greets)

lemma collect_effect:
  assumes "\<not> faulted s" and "collecting s"
  shows "link (front_step alloc s) = (link s)\<lparr>down := snd (pipe_get 32 (down (link s))),
      fresh := fresh (link s) + length (fst (pipe_get 32 (down (link s))))\<rparr>"
    and "contents (front (front_step alloc s)) = contents (front s)"
    and "length (freed (front (front_step alloc s))) =
      length (freed (front s)) + length (fst (pipe_get 32 (down (link s))))"
    and "\<not> faulted (front_step alloc s)" and "\<not> collecting (front_step alloc s)"
    and "echoer (front_step alloc s) = echoer s" and "held (front_step alloc s) = held s"
  using assms
  by (simp_all add: front_step_def frontend_collect_def eth_rx_def front_port_def contents_def case_prod_beta frame Let_def
      pipe_get_def)

lemma offer_effect:
  assumes "\<not> faulted s" and "\<not> collecting s" and "alloc (pool s) = (Some m, p)"
  shows "\<exists>c. greets c \<and> link (front_step alloc s) = (link s)\<lparr>up := snd (pipe_put [c] (up (link s)))\<rparr> \<and>
      contents (front (front_step alloc s)) = contents (front s) @ take (room (up (link s))) [c]"
    and "freed (front (front_step alloc s)) = freed (front s)"
    and "\<not> faulted (front_step alloc s)" and "collecting (front_step alloc s)"
    and "echoer (front_step alloc s) = echoer s" and "held (front_step alloc s) = held s"
  using assms
  by (auto simp: front_step_def frontend_offer_def eth_tx_def front_port_def contents_def case_prod_beta Let_def
      pipe_put_def room_def min_def take_Cons' intro!: exI[of _ "hello_packet (mem (front s) m)"] greets_hello)

lemma fetch_effect:
  assumes "held s = None"
  shows "link (back_step s) = (link s)\<lparr>up := snd (pipe_get 32 (up (link s))),
      fresh := fresh (link s) + length (fst (pipe_get 32 (up (link s))))\<rparr>"
    and "contents (echoer (back_step s)) = contents (echoer s)"
    and "holding (back_step s) = fst (pipe_get 32 (up (link s)))"
    and "front (back_step s) = front s" and "faulted (back_step s) = faulted s"
    and "collecting (back_step s) = collecting s"
    and "held (back_step s) = None \<longleftrightarrow> items (up (link s)) = []"
proof -
  let ?ps = "take 32 (items (up (link s)))" and ?n = "fresh (link s)"
  have "map (fold (\<lambda>(m, p) f. f(m := p)) (zip [?n..<?n + length ?ps] ?ps) g) [?n..<?n + length ?ps] = ?ps" for g
    by (rule stored_read) simp_all
  then show "holding (back_step s) = fst (pipe_get 32 (up (link s)))"
    using assms by (simp add: holding_def back_step_def backend_fetch_def eth_rx_def back_port_def case_prod_beta Let_def
        pipe_get_def)
qed (use assms in \<open>simp_all add: back_step_def backend_fetch_def eth_rx_def back_port_def contents_def case_prod_beta Let_def
    pipe_get_def\<close>)

lemma echo_effect:
  assumes "held s = Some pkts"
  shows "link (back_step s) = (link s)\<lparr>down := snd (pipe_put (holding s) (down (link s)))\<rparr>"
    and "contents (echoer (back_step s)) = contents (echoer s) @ take (room (down (link s))) (holding s)"
    and "held (back_step s) = None"
    and "front (back_step s) = front s" and "faulted (back_step s) = faulted s"
    and "collecting (back_step s) = collecting s"
  using assms
  by (simp_all add: back_step_def backend_echo_def eth_tx_def back_port_def contents_def case_prod_beta Let_def
      pipe_put_def holding_def room_def comp_def min_def take_map)

subsection \<open>Order, contents and losses\<close>

text \<open>
  \<open>frees\<close>: the number of buffers the frontend had freed when the link came up. The backend may lose
  what the queue down has no room for, so what it sends is a subsequence of what it received;
  \<open>roomy\<close>: the queue down is so long that this cannot happen.
\<close>

definition duo_ok :: "nat \<Rightarrow> 'p duo \<Rightarrow> bool" where
  "duo_ok frees s \<longleftrightarrow>
     contents (front s) = taken (up (link s)) @ items (up (link s)) \<and>
     contents (echoer s) = taken (down (link s)) @ items (down (link s)) \<and>
     subseq (contents (echoer s) @ holding s) (taken (up (link s))) \<and>
     list_all greets (contents (front s)) \<and>
     length (items (up (link s))) \<le> cap (up (link s)) \<and>
     length (items (down (link s))) \<le> cap (down (link s)) \<and>
     length (holding s) \<le> 32 \<and> (held s \<noteq> None \<longrightarrow> holding s \<noteq> []) \<and>
     length (freed (front s)) = frees + length (taken (down (link s)))"

definition in_flight :: "'p duo \<Rightarrow> nat" where
  "in_flight s = length (items (up (link s))) + length (holding s) + length (items (down (link s)))"

definition roomy :: "'p duo \<Rightarrow> bool" where
  "roomy s \<longleftrightarrow> cap (up (link s)) + 33 \<le> cap (down (link s)) \<and>
     in_flight s \<le> cap (up (link s)) + 32 + (if collecting s then 1 else 0) \<and>
     contents (echoer s) @ holding s = taken (up (link s))"

lemma front_holding: "echoer t = echoer s \<Longrightarrow> held t = held s \<Longrightarrow> holding t = holding s"
  by (cases "held s") (simp_all add: holding_def)

lemma front_stuck:
  assumes "faulted s \<or> \<not> collecting s \<and> fst (alloc (pool s)) = None"
  shows "(duo_ok frees (front_step alloc s) \<longleftrightarrow> duo_ok frees s) \<and> (roomy (front_step alloc s) \<longleftrightarrow> roomy s)"
proof -
  have h: "holding (s\<lparr>pool := p, faulted := b\<rparr>) = holding s" for p b by (rule front_holding) simp_all
  show ?thesis
  proof (cases "faulted s")
    case False
    with assms obtain p where "front_step alloc s = s\<lparr>pool := p, faulted := True\<rparr>"
      by (cases "alloc (pool s)") (simp add: front_step_def)
    then show ?thesis by (simp add: duo_ok_def roomy_def in_flight_def h)
  qed (simp add: front_step_def)
qed

lemma front_step_ok:
  assumes "duo_ok frees s"
  shows "duo_ok frees (front_step alloc s)"
proof (cases "faulted s \<or> \<not> collecting s \<and> fst (alloc (pool s)) = None")
  case True
  then show ?thesis using assms front_stuck by blast
next
  case False
  show ?thesis
  proof (cases "collecting s")
    case True
    have nf: "\<not> faulted s" using False by simp
    note e = collect_effect[OF nf True, of alloc]
    have h: "holding (front_step alloc s) = holding s" by (rule front_holding[OF e(6,7)])
    show ?thesis
      using assms e by (auto simp: duo_ok_def h pipe_get_def)
  next
    case offering: False
    then obtain m p where nf: "\<not> faulted s" and m: "alloc (pool s) = (Some m, p)"
      using False by (cases "alloc (pool s)") auto
    note e = offer_effect[where alloc = alloc, OF nf offering, where m = m and p = p, OF m]
    obtain c where c: "greets c" "link (front_step alloc s) = (link s)\<lparr>up := snd (pipe_put [c] (up (link s)))\<rparr>"
      "contents (front (front_step alloc s)) = contents (front s) @ take (room (up (link s))) [c]"
      using e(1) by blast
    have h: "holding (front_step alloc s) = holding s" by (rule front_holding[OF e(5,6)])
    show ?thesis
      using assms e(2-) c by (cases "room (up (link s))") (auto simp: duo_ok_def h pipe_put_def room_def Let_def)
  qed
qed

lemma front_step_roomy:
  assumes "duo_ok frees s" and "roomy s"
  shows "roomy (front_step alloc s)"
proof (cases "faulted s \<or> \<not> collecting s \<and> fst (alloc (pool s)) = None")
  case True
  then show ?thesis using assms front_stuck by blast
next
  case False
  show ?thesis
  proof (cases "collecting s")
    case True
    have nf: "\<not> faulted s" using False by simp
    note e = collect_effect[OF nf True, of alloc]
    have h: "holding (front_step alloc s) = holding s" by (rule front_holding[OF e(6,7)])
    show ?thesis
      using assms e True by (auto simp: duo_ok_def roomy_def in_flight_def h pipe_get_def)
  next
    case offering: False
    then obtain m p where nf: "\<not> faulted s" and m: "alloc (pool s) = (Some m, p)"
      using False by (cases "alloc (pool s)") auto
    note e = offer_effect[where alloc = alloc, OF nf offering, where m = m and p = p, OF m]
    obtain c where c: "link (front_step alloc s) = (link s)\<lparr>up := snd (pipe_put [c] (up (link s)))\<rparr>"
      using e(1) by blast
    have h: "holding (front_step alloc s) = holding s" by (rule front_holding[OF e(5,6)])
    show ?thesis
      using assms e(2-) c offering
      by (auto simp: duo_ok_def roomy_def in_flight_def h pipe_put_def Let_def min_def)
  qed
qed

lemma back_step_ok:
  assumes "duo_ok frees s"
  shows "duo_ok frees (back_step s)"
proof (cases "held s")
  case None
  note e = fetch_effect[OF None]
  have h: "holding s = []" by (simp add: holding_def None)
  have "subseq (contents (echoer s)) (taken (up (link s)))"
    using assms unfolding duo_ok_def h append_Nil2 by blast
  then have sub: "subseq (contents (echoer (back_step s)) @ holding (back_step s)) (taken (up (link (back_step s))))"
    unfolding e(1-3) by (simp add: pipe_get_def list_emb_append_mono)
  show ?thesis
    unfolding duo_ok_def using assms e(1,2,4-)
    by (intro conjI sub) (auto simp: duo_ok_def e(3) pipe_get_def)
next
  case (Some pkts)
  note e = echo_effect[OF Some]
  have h: "holding (back_step s) = []" by (simp add: holding_def e(3))
  let ?sent = "take (room (down (link s))) (holding s)"
  have "subseq (contents (echoer s) @ ?sent) (contents (echoer s) @ holding s)"
    by (simp add: prefix_imp_subseq take_is_prefix)
  moreover have "subseq (contents (echoer s) @ holding s) (taken (up (link s)))"
    using assms unfolding duo_ok_def by blast
  ultimately have "subseq (contents (echoer s) @ ?sent) (taken (up (link s)))"
    by (rule subseq_order.order_trans)
  moreover have "snd (pipe_put (holding s) (down (link s))) = (down (link s))\<lparr>items := items (down (link s)) @ ?sent\<rparr>"
    by (simp add: pipe_put_def room_def Let_def min_def)
  ultimately show ?thesis
    using assms e h by (auto simp: duo_ok_def room_def)
qed

lemma back_step_roomy:
  assumes "duo_ok frees s" and "roomy s"
  shows "roomy (back_step s)"
proof (cases "held s")
  case None
  note e = fetch_effect[OF None]
  have "holding s = []" by (simp add: holding_def None)
  then show ?thesis
    using assms e by (auto simp: duo_ok_def roomy_def in_flight_def pipe_get_def)
next
  case (Some pkts)
  note e = echo_effect[OF Some]
  have h: "holding (back_step s) = []" by (simp add: holding_def e(3))
  have "length (holding s) \<le> room (down (link s))"
    using assms by (auto simp: roomy_def in_flight_def room_def split: if_splits)
  then have "take (room (down (link s))) (holding s) = holding s"
    "snd (pipe_put (holding s) (down (link s))) = (down (link s))\<lparr>items := items (down (link s)) @ holding s\<rparr>"
    by (simp_all add: pipe_put_def room_def Let_def min_def)
  then show ?thesis
    using assms e h by (auto simp: roomy_def in_flight_def)
qed

lemma duo_step_ok: "duo_ok frees s \<Longrightarrow> duo_ok frees (duo_step alloc p s)"
  by (cases p) (simp_all add: front_step_ok back_step_ok)

lemma duo_step_roomy: "duo_ok frees s \<and> roomy s \<Longrightarrow> duo_ok frees (duo_step alloc p s) \<and> roomy (duo_step alloc p s)"
  by (cases p) (auto intro: front_step_ok back_step_ok front_step_roomy back_step_roomy)

subsection \<open>Every greeting comes back\<close>

text \<open>
  For the greeting number \<open>j\<close>: what the backend has yet to receive and to send back, and the
  frontend to receive, up to it; one more while the frontend has to go through its other call.
\<close>

definition to_fetch :: "nat \<Rightarrow> 'p duo \<Rightarrow> nat" where "to_fetch j s = Suc j - length (taken (up (link s)))"
definition to_echo :: "nat \<Rightarrow> 'p duo \<Rightarrow> nat" where "to_echo j s = Suc j - length (contents (echoer s))"
definition to_collect :: "nat \<Rightarrow> 'p duo \<Rightarrow> nat" where "to_collect j s = Suc j - length (taken (down (link s)))"

definition duo_mu :: "nat \<Rightarrow> 'p duo \<Rightarrow> nat" where
  "duo_mu j s = 2 * (to_fetch j s + to_echo j s + to_collect j s) +
     (if to_echo j s = 0 \<and> \<not> collecting s then 1 else 0)"

definition duo_mover :: "nat \<Rightarrow> 'p duo \<Rightarrow> side" where
  "duo_mover j s = (if to_echo j s = 0 then Front else Back)"

definition duo_live :: "('p \<Rightarrow> mbuf option \<times> 'p) \<Rightarrow> nat \<Rightarrow> nat \<Rightarrow> 'p duo \<Rightarrow> bool" where
  "duo_live alloc frees j s \<longleftrightarrow> duo_ok frees s \<and> roomy s \<and> \<not> faulted s \<and>
     (\<forall>p. fst (alloc p) \<noteq> None) \<and> j < length (contents (front s))"

lemmas duo_measure = to_fetch_def to_echo_def to_collect_def

lemma front_keeps_live:
  assumes "duo_live alloc frees j s"
  shows "\<not> faulted (front_step alloc s) \<and> length (contents (front s)) \<le> length (contents (front (front_step alloc s))) \<and>
    to_fetch j (front_step alloc s) = to_fetch j s \<and> to_echo j (front_step alloc s) = to_echo j s \<and>
    to_collect j (front_step alloc s) =
      to_collect j s - (if collecting s then min 32 (length (items (down (link s)))) else 0) \<and>
    collecting (front_step alloc s) = (\<not> collecting s)"
proof (cases "collecting s")
  case True
  have nf: "\<not> faulted s" using assms by (simp add: duo_live_def)
  show ?thesis
    using collect_effect[OF nf True, of alloc] True by (simp add: duo_measure pipe_get_def min.commute)
next
  case False
  have nf: "\<not> faulted s" using assms by (simp add: duo_live_def)
  have "fst (alloc (pool s)) \<noteq> None" using assms unfolding duo_live_def by blast
  then obtain m p where m: "alloc (pool s) = (Some m, p)" by (cases "alloc (pool s)") auto
  note e = offer_effect[where alloc = alloc, OF nf False, where m = m and p = p, OF m]
  show ?thesis using e False by (auto simp: duo_measure pipe_put_def Let_def)
qed

lemma back_keeps_live:
  assumes "duo_live alloc frees j s"
  shows "faulted (back_step s) = faulted s \<and> front (back_step s) = front s \<and> collecting (back_step s) = collecting s \<and>
    to_collect j (back_step s) = to_collect j s \<and> to_fetch j (back_step s) \<le> to_fetch j s \<and>
    to_echo j (back_step s) \<le> to_echo j s \<and>
    (0 < to_echo j s \<longrightarrow> to_fetch j (back_step s) + to_echo j (back_step s) < to_fetch j s + to_echo j s)"
proof (cases "held s")
  case None
  have h: "holding s = []" by (simp add: holding_def None)
  have "contents (echoer s) = taken (up (link s))" and "contents (front s) = taken (up (link s)) @ items (up (link s))"
    and "j < length (contents (front s))"
    using assms h by (auto simp: duo_live_def duo_ok_def roomy_def)
  then show ?thesis
    using fetch_effect[OF None] by (auto simp: duo_measure pipe_get_def)
next
  case (Some pkts)
  note e = echo_effect[OF Some]
  have r: "length (holding s) \<le> room (down (link s))" "holding s \<noteq> []"
    using assms Some by (auto simp: duo_live_def duo_ok_def roomy_def in_flight_def room_def split: if_splits)
  then obtain c cs where "holding s = c # cs" by (cases "holding s") auto
  then show ?thesis
    using e r(1) by (auto simp: duo_measure pipe_put_def Let_def)
qed

lemma duo_live_step:
  assumes "duo_live alloc frees j s"
  shows "duo_live alloc frees j (duo_step alloc p s)"
proof (cases p)
  case Front
  then show ?thesis
    using assms front_keeps_live[OF assms] duo_step_roomy[of frees s alloc Front] by (auto simp: duo_live_def)
next
  case Back
  then show ?thesis
    using assms back_keeps_live[OF assms] duo_step_roomy[of frees s alloc Back] by (auto simp: duo_live_def)
qed

lemma nothing_to_echo:
  assumes "duo_live alloc frees j s" and "to_echo j s = 0" and "to_collect j s \<noteq> 0"
  shows "\<exists>d ds. items (down (link s)) = d # ds"
proof -
  have "length (contents (echoer s)) = length (taken (down (link s))) + length (items (down (link s)))"
    using assms(1) by (simp add: duo_live_def duo_ok_def)
  then show ?thesis using assms(2,3) by (cases "items (down (link s))") (simp_all add: duo_measure)
qed

interpretation duo: fair_progress "duo_step alloc" "duo_live alloc frees j" "\<lambda>s. to_collect j s = 0" "duo_mu j" "duo_mover j"
proof
  fix s p
  assume inv: "duo_live alloc frees j s"
  then show "duo_live alloc frees j (duo_step alloc p s)" by (rule duo_live_step)
  note f = front_keeps_live[OF inv] and b = back_keeps_live[OF inv]
  assume final: "to_collect j s \<noteq> 0"
  show "duo_mu j (duo_step alloc (duo_mover j s) s) < duo_mu j s"
  proof (cases "to_echo j s = 0")
    case True
    obtain d ds where "items (down (link s)) = d # ds" using nothing_to_echo[OF inv True final] by blast
    then show ?thesis using f final True by (auto simp: duo_mu_def duo_mover_def)
  next
    case False
    then show ?thesis using b by (auto simp: duo_mu_def duo_mover_def)
  qed
  show "duo_mu j (duo_step alloc p s) < duo_mu j s \<or>
      duo_mu j (duo_step alloc p s) = duo_mu j s \<and> duo_mover j (duo_step alloc p s) = duo_mover j s"
    if "p \<noteq> duo_mover j s"
  proof (cases p)
    case Front
    then show ?thesis using that f by (auto simp: duo_mu_def duo_mover_def split: if_splits)
  next
    case Back
    then show ?thesis using that b by (auto simp: duo_mu_def duo_mover_def split: if_splits)
  qed
qed

definition duo_start :: "nat \<Rightarrow> nat \<Rightarrow> 'p \<Rightarrow> 'p duo" where
  "duo_start up_cap down_cap p =
     (let l = \<lparr>up = \<lparr>items = [], cap = up_cap, taken = []\<rparr>, down = \<lparr>items = [], cap = down_cap, taken = []\<rparr>, fresh = 0\<rparr>
      in \<lparr>front = start_world l, collecting = False, pool = p, faulted = False, echoer = start_world l, held = None,
          link = l\<rparr>)"

lemma duo_start_ok: "duo_ok 0 (duo_start uc dc p)"
  by (simp add: duo_start_def duo_ok_def contents_def holding_def Let_def)

lemma duo_start_roomy: "uc + 33 \<le> dc \<Longrightarrow> roomy (duo_start uc dc p)"
  by (simp add: duo_start_def roomy_def in_flight_def contents_def holding_def Let_def)

lemma contents_grow: "prefix (contents (front s)) (contents (front (duo_step alloc p s)))"
proof (cases p)
  case Front
  show ?thesis
  proof (cases "faulted s \<or> \<not> collecting s \<and> fst (alloc (pool s)) = None")
    case True
    then show ?thesis using Front by (cases "alloc (pool s)") (auto simp: front_step_def)
  next
    case False
    show ?thesis
    proof (cases "collecting s")
      case True
      then show ?thesis using Front False collect_effect(2)[of s alloc] by simp
    next
      case offering: False
      then obtain m q where nf: "\<not> faulted s" and m: "alloc (pool s) = (Some m, q)"
        using False by (cases "alloc (pool s)") auto
      show ?thesis
        using offer_effect(1)[where alloc = alloc, OF nf offering, where m = m and p = q, OF m] Front by auto
    qed
  qed
next
  case Back
  then show ?thesis using fetch_effect(4)[of s] echo_effect(4)[of s] by (cases "held s") simp_all
qed

lemma contents_grow_run: "prefix (contents (front s)) (contents (front (sched_run (duo_step alloc) f s d)))"
proof (rule sched_run_keeps[where I = "\<lambda>t. prefix (contents (front s)) (contents (front t))"])
  show "prefix (contents (front s)) (contents (front (duo_step alloc p t)))"
    if "prefix (contents (front s)) (contents (front t))" for p t
    using that contents_grow by (rule prefix_order.order_trans)
qed simp

lemma duo_run_roomy:
  assumes "uc + 33 \<le> dc"
  shows "duo_ok 0 (sched_run (duo_step alloc) f (duo_start uc dc p) n) \<and>
    roomy (sched_run (duo_step alloc) f (duo_start uc dc p) n)"
proof (rule sched_run_keeps[where I = "\<lambda>s. duo_ok 0 s \<and> roomy s"])
  show "duo_ok 0 (duo_step alloc q s) \<and> roomy (duo_step alloc q s)" if "duo_ok 0 s \<and> roomy s" for q s
    using that by (rule duo_step_roomy)
  show "duo_ok 0 (duo_start uc dc p) \<and> roomy (duo_start uc dc p)"
    using duo_start_ok duo_start_roomy[OF assms] by (rule conjI)
qed

lemma no_fault:
  assumes "\<And>p. fst (alloc p) \<noteq> None" and "\<not> faulted s"
  shows "\<not> faulted (duo_step alloc p s)"
proof (cases p)
  case Front
  obtain m q where m: "alloc (pool s) = (Some m, q)"
    using assms(1)[of "pool s"] by (cases "alloc (pool s)") auto
  have "\<not> faulted (front_step alloc s)"
    using collect_effect(4)[OF assms(2)] offer_effect(3)[where alloc = alloc and m = m and p = q, OF assms(2) _ m]
    by (cases "collecting s") blast+
  then show ?thesis using Front by simp
next
  case Back
  then show ?thesis using assms(2) fetch_effect(5)[of s] echo_effect(5)[of s] by (cases "held s") simp_all
qed

lemma vhost_order:
  "let s = sched_run (duo_step alloc) f (duo_start up_cap down_cap p) n in
     list_all greets (contents (front s)) \<and>
     contents (front s) = taken (up (link s)) @ items (up (link s)) \<and>
     contents (echoer s) = taken (down (link s)) @ items (down (link s)) \<and>
     subseq (contents (echoer s) @ holding s) (taken (up (link s))) \<and>
     length (freed (front s)) = length (taken (down (link s))) \<and>
     (up_cap + 33 \<le> down_cap \<longrightarrow> contents (echoer s) @ holding s = taken (up (link s)))"
proof -
  let ?s = "sched_run (duo_step alloc) f (duo_start up_cap down_cap p) n"
  have ok: "duo_ok 0 ?s" by (rule sched_run_keeps[where I = "duo_ok 0"]) (auto intro: duo_step_ok duo_start_ok)
  have "contents (echoer ?s) @ holding ?s = taken (up (link ?s))" if "up_cap + 33 \<le> down_cap"
    using duo_run_roomy[OF that, of alloc f p n] by (simp add: roomy_def)
  moreover note ok[unfolded duo_ok_def add_0]
  ultimately show ?thesis unfolding Let_def by (elim conjE) (intro conjI impI; assumption)
qed

lemma vhost_live:
  assumes "\<And>p. fst (alloc p) \<noteq> None" and "fair f" and "up_cap + 33 \<le> down_cap"
    and "j < length (contents (front (sched_run (duo_step alloc) f (duo_start up_cap down_cap p) n)))"
  shows "\<exists>n'\<ge>n. let s = sched_run (duo_step alloc) f (duo_start up_cap down_cap p) n' in
    j < length (freed (front s)) \<and> j < length (taken (down (link s))) \<and>
    taken (down (link s)) ! j =
      contents (front (sched_run (duo_step alloc) f (duo_start up_cap down_cap p) n)) ! j"
proof -
  let ?s0 = "duo_start up_cap down_cap p"
  let ?run = "\<lambda>n. sched_run (duo_step alloc) f ?s0 n"
  have inv: "duo_ok 0 (?run k) \<and> roomy (?run k)" for k
    by (rule duo_run_roomy[OF assms(3)])
  have "\<not> faulted (?run n)"
  proof (rule sched_run_keeps[where I = "\<lambda>s. \<not> faulted s"])
    show "\<not> faulted (duo_step alloc p s)" if "\<not> faulted s" for p s
      by (rule no_fault[of alloc, OF assms(1) that])
  qed (simp add: duo_start_def Let_def)
  then have "duo_live alloc 0 j (?run n)"
    using inv assms(1,4) by (simp add: duo_live_def)
  from duo.reaches_final[OF fair_shift[OF assms(2)] this, of n] obtain d where
    d: "to_collect j (?run (n + d)) = 0" by (auto simp: sched_run_add)
  then have j: "j < length (taken (down (link (?run (n + d)))))" by (simp add: to_collect_def)
  have "prefix (contents (front (?run n))) (contents (front (?run (n + d))))"
    by (simp only: sched_run_add contents_grow_run)
  then have same: "contents (front (?run (n + d))) ! j = contents (front (?run n)) ! j"
    using assms(4) by (auto simp: prefix_def nth_append)
  have e: "j < length (freed (front s)) \<and> j < length (taken (down (link s))) \<and>
      taken (down (link s)) ! j = contents (front s) ! j"
    if "duo_ok 0 s" "roomy s" "j < length (taken (down (link s)))" for s :: "'a duo"
  proof -
    have "contents (front s) = taken (down (link s)) @ items (down (link s)) @ holding s @ items (up (link s))"
      using that(1,2) by (metis append.assoc duo_ok_def roomy_def)
    then show ?thesis using that(1,3) by (simp add: nth_append duo_ok_def)
  qed
  show ?thesis
    using e[OF _ _ j] inv[of "n + d"] unfolding same Let_def
    by (intro exI[of _ "n + d"]) (simp only: le_add1 simp_thms)
qed

text \<open>A pool without end, and the two processes taking turns.\<close>

definition endless :: "nat \<Rightarrow> mbuf option \<times> nat" where
  "endless n = (Some n, Suc n)"

definition in_turns :: "nat \<Rightarrow> side" where
  "in_turns n = (if even n then Front else Back)"

text \<open>
  With queues of the same length the backend does lose greetings: here it fetches a second one
  while the first still fills the queue back.
\<close>

definition crowded :: "side list" where
  "crowded = [Front, Back, Front, Front, Back, Back, Back]"

lemma vhost_link_loses:
  "let s = fold (duo_step endless) crowded (duo_start 1 1 0) in
     length (taken (up (link s))) = 2 \<and> length (contents (echoer s)) = 1 \<and> holding s = []"
  by (simp add: crowded_def duo_start_def front_step_def back_step_def endless_def frontend_offer_def frontend_collect_def
      backend_fetch_def backend_echo_def eth_tx_def eth_rx_def front_port_def back_port_def
      pipe_put_def pipe_get_def contents_def holding_def Let_def frame)


lemma in_turns_fair: "fair in_turns"
  unfolding fair_def
proof (intro allI)
  fix p :: side and n
  show "\<exists>m\<ge>n. in_turns m = p"
    by (rule exI[of _ "if even n = (p = Front) then n else Suc n"], cases p) (simp_all add: in_turns_def)
qed

lemma first_greeting: "length (contents (front (sched_run (duo_step endless) in_turns (duo_start 1 34 0) 1))) = 1"
  by (simp add: in_turns_def duo_start_def front_step_def endless_def frontend_offer_def eth_tx_def front_port_def
      pipe_put_def contents_def Let_def)


end
