(* ===== verification/Launches.thy ===== *)
theory Launches
  imports Lcores "HOL-Library.Sublist"
begin

text \<open>
  The programs that launch functions on chosen lcores, \<open>lcore/exp_lcore/main.c\<close>, which waits for
  them, and \<open>practice/sample.c\<close>, which does not. \<open>rte_eal_remote_launch\<close> refuses a job for an lcore
  that is not a worker or has not finished its last one, and both programs ignore that; when the
  main function returns, the process ends, with all its lcores. Each line printed is a step, recorded with the
  lcore that prints it and the number in it.
\<close>

type_synonym printed = "string \<times> int"

record launch_state =
  todo :: "nat \<Rightarrow> printed list"            \<comment> \<open>the lines a launched function has yet to print\<close>
  shown :: "(nat \<times> printed) list"
  main_at :: nat
  exited :: bool

definition func2 :: "nat \<Rightarrow> printed list" where
  "func2 l = [(''Inside func2: running on lcore'', int l)]"

definition func1 :: "nat \<Rightarrow> printed list" where
  "func1 l = [(''Inside func1: running on lcore'', int l)] @ func2 l"

definition sample_handler :: "int \<Rightarrow> nat \<Rightarrow> printed list" where
  "sample_handler val l = [(''handler called'', 0), (''lcore id'', int l), (''value is'', val)]"

definition remote_launch :: "nat list \<Rightarrow> (nat \<Rightarrow> printed list) \<Rightarrow> nat \<Rightarrow> launch_state \<Rightarrow> launch_state" where
  "remote_launch workers f l s =
     (if l \<in> set workers \<and> todo s l = [] then s\<lparr>todo := (todo s)(l := f l)\<rparr> else s)"

definition say :: "nat \<Rightarrow> printed \<Rightarrow> launch_state \<Rightarrow> launch_state" where
  "say l x s = s\<lparr>shown := shown s @ [(l, x)]\<rparr>"

definition next_call :: "launch_state \<Rightarrow> launch_state" where
  "next_call s = s\<lparr>main_at := Suc (main_at s)\<rparr>"

definition exp_main :: "nat \<Rightarrow> nat list \<Rightarrow> launch_state \<Rightarrow> launch_state" where
  "exp_main m workers s =
     (if main_at s = 0 then next_call (say m (''Launching func1 on lcore'', 1) s)
      else if main_at s = 1 then next_call (remote_launch workers func1 1 s)
      else if main_at s = 2 then next_call (say m (''Launching func2 on lcore'', 2) s)
      else if main_at s = 3 then next_call (remote_launch workers func2 2 s)
      else if list_all (\<lambda>l. todo s l = []) workers then s\<lparr>exited := True\<rparr> else s)"

definition practice_sample_main :: "nat \<Rightarrow> nat list \<Rightarrow> launch_state \<Rightarrow> launch_state" where
  "practice_sample_main m workers s =
     (if main_at s = 0 then next_call (remote_launch workers (sample_handler 10) 1 s)
      else if main_at s = 1 then next_call (say m (''Eal init done'', 0) s)
      else s\<lparr>exited := True\<rparr>)"

definition worker_prints :: "nat \<Rightarrow> launch_state \<Rightarrow> launch_state" where
  "worker_prints l s =
     (case todo s l of [] \<Rightarrow> s | x # xs \<Rightarrow> say l x (s\<lparr>todo := (todo s)(l := xs)\<rparr>))"

definition launch_step :: "(launch_state \<Rightarrow> launch_state) \<Rightarrow> nat \<Rightarrow> nat \<Rightarrow> launch_state \<Rightarrow> launch_state" where
  "launch_step main m l s = (if exited s then s else if l = m then main s else worker_prints l s)"

definition launch_start :: launch_state where
  "launch_start = \<lparr>todo = (\<lambda>_. []), shown = [], main_at = 0, exited = False\<rparr>"

subsection \<open>What each lcore has printed\<close>

definition prints :: "nat \<Rightarrow> launch_state \<Rightarrow> printed list" where
  "prints l s = map snd (filter (\<lambda>(k, x). k = l) (shown s))"

text \<open>\<open>given a l\<close>: the lines of the function launched on \<open>l\<close> before the main lcore's call number \<open>a\<close>.\<close>

definition exp_given :: "nat list \<Rightarrow> nat \<Rightarrow> nat \<Rightarrow> printed list" where
  "exp_given workers a l =
     (if l \<in> set workers \<and> l = 1 \<and> 1 < a then func1 1 else if l \<in> set workers \<and> l = 2 \<and> 3 < a then func2 2 else [])"

definition practice_given :: "nat list \<Rightarrow> nat \<Rightarrow> nat \<Rightarrow> printed list" where
  "practice_given workers a l = (if l \<in> set workers \<and> l = 1 \<and> 0 < a then sample_handler 10 1 else [])"

definition launch_ok :: "(nat \<Rightarrow> nat \<Rightarrow> printed list) \<Rightarrow> nat \<Rightarrow> launch_state \<Rightarrow> bool" where
  "launch_ok given m s \<longleftrightarrow> (\<forall>l. l \<noteq> m \<longrightarrow> prints l s @ todo s l = given (main_at s) l)"

lemma worker_prints_ok: "launch_ok given m s \<Longrightarrow> l \<noteq> m \<Longrightarrow> launch_ok given m (worker_prints l s)"
  by (auto simp: launch_ok_def worker_prints_def say_def prints_def split: list.split)

lemma say_prints: "l \<noteq> m \<Longrightarrow> prints l (say m x s) = prints l s" "todo (say m x s) = todo s" "main_at (say m x s) = main_at s"
    "exited (say m x s) = exited s"
  by (simp_all add: say_def prints_def)

lemma next_call_fields: "prints l (next_call s) = prints l s" "todo (next_call s) = todo s" "main_at (next_call s) = Suc (main_at s)"
    "exited (next_call s) = exited s"
  by (simp_all add: next_call_def prints_def)

lemma remote_launch_fields: "prints l (remote_launch ws f k s) = prints l s" "main_at (remote_launch ws f k s) = main_at s"
    "exited (remote_launch ws f k s) = exited s"
    "todo (remote_launch ws f k s) l = (if k \<in> set ws \<and> todo s k = [] \<and> l = k then f k else todo s l)"
  by (auto simp: remote_launch_def prints_def)

lemmas launch_fields = say_prints next_call_fields remote_launch_fields

lemma exited_fields: "prints l (s\<lparr>exited := b\<rparr>) = prints l s"
  by (simp add: prints_def)

lemma given_nothing:
  assumes "launch_ok given m s" and "l \<noteq> m" and "given (main_at s) l = []"
  shows "todo s l = [] \<and> prints l s = []"
  using assms by (metis append_is_Nil_conv launch_ok_def)

lemma exp_main_ok:
  assumes "launch_ok (exp_given workers) m s" and "m \<notin> set workers"
  shows "launch_ok (exp_given workers) m (exp_main m workers s)"
proof -
  have one: "todo s 1 = [] \<and> prints 1 s = []" if "1 \<in> set workers" "main_at s = 1"
    by (rule given_nothing[OF assms(1)]) (use that assms(2) in \<open>auto simp: exp_given_def\<close>)
  have two: "todo s 2 = [] \<and> prints 2 s = []" if "2 \<in> set workers" "main_at s = 3"
    by (rule given_nothing[OF assms(1)]) (use that assms(2) in \<open>auto simp: exp_given_def\<close>)
  show ?thesis
    using assms one two unfolding launch_ok_def exp_main_def
    by (auto simp: launch_fields exited_fields exp_given_def)
qed

lemma practice_sample_main_ok:
  assumes "launch_ok (practice_given workers) m s" and "m \<notin> set workers"
  shows "launch_ok (practice_given workers) m (practice_sample_main m workers s)"
proof -
  have one: "todo s 1 = [] \<and> prints 1 s = []" if "1 \<in> set workers" "main_at s = 0"
    by (rule given_nothing[OF assms(1)]) (use that assms(2) in \<open>auto simp: practice_given_def\<close>)
  show ?thesis
    using assms one unfolding launch_ok_def practice_sample_main_def
    by (auto simp: launch_fields exited_fields practice_given_def)
qed

subsection \<open>Both programs end\<close>

definition exp_inv :: "nat \<Rightarrow> nat list \<Rightarrow> launch_state \<Rightarrow> bool" where
  "exp_inv m workers s \<longleftrightarrow> m \<notin> set workers \<and> launch_ok (exp_given workers) m s \<and>
     (exited s \<longrightarrow> 3 < main_at s \<and> (\<forall>l\<in>set workers. todo s l = []))"

definition lines_left :: "nat list \<Rightarrow> launch_state \<Rightarrow> nat" where
  "lines_left workers s = (\<Sum>l\<in>set workers. length (todo s l))"

definition exp_mu :: "nat list \<Rightarrow> launch_state \<Rightarrow> nat" where
  "exp_mu workers s = 4 * (4 - main_at s) + lines_left workers s + (if exited s then 0 else 1)"

definition exp_mover :: "nat \<Rightarrow> nat list \<Rightarrow> launch_state \<Rightarrow> nat" where
  "exp_mover m workers s =
     (if main_at s < 4 then m else case find (\<lambda>l. todo s l \<noteq> []) workers of None \<Rightarrow> m | Some l \<Rightarrow> l)"

lemma lines_left_prints:
  assumes "l \<in> set workers" and "todo s l \<noteq> []"
  shows "lines_left workers (worker_prints l s) < lines_left workers s"
  unfolding lines_left_def using assms
  by (intro sum_strict_mono_ex1 bexI[of _ l])
    (auto simp: worker_prints_def say_def split: list.split)

lemma worker_prints_idle: "todo s l = [] \<Longrightarrow> worker_prints l s = s"
  by (simp add: worker_prints_def)

lemma worker_prints_fields: "main_at (worker_prints l s) = main_at s" "exited (worker_prints l s) = exited s"
  by (simp_all add: worker_prints_def say_def split: list.split)

lemma lines_left_launch: "lines_left workers (remote_launch workers f k s) \<le> lines_left workers s + length (f k)"
proof (cases "k \<in> set workers \<and> todo s k = []")
  case True
  then have "lines_left workers (remote_launch workers f k s) =
      length (f k) + (\<Sum>l\<in>set workers - {k}. length (todo s l))"
    unfolding lines_left_def by (subst sum.remove[of _ k]) (simp_all add: launch_fields)
  also have "\<dots> \<le> length (f k) + lines_left workers s"
    unfolding lines_left_def by (intro add_left_mono sum_mono2) auto
  finally show ?thesis by simp
qed (auto simp: remote_launch_def lines_left_def)

lemma lines_left_fields: "lines_left workers (next_call s) = lines_left workers s"
    "lines_left workers (say m x s) = lines_left workers s"
    "lines_left workers (s\<lparr>exited := b\<rparr>) = lines_left workers s"
  by (simp_all add: lines_left_def launch_fields)

lemma exp_main_moves:
  assumes "main_at s < 4 \<or> (\<forall>l\<in>set workers. todo s l = [])" and "\<not> exited s"
  shows "exp_mu workers (exp_main m workers s) < exp_mu workers s"
proof -
  consider "main_at s = 0" | "main_at s = 1" | "main_at s = 2" | "main_at s = 3" | "3 < main_at s" by linarith
  then show ?thesis
    using assms lines_left_launch[of workers func1 1 s] lines_left_launch[of workers func2 2 s]
    by cases (simp_all add: exp_mu_def exp_main_def launch_fields lines_left_fields func1_def func2_def list_all_iff)
qed

lemma exp_main_waits:
  assumes "3 < main_at s" and "\<exists>l\<in>set workers. todo s l \<noteq> []"
  shows "exp_main m workers s = s"
  using assms by (auto simp: exp_main_def list_all_iff)

lemma exp_mover_cases:
  obtains "exp_mover m workers s = m" "main_at s < 4 \<or> (\<forall>l\<in>set workers. todo s l = [])"
  | "exp_mover m workers s \<in> set workers" "todo s (exp_mover m workers s) \<noteq> []" "3 < main_at s"
proof (cases "main_at s < 4")
  case True
  then show ?thesis using that by (simp add: exp_mover_def)
next
  case False
  then show ?thesis
    using that
    by (cases "find (\<lambda>l. todo s l \<noteq> []) workers")
      (auto simp: exp_mover_def find_None_iff find_Some_iff)
qed

lemma exp_inv_step:
  assumes "exp_inv m workers s"
  shows "exp_inv m workers (launch_step (exp_main m workers) m l s)"
proof (cases "exited s")
  case False
  have "launch_ok (exp_given workers) m (launch_step (exp_main m workers) m l s)"
    using assms False exp_main_ok worker_prints_ok by (auto simp: exp_inv_def launch_step_def)
  moreover have "3 < main_at t \<and> (\<forall>l\<in>set workers. todo t l = [])"
    if "exited t" "t = launch_step (exp_main m workers) m l s" for t
    using that False
    by (auto simp: launch_step_def exp_main_def worker_prints_fields launch_fields list_all_iff split: if_splits)
  ultimately show ?thesis using assms by (simp add: exp_inv_def)
qed (use assms in \<open>simp add: launch_step_def\<close>)

interpretation exp: fair_progress "launch_step (exp_main m workers) m" "exp_inv m workers" exited
    "exp_mu workers" "exp_mover m workers"
proof
  fix s and l :: nat
  assume inv: "exp_inv m workers s"
  then show "exp_inv m workers (launch_step (exp_main m workers) m l s)" by (rule exp_inv_step)
  assume on: "\<not> exited s"
  have m: "m \<notin> set workers" using inv by (simp add: exp_inv_def)
  have prints: "exp_mu workers (worker_prints k s) < exp_mu workers s" if "k \<in> set workers" "todo s k \<noteq> []" for k
    using lines_left_prints[OF that] by (simp add: exp_mu_def worker_prints_fields)
  show "exp_mu workers (launch_step (exp_main m workers) m (exp_mover m workers s) s) < exp_mu workers s"
    using exp_main_moves[OF _ on] prints m on
    by (cases rule: exp_mover_cases[of m workers s]) (auto simp: launch_step_def)
  assume l: "l \<noteq> exp_mover m workers s"
  have idle: "l \<noteq> m \<Longrightarrow> l \<notin> set workers \<Longrightarrow> todo s l = []"
    using inv unfolding exp_inv_def launch_ok_def exp_given_def by auto
  have "launch_step (exp_main m workers) m l s = s \<or>
      exp_mu workers (launch_step (exp_main m workers) m l s) < exp_mu workers s"
  proof (cases "l = m")
    case True
    then show ?thesis
      using l exp_main_waits on by (cases rule: exp_mover_cases[of m workers s]) (auto simp: launch_step_def)
  next
    case False
    then show ?thesis
      using prints[of l] idle worker_prints_idle[of s l] on by (cases "l \<in> set workers \<and> todo s l \<noteq> []") (auto simp: launch_step_def)
  qed
  then show "exp_mu workers (launch_step (exp_main m workers) m l s) < exp_mu workers s \<or>
      exp_mu workers (launch_step (exp_main m workers) m l s) = exp_mu workers s \<and>
      exp_mover m workers (launch_step (exp_main m workers) m l s) = exp_mover m workers s"
    by auto
qed

definition practice_inv :: "nat \<Rightarrow> nat list \<Rightarrow> launch_state \<Rightarrow> bool" where
  "practice_inv m workers s \<longleftrightarrow> m \<notin> set workers \<and> launch_ok (practice_given workers) m s \<and>
     (exited s \<longrightarrow> 1 < main_at s)"

definition practice_mu :: "launch_state \<Rightarrow> nat" where
  "practice_mu s = (2 - main_at s) + (if exited s then 0 else 1)"

lemma practice_inv_step:
  assumes "practice_inv m workers s"
  shows "practice_inv m workers (launch_step (practice_sample_main m workers) m l s)"
proof (cases "exited s")
  case False
  have "launch_ok (practice_given workers) m (launch_step (practice_sample_main m workers) m l s)"
    using assms False practice_sample_main_ok worker_prints_ok by (auto simp: practice_inv_def launch_step_def)
  moreover have "1 < main_at t" if "exited t" "t = launch_step (practice_sample_main m workers) m l s" for t
    using that False
    by (auto simp: launch_step_def practice_sample_main_def worker_prints_fields launch_fields split: if_splits)
  ultimately show ?thesis using assms by (simp add: practice_inv_def)
qed (use assms in \<open>simp add: launch_step_def\<close>)

lemma practice_sample_main_moves: "\<not> exited s \<Longrightarrow> practice_mu (practice_sample_main m workers s) < practice_mu s"
  by (auto simp: practice_mu_def practice_sample_main_def launch_fields)

interpretation practice: fair_progress "launch_step (practice_sample_main m workers) m" "practice_inv m workers" exited
    practice_mu "\<lambda>s. m"
proof
  fix s and l :: nat
  assume "practice_inv m workers s"
  then show "practice_inv m workers (launch_step (practice_sample_main m workers) m l s)" by (rule practice_inv_step)
  assume "\<not> exited s"
  then show "practice_mu (launch_step (practice_sample_main m workers) m m s) < practice_mu s"
    using practice_sample_main_moves by (simp add: launch_step_def)
  assume "l \<noteq> m"
  then show "practice_mu (launch_step (practice_sample_main m workers) m l s) < practice_mu s \<or>
      practice_mu (launch_step (practice_sample_main m workers) m l s) = practice_mu s \<and> m = m"
    by (simp add: launch_step_def practice_mu_def worker_prints_fields)
qed

text \<open>A schedule of \<open>practice/sample.c\<close>: the launch, \<open>k\<close> lines of the worker, the end.\<close>

definition early_exit :: "nat \<Rightarrow> nat \<Rightarrow> nat list" where
  "early_exit m k = [m] @ replicate k 1 @ [m, m]"

lemma early_exit_prints:
  assumes "1 \<in> set workers" and "m \<noteq> 1" and "k \<le> 3"
  shows "exited (fold (launch_step (practice_sample_main m workers) m) (early_exit m k) launch_start) \<and>
    prints 1 (fold (launch_step (practice_sample_main m workers) m) (early_exit m k) launch_start) = take k (sample_handler 10 1)"
proof -
  have "k = 0 \<or> k = 1 \<or> k = 2 \<or> k = 3" using assms(3) by arith
  then show ?thesis
    using assms(1,2)
    by (auto simp: early_exit_def launch_step_def practice_sample_main_def launch_start_def remote_launch_def next_call_def say_def
        worker_prints_def prints_def sample_handler_def numeral_2_eq_2 numeral_3_eq_3)
qed

lemma exp_prints:
  assumes "exp_inv m workers s" and "exited s" and "l \<noteq> m"
  shows "prints l s = exp_given workers 4 l"
proof -
  have "prints l s @ todo s l = exp_given workers (main_at s) l" "3 < main_at s" "l \<in> set workers \<Longrightarrow> todo s l = []"
    using assms by (auto simp: exp_inv_def launch_ok_def)
  then show ?thesis by (auto simp: exp_given_def split: if_splits)
qed

lemma practice_prints:
  assumes "practice_inv m workers s" and "exited s" and "1 \<in> set workers"
  shows "prefix (prints 1 s) (sample_handler 10 1)"
proof -
  have "m \<noteq> 1" using assms(1,3) by (auto simp: practice_inv_def)
  then have "prints 1 s @ todo s 1 = sample_handler 10 1"
    using assms by (auto simp: practice_inv_def launch_ok_def practice_given_def)
  then show ?thesis by (metis prefixI)
qed



end
