(* ===== verification/GraphRegistry.thy ===== *)
theory GraphRegistry
  imports GraphPackets GraphDemos GraphContext
begin

text \<open>
  The nodes as the programs register them, \<open>struct rte_node_register\<close>: a name, a function, a flag, and the
  names of the nodes its edges lead to. \<open>rte_graph_create\<close> builds the graph from the names: the nodes that a
  pattern names, and all that edges lead to from there. The theorem says that these graphs are
  the ones of the theories GraphPackets, GraphDemos and GraphContext, and that no node
  enqueues to an edge it has not registered.
\<close>

subsection \<open>Registration\<close>

record ('o, 's) node_register =
  reg_name :: string
  reg_process :: "'o list \<Rightarrow> 's \<Rightarrow> (nat \<times> 'o list) list \<times> 's"
  source_f :: bool                        \<comment> \<open>\<open>RTE_NODE_SOURCE_F\<close>\<close>
  nb_edges :: nat
  next_names :: "string list"

text \<open>The library looks at the first \<open>nb_edges\<close> names only.\<close>

definition edges_of :: "('o, 's) node_register list \<Rightarrow> string \<Rightarrow> string list" where
  "edges_of regs n =
     (case find (\<lambda>r. reg_name r = n) regs of None \<Rightarrow> [] | Some r \<Rightarrow> take (nb_edges r) (next_names r))"

inductive_set in_graph :: "('o, 's) node_register list \<Rightarrow> string list \<Rightarrow> string set"
  for regs patterns where
  pattern: "n \<in> set patterns \<Longrightarrow> n \<in> in_graph regs patterns"
| edge: "n \<in> in_graph regs patterns \<Longrightarrow> k \<in> set (edges_of regs n) \<Longrightarrow> k \<in> in_graph regs patterns"

text \<open>Names in an order in which each is a pattern or follows from one before it.\<close>

fun grown :: "('o, 's) node_register list \<Rightarrow> string list \<Rightarrow> string list \<Rightarrow> string list \<Rightarrow> bool" where
  "grown regs patterns seen [] \<longleftrightarrow> True"
| "grown regs patterns seen (n # ns) \<longleftrightarrow>
     (n \<in> set patterns \<or> (\<exists>k\<in>set seen. n \<in> set (edges_of regs k))) \<and> grown regs patterns (n # seen) ns"

lemma grown_in_graph:
  assumes "grown regs patterns seen ns" and "set seen \<subseteq> in_graph regs patterns"
  shows "set ns \<subseteq> in_graph regs patterns"
  using assms
proof (induction ns arbitrary: seen)
  case (Cons n ns)
  then have "n \<in> in_graph regs patterns" by (auto intro: in_graph.intros)
  then show ?case using Cons.IH[of "n # seen"] Cons.prems by simp
qed simp

lemma in_graph_names:
  assumes "grown regs patterns [] ns" and "set patterns \<subseteq> set ns" and "\<forall>n\<in>set ns. set (edges_of regs n) \<subseteq> set ns"
  shows "in_graph regs patterns = set ns"
proof
  show "in_graph regs patterns \<subseteq> set ns"
  proof
    fix n assume "n \<in> in_graph regs patterns"
    then show "n \<in> set ns" by induction (use assms(2,3) in auto)
  qed
  show "set ns \<subseteq> in_graph regs patterns" using grown_in_graph[OF assms(1)] by simp
qed

subsection \<open>What it takes to be the registered graph\<close>

text \<open>
  \<open>nodes\<close> are the nodes of the graph, \<open>name\<close> their names: the functions, edges and flags agree, and whatever
  a node is handed, it enqueues to its own edges only.
\<close>

definition well_registered ::
    "('o, 's) node_register list \<Rightarrow> string list \<Rightarrow> ('v \<Rightarrow> string) \<Rightarrow> ('v, 'o, 's) graph_app \<Rightarrow> 'v list \<Rightarrow> bool" where
  "well_registered regs patterns name g nodes \<longleftrightarrow>
     distinct (map reg_name regs) \<and> inj name \<and> in_graph regs patterns = set (map name nodes) \<and>
     set (sources g) \<subseteq> set nodes \<and>
     (\<forall>v\<in>set nodes. \<exists>r\<in>set regs. reg_name r = name v \<and> reg_process r = process g v \<and>
       nb_edges r = length (next_nodes g v) \<and>
       take (nb_edges r) (next_names r) = map name (next_nodes g v) \<and> (source_f r \<longleftrightarrow> v \<in> set (sources g)) \<and>
       (\<forall>objs s. list_all (\<lambda>(e, os). e < nb_edges r) (fst (process g v objs s))))"

definition visits :: "('v, 'o, 's) graph_app \<Rightarrow> 's \<Rightarrow> 'v set" where
  "visits g s = {v. \<exists>pend t. (graph_step g)\<^sup>*\<^sup>* (walk_start g s) (pend, t) \<and> pend v \<noteq> None}"

lemma node_enqueue_pending: "node_enqueue nexts eo pend v \<noteq> None \<Longrightarrow> pend v \<noteq> None \<or> v = nexts ! fst eo"
  by (auto simp: node_enqueue_def split: prod.splits if_splits)

lemma enqueues_pending:
  "fold (node_enqueue nexts) outs pend v \<noteq> None \<Longrightarrow> pend v \<noteq> None \<or> (\<exists>eo\<in>set outs. v = nexts ! fst eo)"
proof (induction outs arbitrary: pend)
  case (Cons eo outs)
  then show ?case using node_enqueue_pending[of nexts eo pend v] by fastforce
qed simp

lemma edges_registered:
  assumes "distinct (map reg_name regs)" and "r \<in> set regs"
  shows "edges_of regs (reg_name r) = take (nb_edges r) (next_names r)"
proof -
  have "find (\<lambda>q. reg_name q = reg_name r) regs = Some r"
    using assms by (induction regs) (auto simp: rev_image_eqI)
  then show ?thesis by (simp add: edges_of_def)
qed

lemma next_in_graph:
  assumes "well_registered regs patterns name g nodes" and "v \<in> set nodes"
    and "eo \<in> set (fst (process g v objs s))"
  shows "next_nodes g v ! fst eo \<in> set nodes"
proof -
  have wr: "distinct (map reg_name regs)" "inj name" "in_graph regs patterns = name ` set nodes"
    using assms(1) by (auto simp: well_registered_def)
  obtain r where r: "r \<in> set regs" "reg_name r = name v" "nb_edges r = length (next_nodes g v)"
      "take (nb_edges r) (next_names r) = map name (next_nodes g v)"
    and e: "list_all (\<lambda>(e, os). e < nb_edges r) (fst (process g v objs s))"
    using assms(1,2) unfolding well_registered_def by blast
  let ?w = "next_nodes g v ! fst eo"
  have "fst eo < nb_edges r" using e assms(3) by (auto simp: list_all_iff)
  then have "name ?w \<in> set (edges_of regs (name v))"
    using edges_registered[OF wr(1) r(1)] r(2-4) by simp
  moreover have "name v \<in> in_graph regs patterns" using wr(3) assms(2) by simp
  ultimately have "name ?w \<in> name ` set nodes" using wr(3) in_graph.edge by metis
  then show ?thesis using wr(2) by (auto dest: injD)
qed

lemma visits_registered:
  assumes "well_registered regs patterns name g nodes"
  shows "visits g s \<subseteq> set nodes"
proof -
  have "\<forall>v. fst ps v \<noteq> None \<longrightarrow> v \<in> set nodes" if "(graph_step g)\<^sup>*\<^sup>* (walk_start g s) ps" for ps
    using that
  proof (induction rule: rtranclp_induct)
    case base
    then show ?case using assms by (auto simp: walk_start_def well_registered_def)
  next
    case (step ps qs)
    from step(2) obtain pend t n objs where ps: "ps = (pend, t)" "pend n = Some objs" "qs = visit g n (pend, t)"
      by (auto elim!: graph_stepE)
    have n: "n \<in> set nodes" using step.IH ps by auto
    obtain outs t' where p: "process g n objs t = (outs, t')" by fastforce
    show ?case
    proof (intro allI impI)
      fix v
      assume "fst qs v \<noteq> None"
      then have "fold (node_enqueue (next_nodes g n)) outs (pend(n := None)) v \<noteq> None"
        using ps p by (simp add: visit_def)
      from enqueues_pending[OF this] show "v \<in> set nodes"
        using step.IH ps next_in_graph[OF assms n, of _ objs t] p by (auto split: if_splits)
    qed
  qed
  then show ?thesis by (fastforce simp: visits_def)
qed

subsection \<open>The programs\<close>

text \<open>\<open>graph/pipeline\<close>.\<close>

definition pl_rx_node :: "'n ethdev \<Rightarrow> (mbuf, 'n graph_world) node_register" where
  "pl_rx_node nd =
     \<lparr>reg_name = ''rx_node'', reg_process = rx_node_process nd, source_f = True,
      nb_edges = 1, next_names = [''l2_node'']\<rparr>"

definition pl_l2_node :: "byteorder \<Rightarrow> (mbuf, 'n graph_world) node_register" where
  "pl_l2_node bo =
     \<lparr>reg_name = ''l2_node'', reg_process = l2_node_process bo, source_f = False,
      nb_edges = 3, next_names = [''ipv4_node'', ''ipv6_node'', ''drop_node'']\<rparr>"

definition pl_ipv4_node :: "(mbuf, 'n graph_world) node_register" where
  "pl_ipv4_node =
     \<lparr>reg_name = ''ipv4_node'', reg_process = ipv4_node_process, source_f = False,
      nb_edges = 1, next_names = [''tx_node'']\<rparr>"

definition pl_ipv6_node :: "(mbuf, 'n graph_world) node_register" where
  "pl_ipv6_node =
     \<lparr>reg_name = ''ipv6_node'', reg_process = ipv6_node_process, source_f = False,
      nb_edges = 1, next_names = [''tx_node'']\<rparr>"

definition pl_tx_node :: "'n ethdev \<Rightarrow> (mbuf, 'n graph_world) node_register" where
  "pl_tx_node nd =
     \<lparr>reg_name = ''tx_node'', reg_process = tx_node_process nd, source_f = False,
      nb_edges = 0, next_names = []\<rparr>"

definition pl_drop_node :: "(mbuf, 'n graph_world) node_register" where
  "pl_drop_node =
     \<lparr>reg_name = ''drop_node'', reg_process = drop_node_process, source_f = False,
      nb_edges = 0, next_names = []\<rparr>"

definition pipeline_registry :: "'n ethdev \<Rightarrow> byteorder \<Rightarrow> (mbuf, 'n graph_world) node_register list" where
  "pipeline_registry nd bo =
     [pl_rx_node nd, pl_l2_node bo, pl_ipv4_node, pl_ipv6_node, pl_tx_node nd, pl_drop_node]"

definition pipeline_name :: "pipe_node \<Rightarrow> string" where
  "pipeline_name v = (case v of RxNode \<Rightarrow> ''rx_node'' | L2Node \<Rightarrow> ''l2_node'' | Ipv4Node \<Rightarrow> ''ipv4_node'' | Ipv6Node \<Rightarrow> ''ipv6_node'' | TxNode \<Rightarrow> ''tx_node'' | DropNode \<Rightarrow> ''drop_node'')"

text \<open>\<open>graph/rx_drop_sample/sample\<close>.\<close>

definition rd_rx_node :: "'n ethdev \<Rightarrow> (mbuf, 'n graph_world) node_register" where
  "rd_rx_node nd =
     \<lparr>reg_name = ''rx_node'', reg_process = sample_rx_process nd, source_f = True,
      nb_edges = 1, next_names = [''ipv4_node'']\<rparr>"

definition rd_ipv4_node :: "byteorder \<Rightarrow> (mbuf, 'n graph_world) node_register" where
  "rd_ipv4_node bo =
     \<lparr>reg_name = ''ipv4_node'', reg_process = sample_ipv4_process bo, source_f = False,
      nb_edges = 2, next_names = [''tx_node'', ''drop_node'']\<rparr>"

definition rd_tx_node :: "'n ethdev \<Rightarrow> (mbuf, 'n graph_world) node_register" where
  "rd_tx_node nd =
     \<lparr>reg_name = ''tx_node'', reg_process = sample_tx_process nd, source_f = False,
      nb_edges = 0, next_names = []\<rparr>"

definition rd_drop_node :: "(mbuf, 'n graph_world) node_register" where
  "rd_drop_node =
     \<lparr>reg_name = ''drop_node'', reg_process = sample_drop_process, source_f = False,
      nb_edges = 0, next_names = []\<rparr>"

definition rx_drop_registry :: "'n ethdev \<Rightarrow> byteorder \<Rightarrow> (mbuf, 'n graph_world) node_register list" where
  "rx_drop_registry nd bo =
     [rd_rx_node nd, rd_ipv4_node bo, rd_tx_node nd, rd_drop_node]"

definition rx_drop_name :: "drop_app_node \<Rightarrow> string" where
  "rx_drop_name v = (case v of SRx \<Rightarrow> ''rx_node'' | SIpv4 \<Rightarrow> ''ipv4_node'' | STx \<Rightarrow> ''tx_node'' | SDrop \<Rightarrow> ''drop_node'')"

text \<open>\<open>graph/two_start_node\<close>.\<close>

definition ts_start2_node :: "('p \<Rightarrow> mbuf option \<times> 'p) \<Rightarrow> (mbuf, 'p ts_state) node_register" where
  "ts_start2_node alloc =
     \<lparr>reg_name = ''start2'', reg_process = start2_process alloc, source_f = True,
      nb_edges = 1, next_names = [''worker'']\<rparr>"

definition ts_start1_node :: "('p \<Rightarrow> mbuf option \<times> 'p) \<Rightarrow> (mbuf, 'p ts_state) node_register" where
  "ts_start1_node alloc =
     \<lparr>reg_name = ''start1'', reg_process = start1_process alloc, source_f = True,
      nb_edges = 1, next_names = [''worker'']\<rparr>"

definition ts_worker_node :: "(mbuf, 'p ts_state) node_register" where
  "ts_worker_node =
     \<lparr>reg_name = ''worker'', reg_process = worker_process, source_f = False,
      nb_edges = 0, next_names = []\<rparr>"

definition two_start_registry :: "('p \<Rightarrow> mbuf option \<times> 'p) \<Rightarrow> (mbuf, 'p ts_state) node_register list" where
  "two_start_registry alloc =
     [ts_start2_node alloc, ts_start1_node alloc, ts_worker_node]"

definition two_start_name :: "ts_node \<Rightarrow> string" where
  "two_start_name v = (case v of Start2 \<Rightarrow> ''start2'' | Start1 \<Rightarrow> ''start1'' | Worker \<Rightarrow> ''worker'')"

text \<open>\<open>graph/two_start_with_worker\<close>.\<close>

definition tw_start1_node :: "(nat, tw_state) node_register" where
  "tw_start1_node =
     \<lparr>reg_name = ''start1'', reg_process = tw_start1_process, source_f = True,
      nb_edges = 1, next_names = [''work1'']\<rparr>"

definition tw_work1_node :: "(nat, tw_state) node_register" where
  "tw_work1_node =
     \<lparr>reg_name = ''work1'', reg_process = work1_process, source_f = False,
      nb_edges = 0, next_names = []\<rparr>"

definition tw_start2_node :: "(nat, tw_state) node_register" where
  "tw_start2_node =
     \<lparr>reg_name = ''start2'', reg_process = tw_start2_process, source_f = True,
      nb_edges = 1, next_names = [''work2'']\<rparr>"

definition tw_work2_node :: "(nat, tw_state) node_register" where
  "tw_work2_node =
     \<lparr>reg_name = ''work2'', reg_process = work2_process, source_f = False,
      nb_edges = 0, next_names = []\<rparr>"

definition two_worker_registry :: "(nat, tw_state) node_register list" where
  "two_worker_registry =
     [tw_start1_node, tw_work1_node, tw_start2_node, tw_work2_node]"

definition two_worker_name :: "tw_node \<Rightarrow> string" where
  "two_worker_name v = (case v of TStart1 \<Rightarrow> ''start1'' | TWork1 \<Rightarrow> ''work1'' | TStart2 \<Rightarrow> ''start2'' | TWork2 \<Rightarrow> ''work2'')"

text \<open>\<open>graph/node_sched\<close>.\<close>

definition ns_hello_node :: "(unit, hd_state) node_register" where
  "ns_hello_node =
     \<lparr>reg_name = ''hello_node'', reg_process = ns_hello_process, source_f = True,
      nb_edges = 2, next_names = [''dummy_node'', ''dummy_node2'']\<rparr>"

definition ns_dummy_node :: "(unit, hd_state) node_register" where
  "ns_dummy_node =
     \<lparr>reg_name = ''dummy_node'', reg_process = ns_dummy_process, source_f = False,
      nb_edges = 0, next_names = []\<rparr>"

definition ns_dummy_node2 :: "(unit, hd_state) node_register" where
  "ns_dummy_node2 =
     \<lparr>reg_name = ''dummy_node2'', reg_process = ns_dummy_process2, source_f = False,
      nb_edges = 0, next_names = []\<rparr>"

definition sched_registry :: "(unit, hd_state) node_register list" where
  "sched_registry =
     [ns_hello_node, ns_dummy_node, ns_dummy_node2]"

definition sched_name :: "hd_node \<Rightarrow> string" where
  "sched_name v = (case v of Hello \<Rightarrow> ''hello_node'' | Dummy \<Rightarrow> ''dummy_node'' | Dummy2 \<Rightarrow> ''dummy_node2'')"

text \<open>\<open>graph/sample\<close>.\<close>

definition hs_hello_node :: "(unit, hd_state) node_register" where
  "hs_hello_node =
     \<lparr>reg_name = ''hello_node'', reg_process = hs_hello_process, source_f = True,
      nb_edges = 1, next_names = [''dummy_node'', ''dummy_node2'']\<rparr>"

definition hs_dummy_node :: "(unit, hd_state) node_register" where
  "hs_dummy_node =
     \<lparr>reg_name = ''dummy_node'', reg_process = hs_dummy_process, source_f = False,
      nb_edges = 0, next_names = []\<rparr>"

definition hs_dummy_node2 :: "(unit, hd_state) node_register" where
  "hs_dummy_node2 =
     \<lparr>reg_name = ''dummy_node2'', reg_process = hs_dummy_process, source_f = False,
      nb_edges = 0, next_names = []\<rparr>"

definition hello_registry :: "(unit, hd_state) node_register list" where
  "hello_registry =
     [hs_hello_node, hs_dummy_node, hs_dummy_node2]"

definition hello_name :: "hd_node \<Rightarrow> string" where
  "hello_name v = (case v of Hello \<Rightarrow> ''hello_node'' | Dummy \<Rightarrow> ''dummy_node'' | Dummy2 \<Rightarrow> ''dummy_node2'')"

text \<open>\<open>feature_arc/graph_arc\<close>.\<close>

definition ga_hello_node :: "int \<Rightarrow> int \<Rightarrow> (unit, ga_state) node_register" where
  "ga_hello_node f1 f2 =
     \<lparr>reg_name = ''hello_node'', reg_process = ga_hello_process f1 f2, source_f = True,
      nb_edges = 2, next_names = [''dummy_node'', ''dummy_node2'']\<rparr>"

definition ga_dummy_node :: "(unit, ga_state) node_register" where
  "ga_dummy_node =
     \<lparr>reg_name = ''dummy_node'', reg_process = ga_dummy_process, source_f = False,
      nb_edges = 0, next_names = []\<rparr>"

definition ga_dummy_node2 :: "(unit, ga_state) node_register" where
  "ga_dummy_node2 =
     \<lparr>reg_name = ''dummy_node2'', reg_process = ga_dummy_process2, source_f = False,
      nb_edges = 0, next_names = []\<rparr>"

definition arc_registry :: "int \<Rightarrow> int \<Rightarrow> (unit, ga_state) node_register list" where
  "arc_registry f1 f2 =
     [ga_hello_node f1 f2, ga_dummy_node, ga_dummy_node2]"

definition arc_name :: "hd_node \<Rightarrow> string" where
  "arc_name v = (case v of Hello \<Rightarrow> ''hello_node'' | Dummy \<Rightarrow> ''dummy_node'' | Dummy2 \<Rightarrow> ''dummy_node2'')"

text \<open>\<open>graph_private_context/sample\<close>.\<close>

definition gp_hello_node :: "(nat, gp_state) node_register" where
  "gp_hello_node =
     \<lparr>reg_name = ''hello_node'', reg_process = hello_node_process, source_f = True,
      nb_edges = 1, next_names = [''feature_node'']\<rparr>"

definition gp_feature_node :: "(nat, gp_state) node_register" where
  "gp_feature_node =
     \<lparr>reg_name = ''feature_node'', reg_process = feature_node_process, source_f = False,
      nb_edges = 1, next_names = [''sink_node'']\<rparr>"

definition gp_sink_node :: "(nat, gp_state) node_register" where
  "gp_sink_node =
     \<lparr>reg_name = ''sink_node'', reg_process = sink_node_process, source_f = False,
      nb_edges = 0, next_names = []\<rparr>"

definition private_registry :: "(nat, gp_state) node_register list" where
  "private_registry =
     [gp_hello_node, gp_feature_node, gp_sink_node]"

definition private_name :: "gp_node \<Rightarrow> string" where
  "private_name v = (case v of HelloNode \<Rightarrow> ''hello_node'' | FeatureNode \<Rightarrow> ''feature_node'' | SinkNode \<Rightarrow> ''sink_node'')"

text \<open>
  \<open>helper\<close> of \<open>graph_arc\<close>, launched on another lcore with what its structure holds: the source node and the
  objects handed to it.
\<close>

definition ga_helper :: "'o list \<Rightarrow> (nat \<times> 'o list) list" where
  "ga_helper objs = [(1, objs)]"

text \<open>The second function of \<open>graph/sample\<close>, which no node is registered with.\<close>

definition hs_dummy_process2 :: "unit list \<Rightarrow> hd_state \<Rightarrow> (nat \<times> unit list) list \<times> hd_state" where
  "hs_dummy_process2 objs s = ([], s\<lparr>hd_count := hd_count s + 1, visited := visited s @ [Dummy2]\<rparr>)"

lemma well_registeredI:
  assumes "distinct (map reg_name regs)" and "inj name" and "grown regs patterns [] (map name nodes)"
    and "list_all (\<lambda>n. n \<in> set (map name nodes)) patterns"
    and "list_all (\<lambda>v. list_all (\<lambda>n. n \<in> set (map name nodes)) (edges_of regs (name v))) nodes"
    and "list_all (\<lambda>v. v \<in> set nodes) (sources g)"
    and "list_all (\<lambda>v. list_ex (\<lambda>r. reg_name r = name v \<and> reg_process r = process g v \<and>
       nb_edges r = length (next_nodes g v) \<and> take (nb_edges r) (next_names r) = map name (next_nodes g v) \<and>
       (source_f r \<longleftrightarrow> v \<in> set (sources g))) regs) nodes"
    and "\<And>v objs s. list_all (\<lambda>(e, os). e < length (next_nodes g v)) (fst (process g v objs s))"
  shows "well_registered regs patterns name g nodes"
proof -
  have "in_graph regs patterns = set (map name nodes)"
    using assms(3-5) by (intro in_graph_names) (auto simp: list_all_iff)
  moreover have "\<exists>r\<in>set regs. reg_name r = name v \<and> reg_process r = process g v \<and>
       nb_edges r = length (next_nodes g v) \<and>
       take (nb_edges r) (next_names r) = map name (next_nodes g v) \<and> (source_f r \<longleftrightarrow> v \<in> set (sources g)) \<and>
       (\<forall>objs s. list_all (\<lambda>(e, os). e < nb_edges r) (fst (process g v objs s)))" if "v \<in> set nodes" for v
  proof -
    from assms(7) that obtain r where "r \<in> set regs" "reg_name r = name v" "reg_process r = process g v"
      "nb_edges r = length (next_nodes g v)"
      "take (nb_edges r) (next_names r) = map name (next_nodes g v)" "source_f r \<longleftrightarrow> v \<in> set (sources g)"
      unfolding list_all_iff list_ex_iff by blast
    then show ?thesis using assms(8) by (intro bexI[of _ r]) simp_all
  qed
  moreover have "set (sources g) \<subseteq> set nodes" using assms(6) by (auto simp: list_all_iff)
  ultimately show ?thesis using assms(1,2) unfolding well_registered_def by blast
qed

lemmas pipeline_nodes = pipeline_registry_def pl_rx_node_def pl_l2_node_def pl_ipv4_node_def pl_ipv6_node_def pl_tx_node_def pl_drop_node_def

lemma pipeline_registered:
  "well_registered (pipeline_registry nd bo) [''rx_node''] pipeline_name (pipeline_app nd bo) [RxNode, L2Node, Ipv4Node, Ipv6Node, TxNode, DropNode]"
proof (rule well_registeredI)
  show "inj pipeline_name" by (rule injI) (auto simp: pipeline_name_def split: pipe_node.splits)
  show "list_all (\<lambda>(e, os). e < length (next_nodes (pipeline_app nd bo) v)) (fst (process (pipeline_app nd bo) v objs s))" for v objs s
    by (cases v; auto simp: pipeline_app_def rx_node_process_def l2_node_process_def ipv4_node_process_def ipv6_node_process_def tx_node_process_def drop_node_process_def
        case_prod_beta Let_def list_all_iff split: option.splits if_splits)
qed (simp_all add: pipeline_nodes pipeline_name_def edges_of_def pipeline_app_def)

lemmas rx_drop_nodes = rx_drop_registry_def rd_rx_node_def rd_ipv4_node_def rd_tx_node_def rd_drop_node_def

lemma rx_drop_registered:
  "well_registered (rx_drop_registry nd bo) [''rx_node''] rx_drop_name (sample_app nd bo) [SRx, SIpv4, STx, SDrop]"
proof (rule well_registeredI)
  show "inj rx_drop_name" by (rule injI) (auto simp: rx_drop_name_def split: drop_app_node.splits)
  show "list_all (\<lambda>(e, os). e < length (next_nodes (sample_app nd bo) v)) (fst (process (sample_app nd bo) v objs s))" for v objs s
    by (cases v; auto simp: sample_app_def sample_rx_process_def sample_ipv4_process_def sample_tx_process_def sample_drop_process_def
        case_prod_beta Let_def list_all_iff split: option.splits if_splits)
qed (simp_all add: rx_drop_nodes rx_drop_name_def edges_of_def sample_app_def)

lemmas two_start_nodes = two_start_registry_def ts_start2_node_def ts_start1_node_def ts_worker_node_def

lemma two_start_registered:
  "well_registered (two_start_registry alloc) [''start1'', ''start2''] two_start_name (ts_app alloc) [Start2, Start1, Worker]"
proof (rule well_registeredI)
  show "inj two_start_name" by (rule injI) (auto simp: two_start_name_def split: ts_node.splits)
  show "list_all (\<lambda>(e, os). e < length (next_nodes (ts_app alloc) v)) (fst (process (ts_app alloc) v objs s))" for v objs s
    by (cases v; auto simp: ts_app_def start2_process_def start1_process_def worker_process_def
        case_prod_beta Let_def list_all_iff split: option.splits if_splits)
qed (simp_all add: two_start_nodes two_start_name_def edges_of_def ts_app_def)

lemmas two_worker_nodes = two_worker_registry_def tw_start1_node_def tw_work1_node_def tw_start2_node_def tw_work2_node_def

lemma two_worker_registered:
  "well_registered two_worker_registry [''start1'', ''start2''] two_worker_name tw_app [TStart1, TWork1, TStart2, TWork2]"
proof (rule well_registeredI)
  show "inj two_worker_name" by (rule injI) (auto simp: two_worker_name_def split: tw_node.splits)
  show "list_all (\<lambda>(e, os). e < length (next_nodes tw_app v)) (fst (process tw_app v objs s))" for v objs s
    by (cases v; auto simp: tw_app_def tw_start1_process_def work1_process_def tw_start2_process_def work2_process_def
        case_prod_beta Let_def list_all_iff split: option.splits if_splits)
qed (simp_all add: two_worker_nodes two_worker_name_def edges_of_def tw_app_def)

lemmas sched_nodes = sched_registry_def ns_hello_node_def ns_dummy_node_def ns_dummy_node2_def

lemma sched_registered:
  "well_registered sched_registry [''hello_node''] sched_name ns_app [Hello, Dummy, Dummy2]"
proof (rule well_registeredI)
  show "inj sched_name" by (rule injI) (auto simp: sched_name_def split: hd_node.splits)
  show "list_all (\<lambda>(e, os). e < length (next_nodes ns_app v)) (fst (process ns_app v objs s))" for v objs s
    by (cases v; auto simp: ns_app_def ns_hello_process_def ns_dummy_process_def ns_dummy_process2_def
        case_prod_beta Let_def list_all_iff split: option.splits if_splits)
qed (simp_all add: sched_nodes sched_name_def edges_of_def ns_app_def)

lemmas hello_nodes = hello_registry_def hs_hello_node_def hs_dummy_node_def hs_dummy_node2_def

lemma hello_registered:
  "well_registered hello_registry [''hello_node''] hello_name hs_app [Hello, Dummy]"
proof (rule well_registeredI)
  show "inj hello_name" by (rule injI) (auto simp: hello_name_def split: hd_node.splits)
  show "list_all (\<lambda>(e, os). e < length (next_nodes hs_app v)) (fst (process hs_app v objs s))" for v objs s
    by (cases v; auto simp: hs_app_def hs_hello_process_def hs_dummy_process_def
        case_prod_beta Let_def list_all_iff split: option.splits if_splits)
qed (simp_all add: hello_nodes hello_name_def edges_of_def hs_app_def)

lemmas arc_nodes = arc_registry_def ga_hello_node_def ga_dummy_node_def ga_dummy_node2_def

lemma arc_registered:
  "well_registered (arc_registry f1 f2) [''hello_node''] arc_name (ga_app f1 f2) [Hello, Dummy, Dummy2]"
proof (rule well_registeredI)
  show "inj arc_name" by (rule injI) (auto simp: arc_name_def split: hd_node.splits)
  show "list_all (\<lambda>(e, os). e < length (next_nodes (ga_app f1 f2) v)) (fst (process (ga_app f1 f2) v objs s))" for v objs s
    by (cases v; auto simp: ga_app_def ga_hello_process_def ga_dummy_process_def ga_dummy_process2_def
        case_prod_beta Let_def list_all_iff split: option.splits if_splits)
qed (simp_all add: arc_nodes arc_name_def edges_of_def ga_app_def)

lemmas private_nodes = private_registry_def gp_hello_node_def gp_feature_node_def gp_sink_node_def

lemma private_registered:
  "well_registered private_registry [''hello_node''] private_name gp_app [HelloNode, FeatureNode, SinkNode]"
proof (rule well_registeredI)
  show "inj private_name" by (rule injI) (auto simp: private_name_def split: gp_node.splits)
  show "list_all (\<lambda>(e, os). e < length (next_nodes gp_app v)) (fst (process gp_app v objs s))" for v objs s
    by (cases v; auto simp: gp_app_def hello_node_process_def feature_node_process_def sink_node_process_def
        case_prod_beta Let_def list_all_iff split: option.splits if_splits)
qed (simp_all add: private_nodes private_name_def edges_of_def gp_app_def)

lemma hs_dead_function: "hs_dummy_process2 \<notin> set (map reg_process hello_registry)"
proof -
  let ?at = "\<lambda>f. visited (snd (f [] \<lparr>visited = [], hd_count = 0\<rparr>))"
  have "?at hs_dummy_process2 = [Dummy2]" "?at hs_hello_process = [Hello]" "?at hs_dummy_process = [Dummy]"
    by (simp_all add: hs_dummy_process2_def hs_hello_process_def hs_dummy_process_def)
  then have "hs_dummy_process2 \<noteq> hs_hello_process" "hs_dummy_process2 \<noteq> hs_dummy_process" by auto
  then show ?thesis by (simp add: hello_nodes)
qed


end
