(* ===== verification/RssPrograms.thy ===== *)
theory RssPrograms
  imports Programs EchoApps Lcores
begin

text \<open>
  The two RSS programs as wholes: \<open>rss_dpdk/main.c\<close> and \<open>rss_dpdk/af_packet_rss/main.c\<close> from their
  first line on, the start-up code and the distribution of the queues of theory Programs composed
  with the receive loops of theory EchoApps, each on its own lcore, in any interleaving.
\<close>

subsection \<open>A device with several receive queues\<close>

text \<open>
  What the documentation promises of \<open>rte_eth_rx_burst\<close> on port 0: the packets at the head of the
  queue asked for, which leave it; the other queues stay as they are. \<open>unread s q\<close> are the
  packets in queue \<open>q\<close>.
\<close>

locale rx_queues = ethdev_ok nd
  for nd :: "'n ethdev" +
  fixes unread :: "'n \<Rightarrow> nat \<Rightarrow> packet list"
  assumes rx_unread: "rx_burst nd 0 q n s = (ps, s') \<Longrightarrow>
      map snd ps = take n (unread s q) \<and> unread s' = (unread s)(q := drop n (unread s q))"
begin

lemma eth_rx_unread:
  "unread (nic (snd (eth_rx nd 0 q n w))) = (unread (nic w))(q := drop n (unread (nic w) q))"
  using rx_unread[of q n "nic w"] by (cases "rx_burst nd 0 q n (nic w)") (simp add: eth_rx_def)

end

record queue_nic =
  rx_ring :: "nat \<Rightarrow> packet list"
  unused :: nat

definition queue_dev :: "queue_nic ethdev" where
  "queue_dev =
     \<lparr>rx_burst = (\<lambda>port q n s. let ps = take n (rx_ring s q) in
        (zip [unused s..<unused s + length ps] ps,
         s\<lparr>rx_ring := (rx_ring s)(q := drop n (rx_ring s q)), unused := unused s + length ps\<rparr>)),
      tx_burst = (\<lambda>port q ms s. (length ms, s))\<rparr>"

interpretation queue_dev: rx_queues queue_dev rx_ring
  by unfold_locales (auto simp: queue_dev_def Let_def)

subsection \<open>Loops on several lcores\<close>

text \<open>\<open>polling\<close>: the queues with the lcores that run the receive loop on them.\<close>

definition poll_step ::
    "(nat \<Rightarrow> ('n, 'z) world_scheme \<Rightarrow> ('n, 'z) world_scheme) \<Rightarrow> (nat \<times> nat) list \<Rightarrow> nat \<Rightarrow>
     ('n, 'z) world_scheme \<Rightarrow> ('n, 'z) world_scheme" where
  "poll_step pass polling l w =
     (case find (\<lambda>(q, k). k = l) polling of None \<Rightarrow> w | Some (q, k) \<Rightarrow> pass q w)"

definition rss_main ::
    "env \<Rightarrow> 'n ethdev \<Rightarrow> nat list \<Rightarrow> nat \<Rightarrow> (nat \<Rightarrow> nat) \<Rightarrow> nat \<Rightarrow> ('n, 'z) world_scheme \<Rightarrow> string + ('n, 'z) world_scheme" where
  "rss_main env nd workers main_lcore f n w =
     (case run_setup env rss_setup [] of
        (Exited msg, _) \<Rightarrow> Inl msg
      | (Running, _) \<Rightarrow> Inr (sched_run (poll_step (rss_lcore_rx_pass nd) (rss_polling workers main_lcore)) f w n))"

text \<open>\<open>m\<close>: the number of queues the driver reports.\<close>

definition af_main ::
    "env \<Rightarrow> 'n ethdev \<Rightarrow> u16 \<Rightarrow> nat list \<Rightarrow> nat \<Rightarrow> (nat \<Rightarrow> nat) \<Rightarrow> nat \<Rightarrow> ('n, 'z) world_scheme \<Rightarrow> string + ('n, 'z) world_scheme" where
  "af_main env nd m workers main_lcore f n w =
     (case run_setup env (af_setup (length workers + 1) m) [] of
        (Exited msg, _) \<Rightarrow> Inl msg
      | (Running, _) \<Rightarrow> Inr (sched_run (poll_step (af_lcore_rx_pass nd) (af_polling workers main_lcore m)) f w n))"

definition queue_empty :: "('n \<Rightarrow> nat \<Rightarrow> packet list) \<Rightarrow> ('n, 'z) world_scheme \<Rightarrow> nat \<Rightarrow> bool" where
  "queue_empty unread w q \<longleftrightarrow> unread (nic w) q = []"

definition drained :: "('n \<Rightarrow> nat \<Rightarrow> packet list) \<Rightarrow> (nat \<times> nat) list \<Rightarrow> ('n, 'z) world_scheme \<Rightarrow> bool" where
  "drained unread polling w \<longleftrightarrow> list_all (\<lambda>(q, l). queue_empty unread w q) polling"

definition backlog :: "('n \<Rightarrow> nat \<Rightarrow> packet list) \<Rightarrow> (nat \<times> nat) list \<Rightarrow> ('n, 'z) world_scheme \<Rightarrow> nat" where
  "backlog unread polling w = (\<Sum>q\<in>fst ` set polling. length (unread (nic w) q))"

definition next_poller :: "('n \<Rightarrow> nat \<Rightarrow> packet list) \<Rightarrow> (nat \<times> nat) list \<Rightarrow> ('n, 'z) world_scheme \<Rightarrow> nat" where
  "next_poller unread polling w =
     (case find (\<lambda>(q, l). \<not> queue_empty unread w q) polling of None \<Rightarrow> 0 | Some (q, l) \<Rightarrow> l)"

lemma find_Some_in: "find P xs = Some x \<Longrightarrow> x \<in> set xs \<and> P x"
  by (auto simp: find_Some_iff)

text \<open>A loop that frees what it takes from its queue, a burst at a time.\<close>

locale pollers =
  fixes unread :: "'n \<Rightarrow> nat \<Rightarrow> packet list"
    and pass :: "nat \<Rightarrow> ('n, 'z) world_scheme \<Rightarrow> ('n, 'z) world_scheme"
  assumes pass_balanced: "balanced w \<Longrightarrow> balanced (pass q w)"
    and pass_unread: "unread (nic (pass q w)) =
      (unread (nic w))(q := drop BURST_SIZE (unread (nic w) q))"
begin

lemma step_cases:
  assumes "distinct (map snd polling)"
  obtains "poll_step pass polling l w = w" "\<nexists>q. (q, l) \<in> set polling"
  | q where "(q, l) \<in> set polling" "poll_step pass polling l w = pass q w"
proof (cases "find (\<lambda>(q, k). k = l) polling")
  case None
  have "poll_step pass polling l w = w" by (simp add: poll_step_def None)
  moreover have "\<nexists>q. (q, l) \<in> set polling" using None by (auto simp: find_None_iff)
  ultimately show ?thesis by (rule that(1))
next
  case (Some qk)
  then obtain q where "qk = (q, l)" "(q, l) \<in> set polling" using find_Some_in[OF Some] by (cases qk) auto
  then show ?thesis using that(2)[of q] Some by (simp add: poll_step_def)
qed

lemma step_of:
  assumes "distinct (map snd polling)" and "(q, l) \<in> set polling"
  shows "poll_step pass polling l w = pass q w"
proof (rule step_cases[OF assms(1), of l w])
  fix q'
  assume "(q', l) \<in> set polling" and step: "poll_step pass polling l w = pass q' w"
  moreover have "inj_on snd (set polling)" using assms(1) by (simp add: distinct_map)
  ultimately have "q' = q" using assms(2) inj_onD[of snd "set polling" "(q', l)" "(q, l)"] by simp
  then show ?thesis using step by simp
qed (use assms(2) in blast)

lemma run_balanced:
  assumes "distinct (map snd polling)" and "balanced w"
  shows "balanced (sched_run (poll_step pass polling) f w n)"
proof (rule sched_run_keeps[where I = balanced])
  show "balanced (poll_step pass polling l u)" if "balanced u" for l u
    by (rule step_cases[OF assms(1), of l u]) (use that pass_balanced in simp_all)
qed (rule assms(2))

lemma run_others:
  assumes "distinct (map snd polling)" and "q \<notin> fst ` set polling"
  shows "unread (nic (sched_run (poll_step pass polling) f w n)) q = unread (nic w) q"
proof (rule sched_run_keeps[where I = "\<lambda>u. unread (nic u) q = unread (nic w) q"])
  show "unread (nic (poll_step pass polling l u)) q = unread (nic w) q" if "unread (nic u) q = unread (nic w) q" for l u
  proof (rule step_cases[OF assms(1), of l u])
    fix q'
    assume "(q', l) \<in> set polling" and step: "poll_step pass polling l u = pass q' u"
    then have "q' \<noteq> q" using assms(2) by force
    then show ?thesis using that by (simp add: step pass_unread)
  qed (use that in simp)
qed simp

lemma pass_empty:
  assumes "queue_empty unread w q"
  shows "unread (nic (pass q w)) = unread (nic w)"
  using assms by (simp add: pass_unread queue_empty_def fun_eq_iff)

lemma pass_backlog:
  assumes "(q, l) \<in> set polling" and "\<not> queue_empty unread w q"
  shows "backlog unread polling (pass q w) < backlog unread polling w"
  unfolding backlog_def
proof (rule sum_strict_mono_ex1)
  show "\<forall>r\<in>fst ` set polling. length (unread (nic (pass q w)) r) \<le> length (unread (nic w) r)"
    by (simp add: pass_unread)
  have "length (drop BURST_SIZE (unread (nic w) q)) < length (unread (nic w) q)"
    using assms(2) by (simp add: queue_empty_def BURST_SIZE_def)
  then show "\<exists>r\<in>fst ` set polling. length (unread (nic (pass q w)) r) < length (unread (nic w) r)"
    using assms(1) by (intro bexI[of _ q]) (auto simp: pass_unread rev_image_eqI)
qed simp

lemma next_poller_busy:
  assumes "\<not> drained unread polling w"
  obtains q where "(q, next_poller unread polling w) \<in> set polling" "\<not> queue_empty unread w q"
proof (cases "find (\<lambda>(q, l). \<not> queue_empty unread w q) polling")
  case None
  then show ?thesis using assms by (auto simp: drained_def list_all_iff find_None_iff)
next
  case (Some ql)
  obtain q l where ql: "ql = (q, l)" by fastforce
  then have "(q, l) \<in> set polling" "\<not> queue_empty unread w q" "next_poller unread polling w = l"
    using find_Some_in[OF Some] by (simp_all add: next_poller_def Some ql)
  then show ?thesis using that by blast
qed

lemma progress:
  assumes "distinct (map snd polling)"
  shows "fair_progress (poll_step pass polling) (\<lambda>_. True) (drained unread polling)
    (backlog unread polling) (next_poller unread polling)"
proof
  fix w :: "('n, 'z) world_scheme" and l :: nat
  assume busy: "\<not> drained unread polling w"
  then obtain q where q: "(q, next_poller unread polling w) \<in> set polling" "\<not> queue_empty unread w q"
    by (rule next_poller_busy)
  show "backlog unread polling (poll_step pass polling (next_poller unread polling w) w) < backlog unread polling w"
    using pass_backlog[OF q] step_of[OF assms q(1)] by simp
  show "backlog unread polling (poll_step pass polling l w) < backlog unread polling w \<or>
      backlog unread polling (poll_step pass polling l w) = backlog unread polling w \<and>
      next_poller unread polling (poll_step pass polling l w) = next_poller unread polling w"
  proof (rule step_cases[OF assms, of l w])
    fix r
    assume r: "(r, l) \<in> set polling" and step: "poll_step pass polling l w = pass r w"
    show ?thesis
    proof (cases "queue_empty unread w r")
      case True
      then show ?thesis
        using pass_empty[OF True] by (simp add: step backlog_def next_poller_def queue_empty_def)
    next
      case False
      then show ?thesis using pass_backlog[OF r False] step by simp
    qed
  qed simp
qed simp

lemma drains:
  assumes "distinct (map snd polling)" and "fair f"
  shows "\<exists>n. \<forall>q\<in>fst ` set polling. queue_empty unread (sched_run (poll_step pass polling) f w n) q"
  using fair_progress.reaches_final[OF progress[OF assms(1)] assms(2), of w]
  by (fastforce simp: drained_def list_all_iff)

end

lemma rss_pollers:
  assumes "rx_queues nd unread"
  shows "pollers unread (rss_lcore_rx_pass nd)"
proof
  fix q and w :: "('a, 'b) world_scheme"
  show "balanced w \<Longrightarrow> balanced (rss_lcore_rx_pass nd q w)"
    using rss_rx.balanced_run[where w = w and nd = nd and q = q and k = 1] by simp
  show "unread (nic (rss_lcore_rx_pass nd q w)) = (unread (nic w))(q := drop BURST_SIZE (unread (nic w) q))"
    using rx_queues.eth_rx_unread[OF assms, of q BURST_SIZE w] by (simp add: rss_lcore_rx_pass_def case_prod_beta frame)
qed

lemma af_pollers:
  assumes "rx_queues nd unread"
  shows "pollers unread (af_lcore_rx_pass nd)"
proof
  fix q and w :: "('a, 'b) world_scheme"
  show "balanced w \<Longrightarrow> balanced (af_lcore_rx_pass nd q w)"
    using af_rx.balanced_run[where w = w and nd = nd and q = q and k = 1] by simp
  show "unread (nic (af_lcore_rx_pass nd q w)) = (unread (nic w))(q := drop BURST_SIZE (unread (nic w) q))"
    using rx_queues.eth_rx_unread[OF assms, of q BURST_SIZE w] by (simp add: af_lcore_rx_pass_def case_prod_beta frame)
qed

sublocale rx_queues \<subseteq> rss: pollers unread "rss_lcore_rx_pass nd"
  by (rule rss_pollers) (rule rx_queues_axioms)

sublocale rx_queues \<subseteq> af: pollers unread "af_lcore_rx_pass nd"
  by (rule af_pollers) (rule rx_queues_axioms)

subsection \<open>The programs\<close>

lemma rss_polling_lcores: "distinct (main_lcore # workers) \<Longrightarrow> distinct (map snd (rss_polling workers main_lcore))"
  by (auto simp: rss_polling_def launch_workers_eq[OF le0] map_snd_zip_take dest: in_set_takeD)

lemma af_polling_lcores: "distinct (main_lcore # workers) \<Longrightarrow> distinct (map snd (af_polling workers main_lcore m))"
  by (auto simp: af_polling_def Let_def launch_workers_eq[OF le0] map_snd_zip_take dest: in_set_takeD)

lemma rss_polled: "fst ` set (rss_polling workers main_lcore) = {..<min RX_QUEUES (length workers + 1)}"
  unfolding rss_polling_def launch_workers_eq[OF le0] prod.case add_0 diff_zero polled_queues ..

lemma af_polled: "fst ` set (af_polling workers main_lcore m) = {..<unat (af_rx_queues (length workers + 1) m)}"
proof -
  let ?n = "unat (af_rx_queues (length workers + 1) m)"
  have "?n \<le> length workers + 1" using af_rx_queues_le[of workers m] by simp
  then have "min ?n (length workers + 1) = ?n" by simp
  then show ?thesis
    unfolding af_polling_def Let_def launch_workers_eq[OF le0] prod.case add_0 diff_zero polled_queues by simp
qed

text \<open>
  C14. The RSS programs from their first line on, with any device that serves its queues in order, any
  results of the start-up calls and any interleaving of the lcores. A program exits with the message of
  a failed call, or it polls a port that is ready, and then every packet received has been freed exactly
  once. \<open>rss_dpdk/main.c\<close> never touches the queues beyond the number of lcores, although the port
  spreads packets over four; under a fair schedule it empties the others. \<open>af_packet_rss\<close> leaves no queue
  out: under a fair schedule it empties every queue it has configured.
\<close>

theorem rss_programs:
  assumes "rx_queues nd unread" and "balanced w" and "distinct (main_lcore # workers)"
  shows "(case rss_main env nd workers main_lcore f n w of
      Inl msg \<Rightarrow> fst (run_setup env rss_setup []) = Exited msg
    | Inr u \<Rightarrow> ready 0 (snd (run_setup env rss_setup [])) \<and> balanced u \<and>
        (\<forall>q\<ge>min RX_QUEUES (length workers + 1). unread (nic u) q = unread (nic w) q)) \<and>
    (case af_main env nd m workers main_lcore f n w of
      Inl msg \<Rightarrow> fst (run_setup env (af_setup (length workers + 1) m) []) = Exited msg
    | Inr u \<Rightarrow> ready 0 (snd (run_setup env (af_setup (length workers + 1) m) [])) \<and> balanced u) \<and>
    (fair f \<longrightarrow>
      (\<exists>n. \<forall>u. rss_main env nd workers main_lcore f n w = Inr u \<longrightarrow>
        (\<forall>q<min RX_QUEUES (length workers + 1). unread (nic u) q = [])) \<and>
      (\<exists>n. \<forall>u. af_main env nd m workers main_lcore f n w = Inr u \<longrightarrow>
        (\<forall>q<unat (af_rx_queues (length workers + 1) m). unread (nic u) q = [])))"
proof (intro conjI impI)
  note rss = rss_pollers[OF assms(1)] and af = af_pollers[OF assms(1)]
  note rl = rss_polling_lcores[OF assms(3)] and al = af_polling_lcores[OF assms(3)]
  have checked: "(''rss_dpdk'', rss_setup) \<in> set checked_programs" by (simp add: checked_programs_def)
  have others: "unread (nic (sched_run (poll_step (rss_lcore_rx_pass nd) (rss_polling workers main_lcore)) f w n)) q =
      unread (nic w) q" if "min RX_QUEUES (length workers + 1) \<le> q" for q
    by (rule pollers.run_others[OF rss rl]) (simp only: rss_polled lessThan_iff not_less that)
  show "case rss_main env nd workers main_lcore f n w of
      Inl msg \<Rightarrow> fst (run_setup env rss_setup []) = Exited msg
    | Inr u \<Rightarrow> ready 0 (snd (run_setup env rss_setup [])) \<and> balanced u \<and>
        (\<forall>q\<ge>min RX_QUEUES (length workers + 1). unread (nic u) q = unread (nic w) q)"
    using pollers.run_balanced[OF rss rl assms(2)] others fail_stop_sound[OF checked_fail_stop[OF checked]]
    by (cases "run_setup env rss_setup []"; cases "fst (run_setup env rss_setup [])") (auto simp: rss_main_def)
  show "case af_main env nd m workers main_lcore f n w of
      Inl msg \<Rightarrow> fst (run_setup env (af_setup (length workers + 1) m) []) = Exited msg
    | Inr u \<Rightarrow> ready 0 (snd (run_setup env (af_setup (length workers + 1) m) [])) \<and> balanced u"
    using pollers.run_balanced[OF af al assms(2)] fail_stop_sound[OF af_fail_stop]
    by (cases "run_setup env (af_setup (length workers + 1) m) []";
        cases "fst (run_setup env (af_setup (length workers + 1) m) [])") (auto simp: af_main_def)
  assume "fair f"
  from pollers.drains[OF rss rl this, where w = w] obtain n where n:
    "\<forall>q<min RX_QUEUES (length workers + 1).
       queue_empty unread (sched_run (poll_step (rss_lcore_rx_pass nd) (rss_polling workers main_lcore)) f w n) q"
    unfolding rss_polled by blast
  then show "\<exists>n. \<forall>u. rss_main env nd workers main_lcore f n w = Inr u \<longrightarrow>
      (\<forall>q<min RX_QUEUES (length workers + 1). unread (nic u) q = [])"
    by (intro exI[of _ n]) (auto simp: rss_main_def queue_empty_def split: prod.splits outcome.splits)
  from pollers.drains[OF af al \<open>fair f\<close>, where w = w] obtain k where k:
    "\<forall>q<unat (af_rx_queues (length workers + 1) m).
       queue_empty unread (sched_run (poll_step (af_lcore_rx_pass nd) (af_polling workers main_lcore m)) f w k) q"
    unfolding af_polled by blast
  then show "\<exists>n. \<forall>u. af_main env nd m workers main_lcore f n w = Inr u \<longrightarrow>
      (\<forall>q<unat (af_rx_queues (length workers + 1) m). unread (nic u) q = [])"
    by (intro exI[of _ k]) (auto simp: af_main_def queue_empty_def split: prod.splits outcome.splits)
qed

text \<open>Two workers and the main lcore, one packet in each of the four queues.\<close>

definition four_queues :: "queue_nic world" where
  "four_queues = start_world \<lparr>rx_ring = (\<lambda>q. if q < 4 then [demo_packet] else []), unused = 100\<rparr>"

theorem rss_programs_witness:
  "\<exists>n u. rss_main all_ok queue_dev [1, 2] 0 every_lcore n four_queues = Inr u \<and> balanced u \<and>
     (\<forall>q<3. rx_ring (nic u) q = []) \<and> rx_ring (nic u) 3 = [demo_packet]"
proof -
  have b: "balanced four_queues" by (simp add: four_queues_def)
  have d: "distinct (0 # [1, 2 :: nat])" by simp
  note run = rss_programs[OF queue_dev.rx_queues_axioms b d, where env = all_ok and f = every_lcore and m = 2]
  have r: "fst (run_setup all_ok rss_setup []) = Running"
    by (simp add: rss_setup_def RX_QUEUES_def all_ok_def stops_def upt_rec)
  obtain n where n: "\<forall>u. rss_main all_ok queue_dev [1, 2] 0 every_lcore n four_queues = Inr u \<longrightarrow>
      (\<forall>q<min RX_QUEUES (length [1, 2 :: nat] + 1). rx_ring (nic u) q = [])"
    using run every_lcore_fair by blast
  obtain u where u: "rss_main all_ok queue_dev [1, 2] 0 every_lcore n four_queues = Inr u"
    using r by (cases "run_setup all_ok rss_setup []") (auto simp: rss_main_def)
  have "balanced u \<and> (\<forall>q\<ge>min RX_QUEUES (length [1, 2 :: nat] + 1). rx_ring (nic u) q = rx_ring (nic four_queues) q)"
    using run[where n = n] unfolding u by simp
  moreover have "rx_ring (nic four_queues) 3 = [demo_packet]" by (simp add: four_queues_def)
  ultimately show ?thesis using u n by (intro exI[of _ n] exI[of _ u]) (simp add: RX_QUEUES_def)
qed

end
