(* ===== verification/PortPrograms.thy ===== *)
theory PortPrograms
  imports RssPrograms FrameCodec
begin

text \<open>
  Programs with one port as wholes, from their first line on: the start-up code of theory Programs
  composed with the receive loops of theory EchoApps on a device that serves a queue; and
  \<open>ports/packet_parsing\<close> with what it prints, the decoder of theory PacketParser applied to each packet.
\<close>

subsection \<open>A port\<close>

text \<open>Transmitting does not touch the receive queues.\<close>

locale port_device = rx_queues nd unread
  for nd :: "'n ethdev" and unread :: "'n \<Rightarrow> nat \<Rightarrow> packet list" +
  assumes tx_unread: "unread (snd (tx_burst nd p q ms s)) = unread s"
begin

lemma eth_tx_unread: "unread (nic (snd (eth_tx nd p q ms w))) = unread (nic w)"
  by (simp add: eth_tx_def case_prod_beta tx_unread)

lemma tx_or_free_unread: "unread (nic (tx_or_free nd p q ms w)) = unread (nic w)"
  by (simp add: tx_or_free_def case_prod_beta frame eth_tx_unread)

lemma swap_unread: "unread (nic (fold (swap_handler nd) ms w)) = unread (nic w)"
  by (induction ms arbitrary: w) (simp_all add: swap_handler_def case_prod_beta frame eth_tx_unread)

lemma rx_count: "length (fst (eth_rx nd 0 q n w)) = min n (length (unread (nic w) q))"
  using rx_unread[of q n "nic w"]
  by (cases "rx_burst nd 0 q n (nic w)") (auto simp: eth_rx_def dest: arg_cong[of _ _ length])

lemma rx_contents: "map (mem (snd (eth_rx nd 0 q n w))) (fst (eth_rx nd 0 q n w)) = take n (unread (nic w) q)"
proof -
  obtain ps s where rx: "rx_burst nd 0 q n (nic w) = (ps, s)" by fastforce
  have "distinct (map fst ps)" using rx_distinct[of 0 q n "nic w"] by (simp add: rx)
  then have "map (fold (\<lambda>(m, p) f. f(m := p)) (zip (map fst ps) (map snd ps)) (mem w)) (map fst ps) = map snd ps"
    by (rule stored_read) simp
  then have "map (fold (\<lambda>(m, p) f. f(m := p)) ps (mem w)) (map fst ps) = map snd ps"
    by (simp only: zip_map_fst_snd)
  then show ?thesis using rx_unread[OF rx] by (simp add: eth_rx_def rx)
qed

end

interpretation queue_port: port_device queue_dev rx_ring
  by unfold_locales (simp add: queue_dev_def)

text \<open>A loop that takes a burst from queue 0 and disposes of it.\<close>

locale queue_loop =
  fixes unread :: "'n \<Rightarrow> nat \<Rightarrow> packet list"
    and pass :: "('n, 'z) world_scheme \<Rightarrow> ('n, 'z) world_scheme"
  assumes loop_balanced: "balanced w \<Longrightarrow> balanced (pass w)"
    and loop_unread: "unread (nic (pass w)) = (unread (nic w))(0 := drop 32 (unread (nic w) 0))"
    and loop_got: "length (got (pass w)) = length (got w) + min 32 (length (unread (nic w) 0))"
begin

lemma run_unread: "unread (nic ((pass ^^ k) w)) 0 = drop (32 * k) (unread (nic w) 0)"
  by (induction k) (simp_all add: loop_unread)

lemma run_got: "length (got ((pass ^^ k) w)) = length (got w) + min (32 * k) (length (unread (nic w) 0))"
  by (induction k) (auto simp: loop_got run_unread)

lemma run_balanced: "balanced w \<Longrightarrow> balanced ((pass ^^ k) w)"
  by (induction k) (simp_all add: loop_balanced)

end

context port_device begin

lemma tun_echo_queue: "queue_loop unread (tun_echo_pass nd)"
proof
  fix w :: "('n, 'z) world_scheme"
  show "balanced w \<Longrightarrow> balanced (tun_echo_pass nd w)" using tun_echo.balanced_run[where k = 1] by simp
  show "unread (nic (tun_echo_pass nd w)) = (unread (nic w))(0 := drop 32 (unread (nic w) 0))"
    using eth_rx_unread[of 0 BURST_SIZE w] by (simp add: tun_echo_pass_def case_prod_beta tx_or_free_unread BURST_SIZE_def)
  show "length (got (tun_echo_pass nd w)) = length (got w) + min 32 (length (unread (nic w) 0))"
    using rx_count[of 0 BURST_SIZE w] by (auto simp: tun_echo_pass_def case_prod_beta frame BURST_SIZE_def)
qed

lemma rx_tx_queue: "queue_loop unread (run_rx_tx_pass nd 0)"
proof
  fix w :: "('n, 'z) world_scheme"
  show "balanced w \<Longrightarrow> balanced (run_rx_tx_pass nd 0 w)" using rx_tx.balanced_run[where k = 1] by simp
  show "unread (nic (run_rx_tx_pass nd 0 w)) = (unread (nic w))(0 := drop 32 (unread (nic w) 0))"
    using eth_rx_unread[of 0 BURST_SIZE w] by (simp add: run_rx_tx_pass_def case_prod_beta tx_or_free_unread BURST_SIZE_def)
  show "length (got (run_rx_tx_pass nd 0 w)) = length (got w) + min 32 (length (unread (nic w) 0))"
    using rx_count[of 0 BURST_SIZE w] by (auto simp: run_rx_tx_pass_def case_prod_beta frame BURST_SIZE_def)
qed

lemma mempool_queue:
  "queue_loop unread (mempool_rx_tx_pass nd 0 :: ('n, 'z) world_scheme \<Rightarrow> ('n, 'z) world_scheme)"
proof -
  have "mempool_rx_tx_pass nd 0 w = run_rx_tx_pass nd 0 w" for w :: "('n, 'z) world_scheme"
    by (simp add: mempool_rx_tx_pass_def run_rx_tx_pass_def)
  then show ?thesis using rx_tx_queue by (simp add: queue_loop_def)
qed

lemma swap_addr_queue: "queue_loop unread (swap_addr_pass nd)"
proof
  fix w :: "('n, 'z) world_scheme"
  show "balanced w \<Longrightarrow> balanced (swap_addr_pass nd w)" using swap_addr.balanced_run[where k = 1] by simp
  show "unread (nic (swap_addr_pass nd w)) = (unread (nic w))(0 := drop 32 (unread (nic w) 0))"
    using eth_rx_unread[of 0 BURST_SIZE w] by (simp add: swap_addr_pass_def case_prod_beta swap_unread BURST_SIZE_def)
  show "length (got (swap_addr_pass nd w)) = length (got w) + min 32 (length (unread (nic w) 0))"
    using rx_count[of 0 BURST_SIZE w] by (auto simp: swap_addr_pass_def case_prod_beta frame swap.got_all BURST_SIZE_def)
qed

lemma meter_queue: "queue_loop unread (meter_rx_pass nd)"
proof
  fix w :: "('n, 'z) world_scheme"
  show "balanced w \<Longrightarrow> balanced (meter_rx_pass nd w)" using meter_rx.balanced_run[where k = 1] by simp
  show "unread (nic (meter_rx_pass nd w)) = (unread (nic w))(0 := drop 32 (unread (nic w) 0))"
    using eth_rx_unread[of 0 BURST_SIZE w] by (simp add: meter_rx_pass_def case_prod_beta frame BURST_SIZE_def)
  show "length (got (meter_rx_pass nd w)) = length (got w) + min 32 (length (unread (nic w) 0))"
    using rx_count[of 0 BURST_SIZE w] by (auto simp: meter_rx_pass_def case_prod_beta frame BURST_SIZE_def)
qed

end

sublocale port_device \<subseteq> tun_echo_port: queue_loop unread "tun_echo_pass nd"
  by (rule tun_echo_queue)

sublocale port_device \<subseteq> rx_tx_port: queue_loop unread "run_rx_tx_pass nd 0"
  by (rule rx_tx_queue)

sublocale port_device \<subseteq> mempool_port: queue_loop unread "mempool_rx_tx_pass nd 0"
  by (rule mempool_queue)

sublocale port_device \<subseteq> swap_addr_port: queue_loop unread "swap_addr_pass nd"
  by (rule swap_addr_queue)

sublocale port_device \<subseteq> meter_port: queue_loop unread "meter_rx_pass nd"
  by (rule meter_queue)

subsection \<open>The programs\<close>

definition port_main ::
    "env \<Rightarrow> step list \<Rightarrow> (('n, 'z) world_scheme \<Rightarrow> ('n, 'z) world_scheme) \<Rightarrow> nat \<Rightarrow> ('n, 'z) world_scheme \<Rightarrow>
     string + ('n, 'z) world_scheme" where
  "port_main env ps pass k w =
     (case run_setup env ps [] of (Exited msg, _) \<Rightarrow> Inl msg | (Running, _) \<Rightarrow> Inr ((pass ^^ k) w))"

definition port_programs ::
    "'n ethdev \<Rightarrow> (string \<times> step list \<times> (('n, 'z) world_scheme \<Rightarrow> ('n, 'z) world_scheme)) list" where
  "port_programs nd =
     [(''ports/packet_parsing'', packet_parsing_setup, run_rx_tx_pass nd 0),
      (''ports/port_mempool'', port_mempool_setup, mempool_rx_tx_pass nd 0),
      (''meter_dpdk'', meter_setup, meter_rx_pass nd),
      (''ports/begin'', tun_echo_setup, tun_echo_pass nd),
      (''tranmit_packet/swap_addr'', swap_addr_setup, swap_addr_pass nd)]"

lemma port_programs_loop:
  assumes "port_device nd unread" and "(name, ps, pass) \<in> set (port_programs nd)"
  shows "queue_loop unread pass"
  using assms(2) port_device.tun_echo_queue[OF assms(1)] port_device.rx_tx_queue[OF assms(1)]
    port_device.mempool_queue[OF assms(1)] port_device.swap_addr_queue[OF assms(1)] port_device.meter_queue[OF assms(1)]
  by (auto simp: port_programs_def)

lemma port_programs_checked:
  assumes "(name, ps, pass) \<in> set (port_programs nd)" and "name \<in> fst ` set checked_programs"
  shows "fail_stop 0 ps"
proof -
  have "(name, ps) \<in> set checked_programs" using assms by (auto simp: port_programs_def checked_programs_def)
  then show ?thesis by (rule checked_fail_stop)
qed

text \<open>
  C16. The programs with one port and one queue, from their first line on, with any device that serves
  its queue in order, whatever it accepts for transmission, and any results of the start-up calls. A
  program exits with the message of a failed call; or after \<open>k\<close> passes it has received the first
  \<open>32 * k\<close> packets of queue 0, or all of them if there are fewer, left the others in the queue, and
  transmitted or freed each one it received exactly once; and the port of \<open>packet_parsing\<close>,
  \<open>port_mempool\<close> and \<open>meter_dpdk\<close>, whose start-up is checked, is ready.
\<close>

theorem one_port_programs:
  assumes "port_device nd unread" and "balanced w" and "(name, ps, pass) \<in> set (port_programs nd)"
  shows "case port_main env ps pass k w of
      Inl msg \<Rightarrow> fst (run_setup env ps []) = Exited msg
    | Inr u \<Rightarrow> balanced u \<and> unread (nic u) 0 = drop (32 * k) (unread (nic w) 0) \<and>
        length (got u) = length (got w) + min (32 * k) (length (unread (nic w) 0)) \<and>
        (name \<in> fst ` set checked_programs \<longrightarrow> ready 0 (snd (run_setup env ps [])))"
proof -
  note loop = port_programs_loop[OF assms(1,3)]
  have "name \<in> fst ` set checked_programs \<longrightarrow> fst (run_setup env ps []) = Running \<longrightarrow> ready 0 (snd (run_setup env ps []))"
    using fail_stop_sound[OF port_programs_checked[OF assms(3)]] by (metis prod.collapse)
  then show ?thesis
    using queue_loop.run_balanced[OF loop assms(2), of k] queue_loop.run_unread[OF loop, of k w]
      queue_loop.run_got[OF loop, of k w]
    by (cases "run_setup env ps []"; cases "fst (run_setup env ps [])") (simp_all add: port_main_def)
qed

text \<open>Forty packets in queue 0.\<close>

definition forty :: "queue_nic world" where
  "forty = start_world \<lparr>rx_ring = (\<lambda>q. if q = 0 then replicate 40 demo_packet else []), unused = 100\<rparr>"

theorem one_port_programs_witness:
  "\<exists>u. port_main all_ok meter_setup (meter_rx_pass queue_dev) 1 forty = Inr u \<and> balanced u \<and>
     rx_ring (nic u) 0 = replicate 8 demo_packet \<and> length (got u) = 32"
proof -
  have b: "balanced forty" by (simp add: forty_def)
  have m: "(''meter_dpdk'', meter_setup, meter_rx_pass queue_dev) \<in> set (port_programs queue_dev)"
    by (simp add: port_programs_def)
  have "fst (run_setup all_ok meter_setup []) = Running"
    by (simp add: meter_setup_def meter_port_setup_def meter_objects_def all_ok_def stops_def)
  then obtain u where u: "port_main all_ok meter_setup (meter_rx_pass queue_dev) 1 forty = Inr u"
    by (cases "run_setup all_ok meter_setup []") (auto simp: port_main_def)
  show ?thesis
    using one_port_programs[OF queue_port.port_device_axioms b m, where env = all_ok and k = 1] u
    by (simp add: forty_def start_world_def)
qed

subsection \<open>What \<open>packet_parsing\<close> prints\<close>

text \<open>
  \<open>Received\<close> is the line that opens a burst; each packet has the lines of \<open>parse_packet\<close> and
  then the line with its index in the burst and its length.
\<close>

datatype parsing_line = Received nat | Parsed out_line | PacketLen nat nat

definition burst_lines :: "byteorder \<Rightarrow> packet list \<Rightarrow> parsing_line list" where
  "burst_lines bo ps =
     (if ps = [] then []
      else Received (length ps) #
        concat (map (\<lambda>(i, p). map Parsed (ports_parse_packet bo (bytes p)) @ [PacketLen i (data_len p)])
          (enumerate 0 ps)))"

definition parsing_pass ::
    "byteorder \<Rightarrow> 'n ethdev \<Rightarrow> ('n, 'z) world_scheme \<times> parsing_line list \<Rightarrow>
     ('n, 'z) world_scheme \<times> parsing_line list" where
  "parsing_pass bo nd st =
     (case st of (w, out) \<Rightarrow>
        case eth_rx nd 0 0 BURST_SIZE w of (bufs, w) \<Rightarrow>
          if bufs = [] then (w, out)
          else (tx_or_free nd 0 0 bufs w, out @ burst_lines bo (map (mem w) bufs)))"

definition packet_parsing_main ::
    "env \<Rightarrow> byteorder \<Rightarrow> 'n ethdev \<Rightarrow> nat \<Rightarrow> ('n, 'z) world_scheme \<Rightarrow>
     string + ('n, 'z) world_scheme \<times> parsing_line list" where
  "packet_parsing_main env bo nd k w =
     (case run_setup env packet_parsing_setup [] of
        (Exited msg, _) \<Rightarrow> Inl msg
      | (Running, _) \<Rightarrow> Inr ((parsing_pass bo nd ^^ k) (w, [])))"

definition nth_burst :: "nat \<Rightarrow> 'a list \<Rightarrow> 'a list" where
  "nth_burst j xs = take 32 (drop (32 * j) xs)"

text \<open>What a burst of frames should look like.\<close>

definition reported :: "(packet \<times> frame) list \<Rightarrow> parsing_line list" where
  "reported pfs =
     (if pfs = [] then []
      else Received (length pfs) #
        concat (map (\<lambda>(i, p, f). map Parsed (shown_frame f) @ [PacketLen i (data_len p)]) (enumerate 0 pfs)))"

context port_device begin

lemma parsing_pass_eq:
  "parsing_pass bo nd (w, out) = (run_rx_tx_pass nd 0 w, out @ burst_lines bo (take 32 (unread (nic w) 0)))"
  using rx_contents[of 0 BURST_SIZE w]
  by (auto simp: parsing_pass_def run_rx_tx_pass_def case_prod_beta BURST_SIZE_def burst_lines_def)

lemma parsing_run:
  "(parsing_pass bo nd ^^ k) (w, []) =
     ((run_rx_tx_pass nd 0 ^^ k) w, concat (map (\<lambda>j. burst_lines bo (nth_burst j (unread (nic w) 0))) [0..<k]))"
  by (induction k) (simp_all add: parsing_pass_eq rx_tx_port.run_unread nth_burst_def)

end

lemma burst_reported:
  assumes "byteorder_ok bo"
    and "list_all (\<lambda>(p, f). wf_frame f \<and> holds (bytes p) 0 (encode f) \<and> length (encode f) \<le> data_len p) pfs"
  shows "burst_lines bo (map fst pfs) = reported pfs"
proof -
  have line: "ports_parse_packet bo (bytes p) = shown_frame f" if "(p, f) \<in> set pfs" for p f
    using that assms(2) parse_encoded[OF assms(1)] by (auto simp: list_all_iff ports_parse_packet_def)
  have "enumerate n (map fst pfs) = map (\<lambda>(i, p, f). (i, p)) (enumerate n pfs)" for n
    by (induction pfs arbitrary: n) auto
  moreover have "(p, f) \<in> set pfs" if "(i, p, f) \<in> set (enumerate 0 pfs)" for i p f
    using that by (auto simp: enumerate_eq_zip dest: set_zip_rightD)
  ultimately show ?thesis
    unfolding burst_lines_def reported_def
    by (auto simp: comp_def case_prod_beta line intro!: arg_cong[of _ _ concat] map_cong)
qed


text \<open>A frame alone in the queue.\<close>

definition query_queue :: "queue_nic world" where
  "query_queue = start_world
     \<lparr>rx_ring = (\<lambda>q. if q = 0 then [packet_of_frame tagged_query] else []), unused = 100\<rparr>"


end
