(* ===== verification/Spec2Isabelle.thy ===== *)
theory Spec2Isabelle
  imports FeatureArc EchoApps StaticNat ControlData ThreadPipeline Programs UdpBuild MacLearning Lpm
    Reorder Acl GraphPackets GraphDemos
    RingIpc RingPrograms Handshake MbufOps Telemetry EventPrograms ReorderSample
    GraphPrograms GraphContext StartUp Frontend MessageSample Lcores Reports
    FrameCodec VhostLink Launches GraphRegistry RssPrograms PortPrograms
begin

text \<open>
  A verification library for the DPDK example programs of this repository.

  \<^bold>\<open>The program.\<close> The repository is a collection of independent C programs, one directory
  each, on top of the DPDK libraries. A program sets up a pool of packet buffers and an
  Ethernet port and then polls the port in an endless loop: it inspects, rewrites, classifies,
  routes, reorders, queues, sends back, or drops what it receives. Some spread the work over
  threads, processes or the nodes of a graph, which talk over rings, messages, event devices or
  graph edges. The programs share no code, but most of them share the shape of the loop and the
  obligation that goes with it: each buffer received must be transmitted or freed, once.

  \<^bold>\<open>Parameters.\<close> DPDK itself is not under src/. Each of its interfaces is an argument of
  the definitions, a record of functions over a state of any type, and what its documentation
  says of them is a locale: \<open>ethdev_ok\<close> (bursts of a port), \<open>byteorder_ok\<close>, \<open>ipv4_cksum_ok\<close>,
  \<open>ring_ok\<close>, \<open>heap_ok\<close> and \<open>pool_ok\<close>, \<open>mbuf_ok\<close>, \<open>hash_ok\<close>, \<open>lpm_ok\<close>, \<open>acl_ok\<close>, \<open>reorder_ok\<close> and
  \<open>reorder_window\<close>, \<open>rx_queues\<close>, \<open>event_ok\<close> and \<open>event_eager\<close>. Each of them is interpreted on an executable
  instance (\<open>script_dev\<close>, \<open>le_host\<close>, \<open>fifo_ring\<close>, \<open>list_heap\<close>, \<open>plain_mbuf\<close>, \<open>fifo_device\<close>, ...), on
  which the witnesses run. Locales also carry what the programs have in common:
  \<open>leak_free_loop\<close> (a pass disposes of all it received), packet graphs, and progress under a
  schedule (\<open>can_progress\<close>, \<open>fair_progress\<close>), interpreted on or instantiated with the programs'
  own definitions.

  \<^bold>\<open>Conventions.\<close> A definition is one pass of a program's loop, one step of a thread, one
  node function, or one C function, with the source's name where it is free. Machine integers
  are words of their width. A buffer is its address; \<open>got\<close>, \<open>sent\<close> and \<open>freed\<close> of the \<open>world\<close> are
  the ledger of what the driver and the program did with it, and \<open>balanced\<close> says that it adds
  up. Failures are values: \<open>Inl\<close> of an exit, \<open>fault\<close> for an access that C leaves undefined,
  a \<open>Fault\<close> counter for a dereferenced \<open>NULL\<close>. Console output is a value where it says
  something about packets, and left out otherwise.

  \<^bold>\<open>Theories and sources.\<close>
  \<^item> Prelude, Headers, Ethdev, Ring, Processes: integers, packet bytes and header fields, the
    device and the ledger, rings, schedules and the heap.
  \<^item> FeatureArc (feature_arc/sample): the arrays of nodes and features; \<open>feature_arc_rebuild\<close>
    refines an abstract chain of the enabled features.
  \<^item> EchoApps (ports, tranmit_packet/swap_addr, virtu_vhost_ipc, meter_dpdk, rss_dpdk,
    rxtx_callbacks): the loops that send back or drop; outcome and balance of each pass.
  \<^item> StaticNat (NAT/static_nat): header rewriting on bytes, checksum, the loop.
  \<^item> PacketParser (threaded_project/parser.c, packet_parsing.c), UdpBuild (simple_tx.c): the
    decoder, what it reads, and the round trip with the builder. FrameCodec: structured frames and
    their encoding on the wire, against which the decoder and the classifier of ControlData are proved.
  \<^item> ControlData (control_data_segregation): the classifier against a reference definition; two
    rings, order and conservation over any run.
  \<^item> ThreadPipeline (thread_parsing/threaded_project, nic_stats/sample): three threads and two
    rings under any interleaving; order, counters, shutdown.
  \<^item> MacLearning (l2_forwarding, hashing), Lpm (longest_prefix_match_lpm), Acl (ACL): tables,
    keys and rules; the switch refines an abstract learning switch, the router and the filters
    dispose of packets as the tables say.
  \<^item> Reorder, ReorderSample (reordering): numbering and the reorder buffer.
  \<^item> Graph, GraphPackets, GraphDemos (graph, feature_arc/graph_arc): walks that visit pending
    nodes in any order, the node functions, conservation of packets, termination of walks.
    GraphRegistry: the nodes as they are registered by name, and that the library builds from
    them the graphs of the model.
  \<^item> RingIpc, RingPrograms, Handshake (inter_process_comm, rings, practice/ring.c): processes as
    step functions over shared heap and rings; conservation, and liveness under fair schedules.
  \<^item> MbufOps (mempool_membuff, packet_change): operations that grow and shrink buffers, with the
    type invariant of the buffer structure.
  \<^item> Events, EventPrograms (eventdev, inter_process_comm/eventdev): event devices, delivery,
    order within a flow, set-up.
  \<^item> Telemetry (telementry): counters without locks, and the handlers that report them.
  \<^item> MessageSample (inter_process_comm/sample_rte_mp), Lcores and Launches (lcore,
    practice/sample.c), Frontend (virtu_vhost_ipc/frontend.c): a message that may come too
    early, launches that are waited for or not, and a send loop that leaks what is refused.
  \<^item> VhostLink: frontend and backend of virtu_vhost_ipc as two processes on a link with bounded
    queues, call by call; order, contents, losses, and the return of every greeting.
  \<^item> Reports (mk_buff_info.c, nic_stats/sample/main.c): what the printing functions print.
  \<^item> Setup, Programs: the start-up sequence of each program and which of them reach the loop
    only with a port that works; StartUp: the same for rings, tables and pools, and the loops in
    which a secondary process waits for a ring.
  \<^item> Arguments, WholePrograms, GraphPrograms, GraphContext (ACL/l2fwd_acl, graph,
    feature_arc/graph_arc, graph_private_context): command lines, and programs from their first
    line to their last, start-up composed with the loop. RssPrograms: the same for the two RSS
    programs, whose queues are polled by several lcores at once. PortPrograms: the same for the
    programs with one port, and packet_parsing with all it prints.

  \<^bold>\<open>What the lemmas show.\<close> Per component: the outcome of one pass on every branch; an
  invariant that every pass or step keeps; and what follows for a run of any length, with any
  driver and schedule the contracts allow. Where the code loses a buffer, deadlocks or reports
  something wrong, the theorem says exactly when.

  \<^bold>\<open>Bounds.\<close> No definition uses fuel: C loops are structural recursion or folds over the
  burst, endless loops are iterated passes or schedules of any length, and \<open>dump_pipeline\<close>
  and \<open>wait_ring\<close>, which may run forever, are partial functions. Bounds in the statements are the code's own: at most
  41 packets received by the pipeline, and a shutdown within a number of steps fixed in
  advance; graph walks of less than 64 (pipeline) and 16 visits; bursts of 4 to 64; hash tables
  of 1024 entries; rings of one less than their size; a queue back that is 33 longer than the queue
  there, so that the vhost backend loses nothing; an event device of 4096 events and a pool
  of 1024 buffers.

  \<^bold>\<open>Not modelled.\<close> graph_private_context calls functions outside the documented interface
  of the graph library; what they give is a parameter. The helper that graph_arc runs on another
  lcore is a definition, but its effect on a walk in progress is not modelled: it races with the
  walk on structures of the library. Left out are the final clean-up calls, and the callback that
  only stores a port number in the configuration of an event adapter. The fields of the structures handed to the library at start-up (meter
  rates, key layouts) are not part of a call. Weak memory is not modelled: steps interleave on
  one memory. A packet is a single segment, and time is an argument.
\<close>

end
